(* ===== verification/Prelude.thy ===== *)
theory Prelude
  imports Main "HOL-Library.Word" "HOL-Library.Sublist"
begin

text \<open>
  Shared vocabulary of the development: Rust's \<open>char\<close>, \<open>str\<close> and \<open>u64\<close>, the UTF-8 view of a
  string that \<open>str::as_bytes\<close> gives, and the collections of simplification rules the component
  theories add to.
  A Rust string is the list of its characters; \<open>as_bytes\<close> is its encoding. The two views are
  kept apart because the glob tree stores characters and compares bytes.
\<close>

named_theorems wf_intros \<open>an operation keeps the well-formedness invariant of its component\<close>
named_theorems count_simps \<open>how the reference counts of glob nodes change\<close>
named_theorems path_simps \<open>what a path of a glob tree leads to after an operation\<close>

section \<open>Characters and strings\<close>

text \<open>A Rust \<open>char\<close> is a Unicode scalar value; \<open>Chr n\<close> is the one with code point \<open>n\<close>.\<close>

datatype rchar = Chr (code: nat)

text \<open>\<open>char\<close> is ordered by code point, which is the key order of \<open>BTreeMap<char, _>\<close>.\<close>

instantiation rchar :: linorder
begin

definition less_eq_rchar :: "rchar \<Rightarrow> rchar \<Rightarrow> bool" where
  "less_eq_rchar c d \<longleftrightarrow> code c \<le> code d"

definition less_rchar :: "rchar \<Rightarrow> rchar \<Rightarrow> bool" where
  "less_rchar c d \<longleftrightarrow> code c < code d"

instance
  by intro_classes (auto simp: less_eq_rchar_def less_rchar_def rchar.expand)

end

type_synonym rstring = "rchar list"
type_synonym byte = "8 word"
type_synonym bytes = "8 word list"
type_synonym u64 = "64 word"
type_synonym i64 = "64 word"
type_synonym usize = "64 word"

definition valid_char :: "rchar \<Rightarrow> bool" where
  "valid_char c \<longleftrightarrow> code c < 0xD800 \<or> 0xDFFF < code c \<and> code c \<le> 0x10FFFF"

definition is_ascii :: "rchar \<Rightarrow> bool" where
  "is_ascii c \<longleftrightarrow> code c < 128"

text \<open>A literal of the source, written as an Isabelle string.\<close>

definition str :: "string \<Rightarrow> rstring" where
  "str s = List.map (\<lambda>c. Chr (of_char c)) s"

section \<open>The UTF-8 encoding\<close>

definition utf8_char :: "rchar \<Rightarrow> bytes" where
  "utf8_char c =
     (let n = code c in
      if n < 0x80 then [of_nat n]
      else if n < 0x800 then [of_nat (0xC0 + n div 64), of_nat (0x80 + n mod 64)]
      else if n < 0x10000 then
        [of_nat (0xE0 + n div 4096), of_nat (0x80 + n div 64 mod 64), of_nat (0x80 + n mod 64)]
      else
        [of_nat (0xF0 + n div 262144), of_nat (0x80 + n div 4096 mod 64),
         of_nat (0x80 + n div 64 mod 64), of_nat (0x80 + n mod 64)])"

definition as_bytes :: "rstring \<Rightarrow> bytes" where
  "as_bytes s = concat (List.map utf8_char s)"

text \<open>\<open>b as char\<close> for a byte \<open>b\<close>: the character with that code point (Latin-1).\<close>

definition byte_char :: "byte \<Rightarrow> rchar" where
  "byte_char b = Chr (unat b)"

text \<open>The characters the matcher compares with: the string's bytes, each read as a character.\<close>

definition byte_chars :: "rstring \<Rightarrow> rstring" where
  "byte_chars s = List.map byte_char (as_bytes s)"

lemma as_bytes_Nil [simp]: "as_bytes [] = []"
  by (simp add: as_bytes_def)

lemma as_bytes_Cons [simp]: "as_bytes (c # s) = utf8_char c @ as_bytes s"
  by (simp add: as_bytes_def)

lemma as_bytes_append [simp]: "as_bytes (s @ s') = as_bytes s @ as_bytes s'"
  by (simp add: as_bytes_def)

lemma utf8_char_length: "1 \<le> length (utf8_char c) \<and> (length (utf8_char c) = 1 \<longleftrightarrow> is_ascii c)"
  by (simp add: utf8_char_def Let_def is_ascii_def)

lemma byte_char_utf8_ascii: "is_ascii c \<Longrightarrow> List.map byte_char (utf8_char c) = [c]"
  by (cases c) (simp add: utf8_char_def is_ascii_def byte_char_def unat_of_nat)

lemma byte_chars_ascii: "list_all is_ascii s \<Longrightarrow> byte_chars s = s"
  by (induction s) (auto simp: byte_chars_def byte_char_utf8_ascii)

lemma length_as_bytes_ge: "length s \<le> length (as_bytes s)"
proof (induction s)
  case (Cons c s)
  then show ?case using utf8_char_length [of c] by simp
qed simp

lemma length_as_bytes_gt: "\<not> list_all is_ascii s \<Longrightarrow> length s < length (as_bytes s)"
proof (induction s)
  case (Cons c s)
  show ?case
  proof (cases "is_ascii c")
    case True
    with Cons show ?thesis using utf8_char_length [of c] by simp
  next
    case False
    then have "2 \<le> length (utf8_char c)"
      using utf8_char_length [of c] by linarith
    then show ?thesis using length_as_bytes_ge [of s] by simp
  qed
qed simp

section \<open>Lists\<close>

lemma subseq_set: "subseq xs ys \<Longrightarrow> x \<in> set xs \<Longrightarrow> x \<in> set ys"
  by (erule (1) list_emb_set) simp

section \<open>64-bit counters\<close>

lemma unat_u64_Suc: "unat (w :: u64) + 1 < 2 ^ 64 \<Longrightarrow> unat (w + 1) = unat w + 1"
  by (simp add: unat_word_ariths)

lemma unat_u64_pred: "(w :: u64) \<noteq> 0 \<Longrightarrow> unat (w - 1) = unat w - 1"
  by (simp add: unat_minus_one)

lemma unat_u64_add:
  "unat (a :: u64) + unat b < 2 ^ 64 \<Longrightarrow> unat (a + b) = unat a + unat b"
  by (simp add: unat_word_ariths)

lemma unat_u64_sum_list:
  "(\<Sum>x\<leftarrow>xs. unat (f x :: u64)) < 2 ^ 64 \<Longrightarrow>
   unat (\<Sum>x\<leftarrow>xs. f x) = (\<Sum>x\<leftarrow>xs. unat (f x))"
  by (induction xs) (auto simp: unat_u64_add)

end
