(* ===== verification/Buffer_Config.thy ===== *)
theory Buffer_Config
  imports Prelude
begin

text \<open>
  \<open>lbroker/src/buffer_config.rs\<close> (flush strategies, performance presets) and the channel and
  interval constants of \<open>lbroker/src/config.rs\<close>.
\<close>

section \<open>Constants\<close>

definition CHANNEL_BUFFER_SIZE :: nat where
  "CHANNEL_BUFFER_SIZE = 100000"

definition M_COMMANDS_INTERVAL_S :: u64 where
  "M_COMMANDS_INTERVAL_S = 10"

definition M_CONNECTIONS_INTERVAL_S :: u64 where
  "M_CONNECTIONS_INTERVAL_S = 10"

definition M_MESSAGES_SENT_INTERVAL_S :: u64 where
  "M_MESSAGES_SENT_INTERVAL_S = 10"

section \<open>Strategies and presets\<close>

datatype flush_strategy = Immediate | Periodic (interval_ms: u64) | Auto

datatype performance_mode = LowLatency | Balanced | HighThroughput

record buffer_config =
  bc_size :: usize
  bc_flush_strategy :: flush_strategy

fun to_config :: "performance_mode \<Rightarrow> buffer_config" where
  "to_config LowLatency = \<lparr>bc_size = 4 * 1024, bc_flush_strategy = Immediate\<rparr>"
| "to_config Balanced = \<lparr>bc_size = 32 * 1024, bc_flush_strategy = Periodic 10\<rparr>"
| "to_config HighThroughput = \<lparr>bc_size = 128 * 1024, bc_flush_strategy = Auto\<rparr>"

definition low_latency :: buffer_config where
  "low_latency = to_config LowLatency"

definition balanced :: buffer_config where
  "balanced = to_config Balanced"

definition high_throughput :: buffer_config where
  "high_throughput = to_config HighThroughput"

definition custom :: "usize \<Rightarrow> flush_strategy \<Rightarrow> buffer_config" where
  "custom sz strategy = \<lparr>bc_size = sz, bc_flush_strategy = strategy\<rparr>"

definition default_config :: buffer_config where
  "default_config = balanced"

lemmas preset_defs = low_latency_def balanced_def high_throughput_def custom_def default_config_def

text \<open>
  The three presets are distinct configurations, each with a non-empty buffer, and no preset
  asks for a flush interval of zero, on which the timer of the write loop would panic.
\<close>
theorem presets_sound:
  "inj to_config \<and> (\<forall>m. 0 < unat (bc_size (to_config m)) \<and>
     bc_flush_strategy (to_config m) \<noteq> Periodic 0)"
proof -
  have "to_config m = to_config m' \<longleftrightarrow> m = m'" for m m' by (cases m; cases m') auto
  moreover have "0 < unat (bc_size (to_config m)) \<and> bc_flush_strategy (to_config m) \<noteq> Periodic 0" for m
    by (cases m) auto
  ultimately show ?thesis by (auto simp: inj_def)
qed

end
