(* ===== verification/Cli.thy ===== *)
theory Cli
  imports Buffer_Config
begin

text \<open>
  \<open>lbroker/src/main.rs\<close>: what the command line asks for. Parsing the arguments (\<open>clap\<close>), logging
  and running the server are outside; the model is the decision \<open>main\<close> takes on the parsed
  arguments. \<open>str::to_lowercase\<close> is the parameter \<open>lower\<close>; the parameter \<open>mk_interval\<close> makes the timer
  of a test client from a number of seconds (an \<open>f64\<close>), None where that panics (a negative number, for
  instance, or zero).
\<close>

datatype 'f commands =
    Server (port: "16 word") (mode: "rstring option") (buffer_size: "usize option")
      (flush_strategy_arg: "rstring option") (flush_interval: u64)
  | TestClient (address: rstring) (number: u64) (subscribe: "rstring list") (interval: "'f option")

record 'f cli =
  cli_name :: "rstring option"
  cli_config :: "rstring option"
  cli_debug :: "8 word"
  cli_json :: bool
  cli_command :: "'f commands option"

definition log_level :: "'f cli \<Rightarrow> rstring" where
  "log_level cli = (if cli_debug cli = 0 then str ''info'' else str ''debug'')"

text \<open>
  The logger \<open>main\<close> installs: the filter of the environment if there is a valid one, else one made
  from the log level (\<open>EnvFilter::new\<close>, the parameter \<open>new_filter\<close>); JSON lines if asked for.
\<close>

record 'e logger =
  log_filter :: 'e
  log_json :: bool

definition logger_setup :: "'x + 'e \<Rightarrow> (rstring \<Rightarrow> 'e) \<Rightarrow> 'f cli \<Rightarrow> 'e logger" where
  "logger_setup default_env new_filter cli =
     \<lparr>log_filter = (case default_env of Inr env_filter \<Rightarrow> env_filter | Inl _ \<Rightarrow> new_filter (log_level cli)),
      log_json = cli_json cli\<rparr>"

text \<open>The buffer configuration of the \<open>server\<close> command, branch by branch.\<close>

definition select_mode :: "(rstring \<Rightarrow> rstring) \<Rightarrow> rstring \<Rightarrow> buffer_config" where
  "select_mode lower mode_str =
     (let s = lower mode_str in
      if s = str ''low-latency'' \<or> s = str ''lowlatency'' then low_latency
      else if s = str ''balanced'' then balanced
      else if s = str ''high-throughput'' \<or> s = str ''highthroughput'' then high_throughput
      else balanced)"

definition select_strategy ::
  "(rstring \<Rightarrow> rstring) \<Rightarrow> rstring option \<Rightarrow> u64 \<Rightarrow> flush_strategy" where
  "select_strategy lower strategy flush_ms =
     (case strategy of
        Some strat_str \<Rightarrow>
          (let s = lower strat_str in
           if s = str ''immediate'' then Immediate
           else if s = str ''auto'' then Auto
           else if s = str ''periodic'' then Periodic flush_ms
           else Auto)
      | None \<Rightarrow> Auto)"

definition select_buffer_config ::
  "(rstring \<Rightarrow> rstring) \<Rightarrow> rstring option \<Rightarrow> usize option \<Rightarrow> rstring option \<Rightarrow> u64 \<Rightarrow> buffer_config" where
  "select_buffer_config lower mode_arg kb_arg strategy flush_ms =
     (case mode_arg of
        Some mode_str \<Rightarrow> select_mode lower mode_str
      | None \<Rightarrow>
          if kb_arg \<noteq> None \<or> strategy \<noteq> None then
            custom (case kb_arg of Some kb \<Rightarrow> kb * 1024 | None \<Rightarrow> 32 * 1024)
              (select_strategy lower strategy flush_ms)
          else default_config)"

text \<open>
  What \<open>main\<close> goes on to do: serve, run test clients (one task each), or panic, without a command or at
  the interval of the first test client.
\<close>

datatype 'i plan =
    Run_server "16 word" buffer_config
  | Run_test_clients "(rstring \<times> rstring \<times> rstring list \<times> 'i option) list"
  | No_command_panic
  | Interval_panic

text \<open>\<open>format!("{i}")\<close>: the decimal digits of the task's number.\<close>

fun decimal :: "nat \<Rightarrow> rstring" where
  "decimal n = (if n < 10 then [Chr (48 + n)] else decimal (n div 10) @ [Chr (48 + n mod 10)])"

declare decimal.simps [simp del]

definition test_client_tasks ::
  "rstring \<Rightarrow> u64 \<Rightarrow> rstring list \<Rightarrow> 'i option \<Rightarrow> (rstring \<times> rstring \<times> rstring list \<times> 'i option) list" where
  "test_client_tasks addr n subs t_interval =
     List.map (\<lambda>i. (decimal i, addr, subs, t_interval)) [0..<unat n]"

definition main_plan :: "(rstring \<Rightarrow> rstring) \<Rightarrow> ('f \<Rightarrow> 'i option) \<Rightarrow> 'f cli \<Rightarrow> 'i plan" where
  "main_plan lower mk_interval cli =
     (case cli_command cli of
        Some (Server p md kb strategy flush_ms) \<Rightarrow>
          Run_server p (select_buffer_config lower md kb strategy flush_ms)
      | Some (TestClient addr n subs iv) \<Rightarrow>
          (case iv of
             None \<Rightarrow> Run_test_clients (test_client_tasks addr n subs None)
           | Some i \<Rightarrow>
               if 0 < n \<and> mk_interval i = None then Interval_panic
               else Run_test_clients (test_client_tasks addr n subs (mk_interval i)))
      | None \<Rightarrow> No_command_panic)"

section \<open>Properties\<close>

lemma decimal_nonempty [simp]: "decimal n \<noteq> []"
  by (subst decimal.simps) simp

lemma decimal_length_1: "length (decimal n) = 1 \<longleftrightarrow> n < 10"
  by (subst decimal.simps) simp

lemma decimal_inj: "decimal a = decimal b \<Longrightarrow> a = b"
proof (induction a arbitrary: b rule: less_induct)
  case (less a)
  have "length (decimal a) = length (decimal b)" using less.prems by simp
  then have lt: "a < 10 \<longleftrightarrow> b < 10" by (metis decimal_length_1)
  show ?case
  proof (cases "a < 10")
    case True
    with lt less.prems show ?thesis by (simp add: decimal.simps [of a] decimal.simps [of b])
  next
    case False
    with lt less.prems have "decimal (a div 10) = decimal (b div 10)" "a mod 10 = b mod 10"
      by (simp_all add: decimal.simps [of a] decimal.simps [of b])
    with less.IH [of "a div 10" "b div 10"] False have "a div 10 = b div 10" "a mod 10 = b mod 10"
      by auto
    then show ?thesis by (metis div_mult_mod_eq)
  qed
qed

text \<open>
  A mode on the command line decides the configuration alone: the buffer size, the flush
  strategy and the flush interval given with it are ignored, although their help texts say they
  override the preset.
\<close>
theorem mode_ignores_overrides:
  "select_buffer_config lower (Some m) sz strategy ms =
     select_buffer_config lower (Some m) None None 0 \<and>
   (\<exists>p. select_buffer_config lower (Some m) sz strategy ms = to_config p)"
proof -
  have "\<exists>p. select_mode lower m = to_config p"
    by (auto simp: select_mode_def Let_def low_latency_def balanced_def high_throughput_def
        simp del: to_config.simps)
  then show ?thesis by (simp add: select_buffer_config_def)
qed

text \<open>
  The configuration the server runs with asks for a periodic flush of zero milliseconds, which
  panics in the timer of every connection's write task, exactly when there is no mode, the strategy
  is \<open>periodic\<close> and the interval is given as zero: nothing on the command line rejects it.
\<close>
theorem zero_interval_iff:
  "bc_flush_strategy (select_buffer_config lower md sz strategy ms) = Periodic 0 \<longleftrightarrow>
     md = None \<and> (\<exists>s. strategy = Some s \<and> lower s = str ''periodic'') \<and> ms = 0"
  by (auto simp: select_buffer_config_def select_mode_def select_strategy_def Let_def preset_defs
      str_def split: option.splits)

text \<open>
  A buffer size in kilobytes becomes that many times 1024 bytes as long as it is below \<open>2^54\<close>;
  at \<open>2^54\<close> the multiplication wraps to an empty buffer.
\<close>
theorem custom_size:
  assumes "unat kb < 2 ^ 54"
  shows "unat (bc_size (select_buffer_config lower None (Some kb) strategy ms)) = 1024 * unat kb \<and>
    bc_size (select_buffer_config lower None (Some (2 ^ 54)) strategy ms) = 0"
  using assms by (simp add: select_buffer_config_def custom_def unat_word_ariths)

theorem custom_size_witness:
  "unat (bc_size (select_buffer_config id None (Some 8) None 10)) = 1024 * unat (8 :: usize) \<and>
   bc_size (select_buffer_config id None (Some (2 ^ 54)) None 10) = 0"
  by (rule custom_size) simp

text \<open>
  The test-client command starts exactly the number of clients asked for, each under its own
  identifier.
\<close>
theorem test_clients_distinct:
  assumes "main_plan lower mk_interval cli = Run_test_clients ts"
  shows "\<exists>addr n subs iv. cli_command cli = Some (TestClient addr n subs iv) \<and> length ts = unat n \<and>
    distinct (List.map fst ts)"
proof -
  obtain addr n subs iv t where c: "cli_command cli = Some (TestClient addr n subs iv)"
      "ts = test_client_tasks addr n subs t"
    using assms by (auto simp: main_plan_def split: option.splits commands.splits if_splits)
  have "inj_on decimal {0..<unat n}" by (auto intro: inj_onI decimal_inj)
  then have "distinct (List.map fst ts)" by (simp add: c(2) test_client_tasks_def comp_def distinct_map)
  with c show ?thesis by (simp add: test_client_tasks_def)
qed

theorem test_clients_distinct_witness:
  "\<exists>addr n subs iv.
     cli_command \<lparr>cli_name = None, cli_config = None, cli_debug = 0, cli_json = False,
       cli_command = Some (TestClient [] 2 [] (None :: nat option))\<rparr> =
       Some (TestClient addr n subs iv) \<and>
     length [(decimal 0, [] :: rstring, [] :: rstring list, None :: nat option), (decimal 1, [], [], None)] = unat n \<and>
     distinct (List.map fst [(decimal 0, [] :: rstring, [] :: rstring list, None :: nat option), (decimal 1, [], [], None)])"
proof (rule test_clients_distinct [of id Some])
  show "main_plan id Some \<lparr>cli_name = None, cli_config = None, cli_debug = 0, cli_json = False,
      cli_command = Some (TestClient [] 2 [] (None :: nat option))\<rparr> =
    Run_test_clients [(decimal 0, [], [], None), (decimal 1, [], [], None)]"
    by (simp add: main_plan_def test_client_tasks_def upt_rec)
qed

end
