(* ===== verification/Interface.thy ===== *)
theory Interface
  imports Prelude
begin

text \<open>
  \<open>lbroker/src/interface.rs\<close>: messages, commands and the codec between them and a byte stream.
  The value of a message (\<open>rmpv::Value\<close>) is an opaque type \<open>'v\<close> with a parameter \<open>debug\<close> for its
  \<open>{:?}\<close> form. The msgpack library (\<open>rmp_serde\<close>) is a parameter: \<open>from_read\<close> reads one item from the
  front of a byte slice and gives the rest of the slice, \<open>serialize\<close> gives the bytes of an item.
\<close>

section \<open>Messages and commands\<close>

record 'v message =
  msg_topic :: rstring
  msg_value :: 'v

datatype 'v command =
    Publish "'v message"
  | Subscribe rstring
  | Unsubscribe rstring

text \<open>\<open>Command::log\<close> writes the fields \<open>command\<close>, and \<open>topic\<close> and \<open>value\<close> or \<open>pattern\<close>.\<close>

fun command_log :: "('v \<Rightarrow> rstring) \<Rightarrow> 'v command \<Rightarrow> (rstring \<times> rstring) list" where
  "command_log debug (Publish message) =
     [(str ''command'', str ''PUBLISH''), (str ''topic'', msg_topic message),
      (str ''value'', debug (msg_value message))]"
| "command_log debug (Subscribe pattern) =
     [(str ''command'', str ''SUBSCRIBE''), (str ''pattern'', pattern)]"
| "command_log debug (Unsubscribe pattern) =
     [(str ''command'', str ''UNSUBSCRIBE''), (str ''pattern'', pattern)]"

text \<open>\<open>fmt\<close> of \<open>Display for Command\<close>.\<close>

fun command_fmt :: "('v \<Rightarrow> rstring) \<Rightarrow> 'v command \<Rightarrow> rstring" where
  "command_fmt debug (Publish message) =
     str ''PUBLISH - '' @ msg_topic message @ str '' - '' @ debug (msg_value message)"
| "command_fmt debug (Subscribe pattern) = str ''SUBSCRIBE - '' @ pattern"
| "command_fmt debug (Unsubscribe pattern) = str ''UNSUBSCRIBE - '' @ pattern"

section \<open>The codec\<close>

text \<open>
  The errors of \<open>rmp_serde::decode\<close> that \<open>decode\<close> tells apart; \<open>Other_error\<close> carries the text of
  any other one. \<open>Invalid_data\<close> is the \<open>std::io::Error\<close> of that kind, with its text.
\<close>

datatype rmp_error = LengthMismatch | InvalidMarkerRead | InvalidDataRead | Other_error rstring

datatype io_error = Invalid_data rstring

definition decode ::
  "(bytes \<Rightarrow> (rmp_error + 'a) \<times> bytes) \<Rightarrow> bytes \<Rightarrow> (io_error + 'a option) \<times> bytes" where
  "decode from_read src =
     (let start_len = length src;
          (command, buf) = from_read src;
          bytes_read = start_len - length buf
      in case command of
           Inr c \<Rightarrow> (Inr (Some c), drop bytes_read src)
         | Inl e \<Rightarrow>
             (case e of
                LengthMismatch \<Rightarrow> (Inr None, src)
              | InvalidMarkerRead \<Rightarrow> (Inr None, src)
              | InvalidDataRead \<Rightarrow> (Inr None, src)
              | Other_error msg \<Rightarrow> (Inl (Invalid_data msg), src)))"

definition encode ::
  "('a \<Rightarrow> rstring + bytes) \<Rightarrow> 'a \<Rightarrow> bytes \<Rightarrow> (io_error + unit) \<times> bytes" where
  "encode serialize item dst =
     (case serialize item of
        Inr buf \<Rightarrow> (Inr (), dst @ buf)
      | Inl e \<Rightarrow> (Inl (Invalid_data e), dst))"

text \<open>
  What the codec relies on of the msgpack library: an item that was serialized is read back from
  the front of any slice that starts with its bytes and leaves the rest; the empty slice and a
  strict prefix of those bytes fail for want of data (\<open>InvalidMarkerRead\<close> or
  \<open>InvalidDataRead\<close>, the read errors).
\<close>

definition rmp_reads_back ::
  "(bytes \<Rightarrow> (rmp_error + 'a) \<times> bytes) \<Rightarrow> ('a \<Rightarrow> rstring + bytes) \<Rightarrow> bool" where
  "rmp_reads_back from_read serialize \<longleftrightarrow>
     (\<forall>x bs rest. serialize x = Inr bs \<longrightarrow> from_read (bs @ rest) = (Inr x, rest))"

definition rmp_wants_more ::
  "(bytes \<Rightarrow> (rmp_error + 'a) \<times> bytes) \<Rightarrow> ('a \<Rightarrow> rstring + bytes) \<Rightarrow> bool" where
  "rmp_wants_more from_read serialize \<longleftrightarrow>
     fst (from_read []) \<in> {Inl InvalidMarkerRead, Inl InvalidDataRead} \<and>
     (\<forall>x bs p. serialize x = Inr bs \<longrightarrow> strict_prefix p bs \<longrightarrow>
        fst (from_read p) \<in> {Inl InvalidMarkerRead, Inl InvalidDataRead})"

section \<open>Reading a stream\<close>

text \<open>
  How a framed reader uses the codec: it decodes until the codec asks for more, then appends the
  next chunk of the connection to the buffer. \<open>frames\<close> is one such run of decoding.
\<close>

inductive frames ::
  "(bytes \<Rightarrow> (rmp_error + 'a) \<times> bytes) \<Rightarrow> bytes \<Rightarrow> 'a list \<Rightarrow> bytes \<Rightarrow> bool" for from_read where
  more: "decode from_read buf = (Inr None, buf') \<Longrightarrow> frames from_read buf [] buf'"
| item: "decode from_read buf = (Inr (Some x), buf') \<Longrightarrow> frames from_read buf' xs buf'' \<Longrightarrow>
     frames from_read buf (x # xs) buf''"

inductive feeds ::
  "(bytes \<Rightarrow> (rmp_error + 'a) \<times> bytes) \<Rightarrow> bytes \<Rightarrow> bytes list \<Rightarrow> 'a list \<Rightarrow> bytes \<Rightarrow> bool"
  for from_read where
  eof: "feeds from_read buf [] [] buf"
| chunk: "frames from_read (buf @ c) xs buf' \<Longrightarrow> feeds from_read buf' cs ys buf'' \<Longrightarrow>
     feeds from_read buf (c # cs) (xs @ ys) buf''"

inductive_cases frames_elim: "frames from_read buf xs buf'"
inductive_cases feeds_Nil: "feeds from_read buf [] xs buf'"
inductive_cases feeds_Cons: "feeds from_read buf (c # cs) xs buf'"

lemma frames_deterministic:
  "frames from_read buf xs buf1 \<Longrightarrow> frames from_read buf ys buf2 \<Longrightarrow> xs = ys \<and> buf1 = buf2"
proof (induction arbitrary: ys rule: frames.induct)
  case (more buf buf')
  then show ?case by (auto elim: frames_elim)
next
  case (item buf x buf' xs buf'')
  from item.prems item.hyps(1) obtain ys' where "ys = x # ys'" "frames from_read buf' ys' buf2"
    by (auto elim: frames_elim)
  with item.IH show ?case by blast
qed

lemma feeds_deterministic:
  "feeds from_read buf cs xs buf1 \<Longrightarrow> feeds from_read buf cs ys buf2 \<Longrightarrow> xs = ys \<and> buf1 = buf2"
proof (induction arbitrary: ys rule: feeds.induct)
  case (eof buf)
  then show ?case by (auto elim: feeds_Nil)
next
  case (chunk buf c xs buf' cs zs buf'')
  from chunk.prems obtain us vs b where "frames from_read (buf @ c) us b" "feeds from_read b cs vs buf2"
      "ys = us @ vs"
    by (auto elim: feeds_Cons)
  with frames_deterministic [OF chunk.hyps(1)] chunk.IH show ?case by blast
qed

lemma decode_item:
  assumes "rmp_reads_back from_read serialize" and "serialize x = Inr bs"
  shows "decode from_read (bs @ rest) = (Inr (Some x), rest)"
  using assms by (simp add: decode_def rmp_reads_back_def)

lemma decode_partial:
  assumes "rmp_wants_more from_read serialize" and "serialize x = Inr bs" and "strict_prefix p bs"
  shows "decode from_read p = (Inr None, p)"
proof -
  have "fst (from_read p) \<in> {Inl InvalidMarkerRead, Inl InvalidDataRead}"
    using assms unfolding rmp_wants_more_def by blast
  then show ?thesis by (cases "from_read p") (auto simp: decode_def)
qed

text \<open>The bytes of a sequence of items.\<close>

definition stream :: "('a \<Rightarrow> rstring + bytes) \<Rightarrow> 'a list \<Rightarrow> bytes" where
  "stream serialize xs = concat (List.map (\<lambda>x. projr (serialize x)) xs)"

definition serializable :: "('a \<Rightarrow> rstring + bytes) \<Rightarrow> 'a \<Rightarrow> bool" where
  "serializable serialize x \<longleftrightarrow> (\<exists>bs. serialize x = Inr bs \<and> bs \<noteq> [])"

lemma stream_Cons [simp]: "stream serialize (x # xs) = projr (serialize x) @ stream serialize xs"
  by (simp add: stream_def)

lemma stream_Nil [simp]: "stream serialize [] = []"
  by (simp add: stream_def)

text \<open>
  What is left of a stream after a prefix of it was read: the whole items read, the items to come,
  and the part of the next item that has arrived.
\<close>

lemma stream_prefix:
  assumes "\<forall>x\<in>set xs. serializable serialize x" and "prefix b (stream serialize xs)"
  shows "\<exists>ys zs p. xs = ys @ zs \<and> b = stream serialize ys @ p \<and>
    (zs = [] \<and> p = [] \<or> (\<exists>z zs'. zs = z # zs' \<and> strict_prefix p (projr (serialize z))))"
  using assms
proof (induction xs arbitrary: b)
  case Nil
  then show ?case by simp
next
  case (Cons x xs)
  let ?bs = "projr (serialize x)"
  show ?case
  proof (cases "strict_prefix b ?bs")
    case True
    then show ?thesis by (intro exI [of _ "[]"] exI [of _ "x # xs"] exI [of _ b]) simp
  next
    case False
    with Cons.prems(2) obtain b' where b': "b = ?bs @ b'" "prefix b' (stream serialize xs)"
      by (auto simp: prefix_append strict_prefix_def)
    obtain ys zs p where "xs = ys @ zs" "b' = stream serialize ys @ p"
        "zs = [] \<and> p = [] \<or> (\<exists>z zs'. zs = z # zs' \<and> strict_prefix p (projr (serialize z)))"
      using Cons.IH [OF _ b'(2)] Cons.prems(1) by auto
    then show ?thesis
      by (intro exI [of _ "x # ys"] exI [of _ zs] exI [of _ p]) (simp add: b'(1))
  qed
qed

lemma decode_empty:
  assumes "rmp_wants_more from_read serialize"
  shows "decode from_read [] = (Inr None, [])"
proof -
  have "fst (from_read []) \<in> {Inl InvalidMarkerRead, Inl InvalidDataRead}"
    using assms unfolding rmp_wants_more_def by blast
  then show ?thesis by (cases "from_read []") (auto simp: decode_def)
qed

lemma frames_stream:
  assumes rb: "rmp_reads_back from_read serialize"
    and ys: "\<forall>x\<in>set ys. serializable serialize x"
    and stop: "decode from_read p = (Inr None, p)"
  shows "frames from_read (stream serialize ys @ p) ys p"
  using ys
proof (induction ys)
  case Nil
  then show ?case using stop by (simp add: frames.more)
next
  case (Cons y ys)
  obtain bs where bs: "serialize y = Inr bs" using Cons.prems by (auto simp: serializable_def)
  have "decode from_read (stream serialize (y # ys) @ p) = (Inr (Some y), stream serialize ys @ p)"
    using decode_item [OF rb bs] by (simp add: bs)
  then show ?case using Cons by (auto intro: frames.item)
qed

lemma feeds_stream:
  assumes rb: "rmp_reads_back from_read serialize" and wm: "rmp_wants_more from_read serialize"
  shows "\<forall>x\<in>set xs. serializable serialize x \<Longrightarrow> buf @ concat cs = stream serialize xs \<Longrightarrow>
    decode from_read buf = (Inr None, buf) \<Longrightarrow> cs \<noteq> [] \<or> buf = [] \<Longrightarrow>
    feeds from_read buf cs xs []"
proof (induction cs arbitrary: buf xs)
  case Nil
  then have "stream serialize xs = []" by auto
  moreover have "serialize x = Inr [] \<Longrightarrow> \<not> serializable serialize x" for x
    by (simp add: serializable_def)
  ultimately have "xs = []" using Nil.prems(1) by (cases xs) (auto simp: serializable_def)
  with Nil show ?case by (simp add: feeds.eof)
next
  case (Cons c cs)
  have pre: "prefix (buf @ c) (stream serialize xs)"
    using Cons.prems(2) by (metis append.assoc concat.simps(2) prefixI)
  then obtain ys zs p where yzp: "xs = ys @ zs" "buf @ c = stream serialize ys @ p"
      "zs = [] \<and> p = [] \<or> (\<exists>z zs'. zs = z # zs' \<and> strict_prefix p (projr (serialize z)))"
    using stream_prefix [OF Cons.prems(1) pre] by blast
  have stop: "decode from_read p = (Inr None, p)"
    using yzp(3)
  proof
    assume "zs = [] \<and> p = []"
    then show ?thesis using decode_empty [OF wm] by simp
  next
    assume "\<exists>z zs'. zs = z # zs' \<and> strict_prefix p (projr (serialize z))"
    then obtain z zs' where z: "zs = z # zs'" "strict_prefix p (projr (serialize z))" by blast
    then obtain bs where "serialize z = Inr bs"
      using Cons.prems(1) yzp(1) by (auto simp: serializable_def)
    with z(2) show ?thesis by (auto intro: decode_partial [OF wm])
  qed
  have split: "stream serialize xs = stream serialize ys @ stream serialize zs"
    by (simp add: yzp(1) stream_def)
  have rest: "p @ concat cs = stream serialize zs"
    using Cons.prems(2) yzp(2) split by (metis append.assoc concat.simps(2) same_append_eq)
  have "frames from_read (buf @ c) ys p"
    unfolding yzp(2) using Cons.prems(1) yzp(1) by (intro frames_stream [OF rb _ stop]) auto
  moreover have "feeds from_read p cs zs []"
  proof (rule Cons.IH [OF _ rest stop])
    show "\<forall>x\<in>set zs. serializable serialize x" using Cons.prems(1) yzp(1) by auto
    show "cs \<noteq> [] \<or> p = []"
    proof (rule disjCI)
      assume "p \<noteq> []"
      with yzp(3) obtain z zs' where z: "zs = z # zs'" "strict_prefix p (projr (serialize z))"
        by blast
      show "cs \<noteq> []"
      proof
        assume "cs = []"
        with rest z(1) have "prefix (projr (serialize z)) p" by (auto simp: prefix_def)
        with z(2) show False by (meson prefix_order.leD)
      qed
    qed
  qed
  ultimately show ?case unfolding yzp(1) by (rule feeds.chunk)
qed

lemma feeds_stream_iff:
  assumes "rmp_reads_back from_read serialize" and "rmp_wants_more from_read serialize"
    and "\<forall>x\<in>set xs. serializable serialize x" and "concat cs = stream serialize xs"
  shows "feeds from_read [] cs ys rest \<longleftrightarrow> ys = xs \<and> rest = []"
proof -
  have "feeds from_read [] cs xs []"
    using feeds_stream [OF assms(1,2,3), of "[]" cs] assms(4) decode_empty [OF assms(2)] by simp
  with feeds_deterministic show ?thesis by blast
qed

text \<open>With such a codec, chunks that are each some item's bytes are the bytes of a list of items.\<close>

lemma never_empty:
  assumes "rmp_reads_back from_read serialize" and "rmp_wants_more from_read serialize"
  shows "serialize x \<noteq> Inr []"
proof
  assume "serialize x = Inr []"
  with assms(1) have "from_read ([] @ []) = (Inr x, [])" unfolding rmp_reads_back_def by blast
  with assms(2) show False by (simp add: rmp_wants_more_def)
qed

lemma encoded_list:
  assumes "rmp_reads_back from_read serialize" and "rmp_wants_more from_read serialize"
    and "\<forall>x\<in>set xs. \<exists>m. serialize m = Inr x"
  shows "\<exists>ms. xs = List.map (\<lambda>m. projr (serialize m)) ms \<and> (\<forall>m\<in>set ms. serializable serialize m)"
  using assms(3)
proof (induction xs)
  case (Cons x xs)
  then obtain ms m where "xs = List.map (\<lambda>m. projr (serialize m)) ms"
      "\<forall>m\<in>set ms. serializable serialize m" "serialize m = Inr x"
    by auto
  moreover from this(3) have "serializable serialize m"
    using never_empty [OF assms(1,2), of m] by (auto simp: serializable_def)
  ultimately show ?case by (intro exI [of _ "m # ms"]) simp
qed simp

section \<open>Properties\<close>

text \<open>
  An item the codec encoded is decoded from the front of the buffer, exactly its bytes are
  consumed, and whatever follows stays in the buffer.
\<close>
theorem encode_decode_roundtrip:
  assumes "rmp_reads_back from_read serialize" and "encode serialize x [] = (Inr (), bs)"
  shows "decode from_read (bs @ rest) = (Inr (Some x), rest)"
  using assms decode_item by (fastforce simp: encode_def split: sum.splits)

text \<open>
  A stream of encoded items decodes to exactly those items in order, with nothing left over,
  however the connection cuts it into chunks: in the middle of an item, several items at once, or
  empty chunks.
\<close>
theorem decode_any_chunking:
  assumes "rmp_reads_back from_read serialize" and "rmp_wants_more from_read serialize"
    and "\<forall>x\<in>set xs. serializable serialize x" and "concat cs = stream serialize xs"
  shows "feeds from_read [] cs ys rest \<longleftrightarrow> ys = xs \<and> rest = []"
  by (rule feeds_stream_iff [OF assms])

text \<open>
  A decode that does not produce an item leaves the buffer as it was, and it asks for more
  bytes exactly on the two read errors and on \<open>LengthMismatch\<close>.
\<close>
theorem decode_failure_keeps_buffer:
  assumes "decode from_read src = (r, src')" and "\<forall>x. r \<noteq> Inr (Some x)"
  shows "src' = src \<and>
    (r = Inr None \<longleftrightarrow>
       fst (from_read src) \<in> {Inl LengthMismatch, Inl InvalidMarkerRead, Inl InvalidDataRead})"
  using assms
  by (cases "from_read src") (auto simp: decode_def split: sum.splits rmp_error.splits)

text \<open>
  An item of the wrong length stalls the stream for good. When the library reports
  \<open>LengthMismatch\<close> for a buffer and for all its extensions (the length is wrong, more bytes do not
  change it), every further chunk is buffered and no item or error is ever produced.
\<close>
theorem length_mismatch_stalls:
  assumes "\<forall>more. fst (from_read (buf @ more)) = Inl LengthMismatch"
  shows "feeds from_read buf cs ys rest \<longleftrightarrow> ys = [] \<and> rest = buf @ concat cs"
proof -
  have "decode from_read (buf @ more) = (Inr None, buf @ more)" for more
    using assms by (cases "from_read (buf @ more)") (auto simp: decode_def dest!: spec [of _ more])
  then have step: "frames from_read (buf @ more) [] (buf @ more)" for more
    by (rule frames.more)
  have "feeds from_read (buf @ more) cs [] (buf @ more @ concat cs)" for more
  proof (induction cs arbitrary: more)
    case Nil
    then show ?case by (simp add: feeds.eof)
  next
    case (Cons c cs)
    then show ?case
      using feeds.chunk [of from_read "buf @ more" c "[]" "buf @ more @ c" cs "[]"] step [of "more @ c"]
        Cons.IH [of "more @ c"] by simp
  qed
  from this [of "[]"] feeds_deterministic show ?thesis by fastforce
qed

section \<open>Instances\<close>

text \<open>
  A concrete library that satisfies the hypotheses, for items that are single bytes: the item
  \<open>n\<close> is serialized as the two bytes \<open>1, n\<close>.
\<close>

fun toy_read :: "bytes \<Rightarrow> (rmp_error + byte) \<times> bytes" where
  "toy_read [] = (Inl InvalidMarkerRead, [])"
| "toy_read [m] = (if m = 1 then (Inl InvalidDataRead, []) else (Inl LengthMismatch, []))"
| "toy_read (m # n # rest) = (if m = 1 then (Inr n, rest) else (Inl LengthMismatch, rest))"

definition toy_write :: "byte \<Rightarrow> rstring + bytes" where
  "toy_write n = Inr [1, n]"

lemma toy_reads_back: "rmp_reads_back toy_read toy_write"
  by (simp add: rmp_reads_back_def toy_write_def)

lemma toy_wants_more: "rmp_wants_more toy_read toy_write"
  by (auto simp: rmp_wants_more_def toy_write_def strict_prefix_def prefix_Cons)

text \<open>The same library for any type of items that a byte can stand for.\<close>

definition via_read :: "(byte \<Rightarrow> 'a) \<Rightarrow> bytes \<Rightarrow> (rmp_error + 'a) \<times> bytes" where
  "via_read f bs = map_prod (map_sum id f) id (toy_read bs)"

definition via_write :: "('a \<Rightarrow> byte option) \<Rightarrow> 'a \<Rightarrow> rstring + bytes" where
  "via_write g x = (case g x of None \<Rightarrow> Inl [] | Some n \<Rightarrow> toy_write n)"

lemma via_reads_back:
  "(\<And>x n. g x = Some n \<Longrightarrow> f n = x) \<Longrightarrow> rmp_reads_back (via_read f) (via_write g)"
  by (auto simp: rmp_reads_back_def via_read_def via_write_def toy_write_def split: option.splits)

lemma via_wants_more: "rmp_wants_more (via_read f) (via_write g)"
  by (auto simp: rmp_wants_more_def via_read_def via_write_def toy_write_def strict_prefix_def
      prefix_Cons split: option.splits)

theorem encode_decode_roundtrip_witness:
  "decode toy_read ([1, 7] @ [1, 8, 1]) = (Inr (Some 7), [1, 8, 1])"
  by (rule encode_decode_roundtrip [OF toy_reads_back]) (simp add: encode_def toy_write_def)

theorem decode_any_chunking_witness:
  "feeds toy_read [] [[1], [7, 1], [], [8]] [7, 8] [] \<longleftrightarrow> [7, 8] = [7, 8 :: byte] \<and> [] = ([] :: bytes)"
  by (rule decode_any_chunking [OF toy_reads_back toy_wants_more])
    (simp_all add: serializable_def toy_write_def)

theorem decode_failure_keeps_buffer_witness:
  "[1] = [1 :: byte] \<and>
   (Inr None = (Inr None :: io_error + byte option) \<longleftrightarrow>
      fst (toy_read [1]) \<in> {Inl LengthMismatch, Inl InvalidMarkerRead, Inl InvalidDataRead})"
  by (rule decode_failure_keeps_buffer) (simp_all add: decode_def)

theorem length_mismatch_stalls_witness:
  "feeds toy_read [2] [[1, 7], [1, 8]] [] ([2] @ concat [[1, 7], [1, 8]]) \<longleftrightarrow>
     ([] :: byte list) = [] \<and> [2] @ concat [[1, 7], [1, 8]] = [2 :: byte] @ concat [[1, 7], [1, 8]]"
proof (rule length_mismatch_stalls)
  have "fst (toy_read (2 # more)) = Inl LengthMismatch" for more by (cases more) simp_all
  then show "\<forall>more. fst (toy_read ([2] @ more)) = Inl LengthMismatch" by simp
qed

end
