(* ===== verification/Tcp_Adapter.thy ===== *)
theory Tcp_Adapter
  imports Buffer_Config Interface
begin

text \<open>
  \<open>TcpAdapter\<close> of \<open>lbroker/src/server.rs\<close>: the task that reads commands from the socket and the
  task that writes message bytes to it.
  The calls into \<open>tokio\<close> are not modelled: their results are inputs of the model. One iteration of
  the write loop is given by what its two futures are when \<open>select!\<close> looks at them, the branch taken,
  and the results of the calls in that branch; the model produces the calls on the socket's buffered
  writer, in order.
\<close>

section \<open>The adapter\<close>

record ('rx, 'tx) tcp_adapter =
  ta_receiver :: 'rx
  ta_sender :: 'tx

definition into_channels :: "('rx, 'tx) tcp_adapter \<Rightarrow> 'tx \<times> 'rx" where
  "into_channels self = (ta_sender self, ta_receiver self)"

section \<open>The read loop\<close>

text \<open>
  The results the framed reader yields, and what the loop sends over the command channel; a decode
  error is logged and the loop goes on.
\<close>

fun read_loop :: "(io_error + 'v command) list \<Rightarrow> 'v command list" where
  "read_loop [] = []"
| "read_loop (Inr command # results) = command # read_loop results"
| "read_loop (Inl e # results) = read_loop results"

section \<open>The write loop\<close>

datatype 'a poll = Pending | Ready 'a

datatype io_op = Write_all bytes | Flush

definition flush_interval_of :: "buffer_config \<Rightarrow> u64 option" where
  "flush_interval_of cfg =
     (case bc_flush_strategy cfg of Periodic ms \<Rightarrow> Some ms | _ \<Rightarrow> None)"

text \<open>
  The branches of the \<open>select!\<close>: a branch whose future is ready with a value its pattern does not
  match is disabled, and \<open>else\<close> is taken when all are. The second future is ready with \<open>None\<close> at
  once when there is no interval, and otherwise ready with \<open>Some\<close> at a tick.
\<close>

datatype write_branch = Branch_bytes bytes | Branch_tick | Branch_else

inductive write_select ::
  "u64 option \<Rightarrow> bytes option poll \<Rightarrow> unit poll \<Rightarrow> write_branch \<Rightarrow> bool" where
  select_bytes: "write_select iv (Ready (Some b)) tick (Branch_bytes b)"
| select_tick: "write_select (Some ms) recv (Ready ()) Branch_tick"
| select_else: "write_select None (Ready None) tick Branch_else"

inductive_simps write_select_closed: "write_select iv (Ready None) tick br"
inductive_simps write_select_bytes: "write_select iv recv tick (Branch_bytes b)"

text \<open>One iteration's inputs: the two futures, the branch, and the results of the calls.\<close>

record iteration =
  it_recv :: "bytes option poll"
  it_tick :: "unit poll"
  it_branch :: write_branch
  it_write_ok :: bool
  it_flush_ok :: bool
  it_queue_empty :: bool

text \<open>The body of the loop: the calls made, and whether the loop goes on.\<close>

definition write_iteration :: "buffer_config \<Rightarrow> iteration \<Rightarrow> io_op list \<times> bool" where
  "write_iteration cfg it =
     (case it_branch it of
        Branch_bytes b \<Rightarrow>
          if \<not> it_write_ok it then ([Write_all b], False)
          else
            (case bc_flush_strategy cfg of
               Immediate \<Rightarrow> ([Write_all b, Flush], it_flush_ok it)
             | Auto \<Rightarrow>
                 if it_queue_empty it then ([Write_all b, Flush], it_flush_ok it)
                 else ([Write_all b], True)
             | Periodic _ \<Rightarrow> ([Write_all b], True))
      | Branch_tick \<Rightarrow> ([Flush], it_flush_ok it)
      | Branch_else \<Rightarrow> ([], False))"

fun write_loop :: "buffer_config \<Rightarrow> iteration list \<Rightarrow> io_op list \<times> bool" where
  "write_loop cfg [] = ([], True)"
| "write_loop cfg (it # its) =
     (let (ops, go_on) = write_iteration cfg it in
      if go_on then (let (ops', go_on') = write_loop cfg its in (ops @ ops', go_on'))
      else (ops, False))"

definition iteration_ok :: "buffer_config \<Rightarrow> iteration \<Rightarrow> bool" where
  "iteration_ok cfg it \<longleftrightarrow>
     write_select (flush_interval_of cfg) (it_recv it) (it_tick it) (it_branch it)"

lemma write_loop_snoc:
  "write_loop cfg its = (ops, True) \<Longrightarrow>
   write_loop cfg (its @ [it]) =
     (ops @ fst (write_iteration cfg it), snd (write_iteration cfg it))"
  by (induction its arbitrary: ops)
    (auto simp: Let_def split: prod.splits if_splits)

lemma write_loop_butlast:
  "write_loop cfg (its @ [it]) = (ops, True) \<Longrightarrow> \<exists>ops'. write_loop cfg its = (ops', True)"
  by (induction its arbitrary: ops) (auto simp: Let_def split: prod.splits if_splits)

section \<open>Properties\<close>

fun written :: "io_op list \<Rightarrow> bytes list" where
  "written [] = []"
| "written (Write_all b # ops) = b # written ops"
| "written (Flush # ops) = written ops"

fun received :: "iteration list \<Rightarrow> bytes list" where
  "received [] = []"
| "received (it # its) = (case it_branch it of Branch_bytes b \<Rightarrow> [b] | _ \<Rightarrow> []) @ received its"

lemma written_append: "written (xs @ ys) = written xs @ written ys"
  by (induction xs rule: written.induct) auto

lemma written_iteration:
  "written (fst (write_iteration cfg it)) = (case it_branch it of Branch_bytes b \<Rightarrow> [b] | _ \<Rightarrow> [])"
  by (simp add: write_iteration_def split: write_branch.splits flush_strategy.splits)

text \<open>A message written without an error, and the state of the channel after it.\<close>

definition got :: "bytes \<Rightarrow> bool \<Rightarrow> iteration" where
  "got b queue_empty =
     \<lparr>it_recv = Ready (Some b), it_tick = Pending, it_branch = Branch_bytes b, it_write_ok = True,
      it_flush_ok = True, it_queue_empty = queue_empty\<rparr>"

lemma write_loop_prefix:
  "prefix (written (fst (write_loop cfg its))) (received its) \<and>
   (snd (write_loop cfg its) \<longrightarrow> written (fst (write_loop cfg its)) = received its)"
proof (induction its)
  case (Cons it its)
  show ?case
    using Cons written_iteration [of cfg it]
    by (auto simp: Let_def written_append split: prod.splits)
qed simp

lemma write_loop_written: "write_loop cfg its = (ops, True) \<Longrightarrow> written ops = received its"
  using write_loop_prefix [of cfg its] by simp

text \<open>
  The write task hands the bytes it receives to the socket's writer in order, each exactly
  once: whatever the strategy and the timing of ticks and flushes, while the loop runs what was
  written is what was received, and a loop that stopped on an error wrote a prefix of it.
\<close>
theorem write_loop_in_order:
  "prefix (written (fst (write_loop cfg its))) (received its) \<and>
   (snd (write_loop cfg its) \<longrightarrow> written (fst (write_loop cfg its)) = received its)"
  by (rule write_loop_prefix)

theorem write_loop_in_order_witness:
  "prefix (written (fst (write_loop low_latency [got [1] True]))) (received [got [1] True]) \<and>
   written (fst (write_loop low_latency [got [1] True])) = received [got [1] True]"
  using write_loop_in_order [of low_latency "[got [1] True]"]
  by (simp add: got_def write_iteration_def low_latency_def)

text \<open>
  C36: nothing stays in the write buffer while the task waits: with the immediate strategy after
  every iteration, and with the automatic strategy whenever the channel was empty at the last
  message, the last call on the writer is a flush that succeeded.
\<close>
theorem nothing_stuck_unflushed:
  assumes run: "write_loop cfg (its @ [it]) = (ops, True)"
    and strategy: "bc_flush_strategy cfg = Immediate \<or>
      bc_flush_strategy cfg = Auto \<and> it_queue_empty it"
  shows "ops \<noteq> [] \<and> last ops = Flush"
proof -
  obtain ops' where "write_loop cfg its = (ops', True)" using write_loop_butlast [OF run] by blast
  then have eq: "ops = ops' @ fst (write_iteration cfg it)" "snd (write_iteration cfg it)"
    using write_loop_snoc run by auto
  have "fst (write_iteration cfg it) \<noteq> [] \<and> last (fst (write_iteration cfg it)) = Flush"
    using eq(2) strategy
    by (auto simp: write_iteration_def split: write_branch.splits if_splits)
  with eq(1) show ?thesis by simp
qed

theorem nothing_stuck_unflushed_witness:
  "[Write_all [1], Write_all [2], Flush] \<noteq> [] \<and> last [Write_all [1], Write_all [2], Flush] = Flush"
  by (rule nothing_stuck_unflushed [of high_throughput "[got [1] False]" "got [2] True"])
    (simp_all add: got_def write_iteration_def high_throughput_def)

text \<open>
  Without a flush interval the write task ends when its connection does: once every sender of
  the channel is gone and the channel is drained, the first iteration \<open>select!\<close> allows leaves the
  loop, whatever it is.
\<close>
theorem write_loop_ends_on_close:
  assumes "flush_interval_of cfg = None" and "it_recv it = Ready None" and "iteration_ok cfg it"
  shows "write_loop cfg (it # its) = ([], False)"
  using assms by (auto simp: iteration_ok_def write_select_closed write_iteration_def)

definition closed_else :: iteration where
  "closed_else =
     \<lparr>it_recv = Ready None, it_tick = Pending, it_branch = Branch_else, it_write_ok = True,
      it_flush_ok = True, it_queue_empty = True\<rparr>"

theorem write_loop_ends_on_close_witness: "write_loop low_latency (closed_else # []) = ([], False)"
  by (rule write_loop_ends_on_close)
    (simp_all add: low_latency_def flush_interval_of_def closed_else_def iteration_ok_def
      write_select_closed)

text \<open>
  C37: with a flush interval (the balanced preset, which is the default) the write task never ends
  when its connection does: after the senders are gone, every iteration \<open>select!\<close> allows is a
  tick, \<open>else\<close> is never reached, and the loop goes on flushing for as long as flushing succeeds.
\<close>
theorem periodic_write_loop_never_ends:
  assumes "flush_interval_of cfg = Some ms"
    and "\<forall>it\<in>set its. it_recv it = Ready None \<and> iteration_ok cfg it \<and> it_flush_ok it"
  shows "write_loop cfg its = (replicate (length its) Flush, True)"
  using assms(2)
proof (induction its)
  case (Cons it its)
  then have "it_branch it = Branch_tick" "it_flush_ok it"
    using assms(1) by (auto simp: iteration_ok_def write_select_closed)
  with Cons show ?case by (simp add: write_iteration_def)
qed simp

definition closed_tick :: iteration where
  "closed_tick =
     \<lparr>it_recv = Ready None, it_tick = Ready (), it_branch = Branch_tick, it_write_ok = True,
      it_flush_ok = True, it_queue_empty = True\<rparr>"

theorem periodic_write_loop_never_ends_witness:
  "write_loop default_config (replicate 5 closed_tick) =
     (replicate (length (replicate 5 closed_tick)) Flush, True)"
  by (rule periodic_write_loop_never_ends)
    (simp_all add: default_config_def balanced_def flush_interval_of_def closed_tick_def
      iteration_ok_def write_select_closed)

text \<open>The commands forwarded are the results that decoded, in order.\<close>

lemma read_loop_forwards_commands:
  "read_loop results = List.map projr (filter (\<lambda>r. \<not> isl r) results)"
  by (induction results rule: read_loop.induct) auto

end
