(* ===== verification/Client.thy ===== *)
theory Client
  imports Interface Tcp_Adapter
begin

text \<open>
  \<open>lbroker/src/client.rs\<close>: the client's calls and its two tasks. A call of the client is the command it
  puts on the channel to the write task; the results of the socket and of the channels are inputs. A
  panic is a value of \<open>client_error\<close>.
\<close>

section \<open>The client\<close>

text \<open>\<open>cl_rx\<close> is the receiver of messages, which only the first copy of a client has.\<close>

record ('tx, 'rx) client =
  cl_tx :: 'tx
  cl_rx :: "'rx option"
  cl_addr :: rstring

datatype client_error =
    Recv_on_clone | Command_not_sent | Message_not_received
  | Not_connected rstring | Stopped_receiving | Stopped_sending

text \<open>
  \<open>Client::new\<close> panics with the error when it cannot connect. Otherwise it starts the two tasks and
  keeps the other end of each task's channel: the sender of commands, the receiver of messages.
\<close>

definition client_new ::
  "rstring \<Rightarrow> rstring + 'sock \<Rightarrow> 'tx \<Rightarrow> 'rx \<Rightarrow> client_error + ('tx, 'rx) client" where
  "client_new addr resp wtx rx =
     (case resp of
        Inr sock \<Rightarrow> Inr \<lparr>cl_tx = wtx, cl_rx = Some rx, cl_addr = addr\<rparr>
      | Inl e \<Rightarrow> Inl (Not_connected e))"

definition client_clone :: "('tx, 'rx) client \<Rightarrow> ('tx, 'rx) client" where
  "client_clone self = \<lparr>cl_tx = cl_tx self, cl_rx = None, cl_addr = cl_addr self\<rparr>"

text \<open>
  \<open>send_command\<close> panics when the channel is closed. The calls give the commands sent.
\<close>

definition send_command :: "bool \<Rightarrow> 'a command \<Rightarrow> client_error + 'a command" where
  "send_command channel_open cmd = (if channel_open then Inr cmd else Inl Command_not_sent)"

definition client_publish :: "bool \<Rightarrow> rstring \<Rightarrow> 'a \<Rightarrow> client_error + 'a command" where
  "client_publish channel_open topic val =
     send_command channel_open (Publish \<lparr>msg_topic = topic, msg_value = val\<rparr>)"

definition client_subscribe :: "bool \<Rightarrow> rstring \<Rightarrow> client_error + 'a command" where
  "client_subscribe channel_open pattern = send_command channel_open (Subscribe pattern)"

definition client_unsubscribe :: "bool \<Rightarrow> rstring \<Rightarrow> client_error + 'a command" where
  "client_unsubscribe channel_open pattern = send_command channel_open (Unsubscribe pattern)"

text \<open>\<open>recv\<close>: the next message of the receiver (\<open>None\<close> when it is closed), or a panic on a clone.\<close>

definition client_recv ::
  "('rx \<Rightarrow> 'a message option \<times> 'rx) \<Rightarrow> ('tx, 'rx) client \<Rightarrow>
   client_error + 'a message option \<times> ('tx, 'rx) client" where
  "client_recv recv self =
     (case cl_rx self of
        Some rx \<Rightarrow> (let (m, rx) = recv rx in Inr (m, self\<lparr>cl_rx := Some rx\<rparr>))
      | None \<Rightarrow> Inl Recv_on_clone)"

text \<open>
  The read task sends each message it decodes over the channel and panics at the first error; the
  write task writes each command and panics at the first failure. Both give what they passed on.
\<close>

fun client_read_task :: "(io_error + 'a message) list \<Rightarrow> 'a message list \<times> client_error option" where
  "client_read_task [] = ([], None)"
| "client_read_task (Inr message # results) =
     (let (ms, e) = client_read_task results in (message # ms, e))"
| "client_read_task (Inl e # results) = ([], Some Message_not_received)"

fun client_write_task :: "('a command \<times> bool) list \<Rightarrow> 'a command list \<times> client_error option" where
  "client_write_task [] = ([], None)"
| "client_write_task ((cmd, send_ok) # rest) =
     (if send_ok then (let (cmds, e) = client_write_task rest in (cmd # cmds, e))
      else ([], Some Command_not_sent))"

text \<open>
  Only the client that \<open>new\<close> made can receive; a clone, which shares its sender, panics.
\<close>

lemma recv_iff_original:
  assumes "client_new addr (Inr sock) wtx rx = Inr self"
  shows "client_recv recv self = Inr (fst (recv rx), self\<lparr>cl_rx := Some (snd (recv rx))\<rparr>)"
    and "client_recv recv (client_clone self) = Inl Recv_on_clone"
    and "cl_tx (client_clone self) = cl_tx self"
  using assms by (auto simp: client_new_def client_recv_def client_clone_def split: prod.split)

end
