(* ===== verification/Load_Generator.thy ===== *)
theory Load_Generator
  imports Client
begin

text \<open>
  The load generator \<open>test_client\<close> of \<open>lbroker/src/client.rs\<close>: it connects, subscribes to the patterns
  it is given, and then publishes in turn on seven topics while it counts and reports what it receives.
  The results of the client's channels, the clock and the order in which its two tasks end are inputs.
\<close>

section \<open>Its tasks\<close>

definition test_topics :: "rchar list" where
  "test_topics = str ''abcdefg''"

text \<open>Iteration \<open>i\<close> of \<open>test_client_write_loop\<close> publishes on topic \<open>i % topics.len()\<close>.\<close>

definition write_loop_topic :: "rchar list \<Rightarrow> nat \<Rightarrow> rstring" where
  "write_loop_topic topics i = [topics ! (i mod length topics)]"

definition test_client_write_loop :: "'a \<Rightarrow> rchar list \<Rightarrow> nat \<Rightarrow> 'a command list" where
  "test_client_write_loop true topics n =
     List.map (\<lambda>i. Publish \<lparr>msg_topic = write_loop_topic topics i, msg_value = true\<rparr>) [0..<n]"

text \<open>
  The subscriptions come first, one call of the client each; the first that fails is a panic. Gives the
  commands sent.
\<close>

fun subscribe_each :: "(rstring \<times> bool) list \<Rightarrow> 'a command list \<times> client_error option" where
  "subscribe_each [] = ([], None)"
| "subscribe_each ((pattern, channel_open) # rest) =
     (case client_subscribe channel_open pattern of
        Inr cmd \<Rightarrow> (let (cmds, e) = subscribe_each rest in (cmd # cmds, e))
      | Inl e \<Rightarrow> ([], Some e))"

text \<open>
  The read loop counts each message; when five seconds have passed since the last report, it reports
  the count and the rate, and starts again. An input is a message with the time at which it has been
  received; \<open>since now last\<close> is the duration in microseconds, \<open>rate\<close> the division of the count by it.
\<close>

definition report_interval :: nat where
  "report_interval = 5 * 1000000"

fun count_loop ::
  "('i \<Rightarrow> 'i \<Rightarrow> nat) \<Rightarrow> (u64 \<Rightarrow> nat \<Rightarrow> 'f) \<Rightarrow> u64 \<Rightarrow> 'i \<Rightarrow> ('a message \<times> 'i) list \<Rightarrow>
   (u64 \<times> 'f) list \<times> u64" where
  "count_loop since rate msg_count last_report [] = ([], msg_count)"
| "count_loop since rate msg_count last_report ((message, now) # rest) =
     (let msg_count = msg_count + 1 in
      if report_interval \<le> since now last_report
      then (let (reports, n) = count_loop since rate 0 now rest
            in ((msg_count, rate msg_count (since now last_report)) # reports, n))
      else count_loop since rate msg_count last_report rest)"

text \<open>
  \<open>test_client\<close>: a panic without a connection or when a subscription fails; then the write loop (\<open>n\<close>
  iterations of it, each publishing \<open>Value::Boolean(true)\<close>) and the read loop run until one of them
  ends, which is a panic either way. Gives the commands sent, the reports and the panic.
\<close>

datatype task_end = Both_running | Read_task_ended | Write_task_ended

fun select_end :: "task_end \<Rightarrow> client_error option" where
  "select_end Both_running = None"
| "select_end Read_task_ended = Some Stopped_receiving"
| "select_end Write_task_ended = Some Stopped_sending"

definition test_client ::
  "('i \<Rightarrow> 'i \<Rightarrow> nat) \<Rightarrow> (u64 \<Rightarrow> nat \<Rightarrow> 'f) \<Rightarrow> 'a \<Rightarrow> rstring \<Rightarrow> rstring + 'sock \<Rightarrow> 'tx \<Rightarrow> 'rx \<Rightarrow>
   (rstring \<times> bool) list \<Rightarrow> nat \<Rightarrow> 'i \<Rightarrow> ('a message \<times> 'i) list \<Rightarrow> task_end \<Rightarrow>
   'a command list \<times> (u64 \<times> 'f) list \<times> client_error option" where
  "test_client since rate true address resp wtx rx subscriptions n start messages ended =
     (case client_new address resp wtx rx of
        Inl e \<Rightarrow> ([], [], Some e)
      | Inr client \<Rightarrow>
          (case subscribe_each subscriptions of
             (cmds, Some e) \<Rightarrow> (cmds, [], Some e)
           | (cmds, None) \<Rightarrow>
               (cmds @ test_client_write_loop true test_topics n,
                fst (count_loop since rate 0 start messages), select_end ended)))"

text \<open>
  \<open>test_client_read_loop\<close>, over the results of \<open>recv\<close>: the topic and the value of each message go to
  the log, and the end of the messages is a panic.
\<close>

fun test_client_read_loop :: "'a message option list \<Rightarrow> (rstring \<times> 'a) list \<times> client_error option" where
  "test_client_read_loop [] = ([], None)"
| "test_client_read_loop (Some message # results) =
     (let (logged, e) = test_client_read_loop results
      in ((msg_topic message, msg_value message) # logged, e))"
| "test_client_read_loop (None # results) = ([], Some Stopped_receiving)"

section \<open>Properties\<close>

lemma count_cycle:
  assumes "k < n"
  shows "length (filter (\<lambda>i. i mod n = k) [0..<q * n + r]) = q + length (filter (\<lambda>i. i mod n = k) [0..<r])"
proof (induction q)
  case (Suc q)
  have "set (filter (\<lambda>i. i mod n = k) [0..<n]) = {k}" using assms by auto
  then have one: "length (filter (\<lambda>i. i mod n = k) [0..<n]) = 1"
    using distinct_card [of "filter (\<lambda>i. i mod n = k) [0..<n]"] by simp
  have "length (filter (\<lambda>i. i mod n = k) [0..<Suc q * n + r]) =
      length (filter (\<lambda>i. i mod n = k) [0..<n]) + length (filter (\<lambda>i. i mod n = k) [n..<n + (q * n + r)])"
    by (simp add: upt_add_eq_append [of 0 n "q * n + r"] add.assoc)
  also have "[n..<n + (q * n + r)] = List.map (\<lambda>i. i + n) [0..<q * n + r]"
    by (simp add: map_add_upt add.commute)
  finally show ?case using Suc one by (simp add: filter_map comp_def)
qed simp

lemma count_topic:
  assumes "distinct topics" and "k < length topics"
  shows "count_list (List.map (write_loop_topic topics) [0..<n]) [topics ! k] =
    length (filter (\<lambda>i. i mod length topics = k) [0..<n])"
proof -
  have eq: "write_loop_topic topics i = [topics ! k] \<longleftrightarrow> i mod length topics = k" for i
  proof -
    have "i mod length topics < length topics" using assms(2) by (intro mod_less_divisor) linarith
    from nth_eq_iff_index_eq [OF assms(1) this assms(2)] show ?thesis by (simp add: write_loop_topic_def)
  qed
  show ?thesis by (induction n) (simp_all add: eq)
qed

text \<open>
  A test client spreads its load evenly: after any number of publications the counts of its seven
  topics differ by at most one, and after a multiple of seven they are equal.
\<close>
theorem test_load_even:
  assumes "c \<in> set test_topics"
  shows "count_list (List.map (write_loop_topic test_topics) [0..<n]) [c] \<in> {n div 7, n div 7 + 1} \<and>
    count_list (List.map (write_loop_topic test_topics) [0..<7 * q]) [c] = q"
proof -
  have l: "length test_topics = 7" "distinct test_topics" by (simp_all add: test_topics_def str_def)
  obtain k where k: "k < 7" "c = test_topics ! k" using assms l(1) by (auto simp: in_set_conv_nth)
  note ct = count_topic [OF l(2), of k, unfolded l(1), OF k(1), folded k(2)]
  have le: "length (filter (\<lambda>i. i mod 7 = k) [0..<r]) \<le> 1" if "r < 7" for r :: nat
  proof -
    have "length (filter (\<lambda>i. i mod 7 = k) [0..<r]) \<le> length (filter (\<lambda>i. i mod 7 = k) [0..<r + (7 - r)])"
      by (simp only: upt_add_eq_append [OF le0] filter_append length_append)
    also have "\<dots> = 1" using that count_cycle [OF k(1), of 1 0] by simp
    finally show ?thesis .
  qed
  have "count_list (List.map (write_loop_topic test_topics) [0..<n]) [c] =
      n div 7 + length (filter (\<lambda>i. i mod 7 = k) [0..<n mod 7])"
    using count_cycle [OF k(1), of "n div 7" "n mod 7"] ct [of n] by (simp add: mult.commute)
  moreover have "length (filter (\<lambda>i. i mod 7 = k) [0..<n mod 7]) \<le> 1" by (rule le) simp
  moreover have "count_list (List.map (write_loop_topic test_topics) [0..<7 * q]) [c] = q"
    using count_cycle [OF k(1), of q 0] ct [of "7 * q"] by (simp add: mult.commute)
  ultimately show ?thesis
    by (cases "length (filter (\<lambda>i. i mod 7 = k) [0..<n mod 7])") simp_all
qed

theorem test_load_even_witness:
  "count_list (List.map (write_loop_topic test_topics) [0..<10]) [Chr 98] \<in> {10 div 7, 10 div 7 + 1} \<and>
   count_list (List.map (write_loop_topic test_topics) [0..<7 * 3]) [Chr 98] = 3"
  by (rule test_load_even) (simp add: test_topics_def str_def)

lemma subscribe_each_sends:
  fixes cmds :: "'a command list"
  assumes "subscribe_each ps = (cmds, e)"
  shows "\<exists>k\<le>length ps. cmds = List.map Subscribe (List.map fst (take k ps)) \<and> (e = None \<longrightarrow> k = length ps)"
  using assms
proof (induction ps arbitrary: cmds e)
  case (Cons pok rest)
  obtain p ok where pok: "pok = (p, ok)" by fastforce
  obtain cs e' where r: "subscribe_each rest = (cs :: 'a command list, e')" by fastforce
  show ?case
  proof (cases ok)
    case True
    then have eq: "cmds = Subscribe p # cs" "e = e'"
      using Cons.prems r by (auto simp: pok client_subscribe_def send_command_def)
    from Cons.IH r obtain k where "k \<le> length rest" "cs = List.map Subscribe (List.map fst (take k rest))"
      "e' = None \<longrightarrow> k = length rest" by metis
    then show ?thesis by (intro exI [of _ "Suc k"]) (simp add: eq pok)
  next
    case False
    then show ?thesis using Cons.prems by (intro exI [of _ 0]) (auto simp: pok client_subscribe_def send_command_def)
  qed
qed simp

text \<open>
  The load generator's reports account for every message: the counts it reported and the count since
  the t0 report add up to the number of messages received, as long as that is below \<open>2 ^ 64\<close>.
\<close>
theorem reports_account_for_all:
  assumes "unat n0 + length ms < 2 ^ 64" and "count_loop since rate n0 t0 ms = (reports, n)"
  shows "(\<Sum>r\<leftarrow>reports. unat (fst r)) + unat n = unat n0 + length ms"
  using assms
proof (induction since rate n0 t0 ms arbitrary: reports n rule: count_loop.induct)
  case (2 since rate k t0 message now rest)
  have k: "unat (k + 1) = unat k + 1" using 2(3) by (intro unat_u64_Suc) simp
  show ?case
  proof (cases "report_interval \<le> since now t0")
    case True
    obtain rs m where r: "count_loop since rate 0 now rest = (rs, m)" by fastforce
    with 2(1) [OF refl True] 2(3) have "(\<Sum>r\<leftarrow>rs. unat (fst r)) + unat m = length rest" by simp
    moreover have "reports = (k + 1, rate (k + 1) (since now t0)) # rs" "n = m"
      using 2(4) True r by (simp_all add: Let_def)
    ultimately show ?thesis by (simp add: k)
  next
    case False
    then have "count_loop since rate (k + 1) t0 rest = (reports, n)" using 2(4) by (simp add: Let_def)
    with 2(2) [OF refl False] 2(3) k show ?thesis by simp
  qed
qed simp

theorem reports_account_for_all_witness:
  "(\<Sum>r\<leftarrow>[(2 :: u64, 3 :: nat)]. unat (fst r)) + unat (1 :: u64) =
     unat (0 :: u64) + length (List.map (Pair \<lparr>msg_topic = str ''a'', msg_value = True\<rparr>) [1, 6000000, 7000000 :: nat])"
  by (rule reports_account_for_all [where since = "\<lambda>a b. a - b" and rate = "\<lambda>_ _. 3" and ?t0.0 = 0])
    (simp_all add: report_interval_def Let_def)

text \<open>
  What a load generator sends: a prefix of its subscriptions, in order; all of them, then the first \<open>n\<close>
  publications of the write loop, unless it panicked before the loops started.
\<close>
theorem test_client_sends:
  fixes cmds :: "'a command list"
  assumes "test_client since rate true address resp wtx rx subs n start ms ended = (cmds, reports, e)"
  shows "(\<exists>k\<le>length subs. cmds = List.map Subscribe (List.map fst (take k subs)) \<and> e \<noteq> None \<and> reports = []) \<or>
    cmds = List.map Subscribe (List.map fst subs) @ test_client_write_loop true test_topics n \<and>
      e = select_end ended"
proof (cases "client_new address resp wtx rx")
  case (Inl p)
  with assms show ?thesis by (intro disjI1 exI [of _ 0]) (auto simp: test_client_def)
next
  case (Inr client)
  obtain cs p where s: "subscribe_each subs = (cs :: 'a command list, p)" by fastforce
  obtain k where "k \<le> length subs" "cs = List.map Subscribe (List.map fst (take k subs))"
    "p = None \<longrightarrow> k = length subs"
    using subscribe_each_sends [OF s] by blast
  then show ?thesis using assms by (cases p) (auto simp: test_client_def Inr s)
qed

theorem test_client_sends_witness:
  "(\<exists>k\<le>length [(str ''a'', True)].
      [Subscribe (str ''a''), Publish \<lparr>msg_topic = str ''a'', msg_value = True\<rparr>] =
        List.map Subscribe (List.map fst (take k [(str ''a'', True)])) \<and>
      Some Stopped_receiving \<noteq> None \<and> [] = ([] :: (u64 \<times> nat) list)) \<or>
   [Subscribe (str ''a''), Publish \<lparr>msg_topic = str ''a'', msg_value = True\<rparr>] =
     List.map Subscribe (List.map fst [(str ''a'', True)]) @ test_client_write_loop True test_topics 1 \<and>
   Some Stopped_receiving = select_end Read_task_ended"
  by (rule test_client_sends [where since = "\<lambda>(a :: nat) b. a - b" and rate = "\<lambda>_ _. 3" and address = "[]" and
        resp = "Inr ()" and wtx = "()" and rx = "()" and start = 0 and ms = "[]"])
    (simp add: test_client_def client_new_def client_subscribe_def send_command_def test_client_write_loop_def
      write_loop_topic_def test_topics_def str_def)

end
