(* ===== verification/Runtime.thy ===== *)
theory Runtime
  imports Buffer_Config "HOL-Library.AList"
begin

text \<open>
  The libraries under the server, as parameters: a concurrent map (\<open>dashmap::DashMap\<close>), broadcast
  channels (\<open>tokio::sync::broadcast\<close>) and the map of streams a connection polls
  (\<open>tokio_stream::StreamMap\<close>). A record holds the operations the server calls; a predicate states
  what their documentation promises, as far as the server relies on it. Nothing here is a model of
  those libraries: theorems about the server assume the predicates, and the last section gives one
  concrete instance of each, for the witnesses.
  Handles (senders and receivers) are an opaque type \<open>'h\<close>, the state of the channels behind them an
  opaque type \<open>'w\<close> that every call takes and returns.
\<close>

section \<open>Concurrent map\<close>

text \<open>
  The map is split into shards, each with its own lock, by a hash of the key (\<open>dm_shard\<close>); an iteration
  goes through the shards in order and locks one at a time, so \<open>dm_keys\<close>, what it yields when nobody
  else uses the map, lists the keys shard by shard.
\<close>

record ('m, 'v) dashmap =
  dm_new :: 'm
  dm_contains_key :: "'m \<Rightarrow> rstring \<Rightarrow> bool"
  dm_get :: "'m \<Rightarrow> rstring \<Rightarrow> 'v option"
  dm_insert :: "'m \<Rightarrow> rstring \<Rightarrow> 'v \<Rightarrow> 'm"
  dm_keys :: "'m \<Rightarrow> rstring list"
  dm_shards :: nat
  dm_shard :: "rstring \<Rightarrow> nat"

definition dashmap_laws :: "('m, 'v) dashmap \<Rightarrow> bool" where
  "dashmap_laws D \<longleftrightarrow>
     (\<forall>k. dm_get D (dm_new D) k = None) \<and>
     (\<forall>m k. dm_contains_key D m k \<longleftrightarrow> dm_get D m k \<noteq> None) \<and>
     (\<forall>m k v k'. dm_get D (dm_insert D m k v) k' = (if k' = k then Some v else dm_get D m k')) \<and>
     (\<forall>m k. k \<in> set (dm_keys D m) \<longleftrightarrow> dm_get D m k \<noteq> None) \<and>
     (\<forall>m. distinct (dm_keys D m)) \<and>
     (\<forall>m. concat (List.map (\<lambda>n. filter (\<lambda>k. dm_shard D k = n) (dm_keys D m)) [0..<dm_shards D]) =
        dm_keys D m)"

lemma dashmap_lawsD:
  assumes "dashmap_laws D"
  shows "dm_get D (dm_new D) k = None"
    and "dm_contains_key D m k \<longleftrightarrow> dm_get D m k \<noteq> None"
    and "dm_get D (dm_insert D m k v) k' = (if k' = k then Some v else dm_get D m k')"
    and "k \<in> set (dm_keys D m) \<longleftrightarrow> dm_get D m k \<noteq> None"
    and "distinct (dm_keys D m)"
    and "concat (List.map (\<lambda>n. filter (\<lambda>k. dm_shard D k = n) (dm_keys D m)) [0..<dm_shards D]) = dm_keys D m"
  using assms unfolding dashmap_laws_def by blast+

section \<open>Broadcast channels\<close>

text \<open>
  \<open>bc_channel\<close> makes a channel of a capacity and keeps its sender (the server drops the first
  receiver at once), \<open>bc_subscribe\<close> makes a receiver, \<open>bc_send\<close> says whether there was a receiver,
  \<open>bc_recv\<close> polls a receiver.
\<close>

datatype 'a recv_result = Received 'a | Lagged u64 | Not_ready

record ('w, 'h, 'a) broadcast =
  bc_channel :: "nat \<Rightarrow> 'w \<Rightarrow> 'h \<times> 'w"
  bc_subscribe :: "'h \<Rightarrow> 'w \<Rightarrow> 'h \<times> 'w"
  bc_send :: "'h \<Rightarrow> 'a \<Rightarrow> 'w \<Rightarrow> bool \<times> 'w"
  bc_recv :: "'h \<Rightarrow> 'w \<Rightarrow> 'a recv_result \<times> 'w"

text \<open>
  What can be observed of the channels' state: the capacity of each sender's channel, the sender a
  receiver listens to, the values a receiver has yet to receive, oldest first, and whether it is to be
  told that it lost values.
\<close>

record ('w, 'h, 'a) view =
  capacity :: "'w \<Rightarrow> 'h \<Rightarrow> nat option"
  listens :: "'w \<Rightarrow> 'h \<Rightarrow> 'h option"
  pending :: "'w \<Rightarrow> 'h \<Rightarrow> 'a list"
  lagging :: "'w \<Rightarrow> 'h \<Rightarrow> bool"

text \<open>
  The documented behaviour: a new channel's sender is fresh and has no receivers; a new receiver is
  fresh and receives what is sent from then on; a send appends the value for every receiver of the
  channel and for no other, and a receiver that is at capacity may lose its oldest values, which it is
  then to be told of; a receive yields the oldest value, or reports a lag, once for values lost, or
  reports that there is nothing.
\<close>

definition channel_law :: "('w, 'h, 'a) broadcast \<Rightarrow> ('w, 'h, 'a) view \<Rightarrow> bool" where
  "channel_law B V \<longleftrightarrow>
     (\<forall>cap w tx w'. bc_channel B cap w = (tx, w') \<longrightarrow>
        capacity V w tx = None \<and> capacity V w' = (capacity V w)(tx \<mapsto> cap) \<and>
        (\<forall>rx. listens V w rx \<noteq> Some tx) \<and> listens V w' = listens V w \<and> pending V w' = pending V w \<and>
        lagging V w' = lagging V w)"

definition subscribe_law :: "('w, 'h, 'a) broadcast \<Rightarrow> ('w, 'h, 'a) view \<Rightarrow> bool" where
  "subscribe_law B V \<longleftrightarrow>
     (\<forall>tx w rx w'. bc_subscribe B tx w = (rx, w') \<longrightarrow>
        capacity V w' = capacity V w \<and> listens V w rx = None \<and>
        listens V w' = (listens V w)(rx \<mapsto> tx) \<and> pending V w' = (pending V w)(rx := []) \<and>
        lagging V w' = (lagging V w)(rx := False))"

definition send_law :: "('w, 'h, 'a) broadcast \<Rightarrow> ('w, 'h, 'a) view \<Rightarrow> bool" where
  "send_law B V \<longleftrightarrow>
     (\<forall>tx x w ok w'. bc_send B tx x w = (ok, w') \<longrightarrow>
        capacity V w' = capacity V w \<and> listens V w' = listens V w \<and>
        (\<forall>rx. listens V w rx \<noteq> Some tx \<longrightarrow>
           pending V w' rx = pending V w rx \<and> lagging V w' rx = lagging V w rx) \<and>
        (\<forall>rx. listens V w rx = Some tx \<longrightarrow> suffix (pending V w' rx) (pending V w rx @ [x])) \<and>
        (\<forall>rx cap. listens V w rx = Some tx \<longrightarrow> capacity V w tx = Some cap \<longrightarrow>
           length (pending V w rx) < cap \<longrightarrow>
           pending V w' rx = pending V w rx @ [x] \<and> lagging V w' rx = lagging V w rx))"

definition recv_law :: "('w, 'h, 'a) broadcast \<Rightarrow> ('w, 'h, 'a) view \<Rightarrow> bool" where
  "recv_law B V \<longleftrightarrow>
     (\<forall>rx w r w'. bc_recv B rx w = (r, w') \<longrightarrow>
        capacity V w' = capacity V w \<and> listens V w' = listens V w \<and>
        (\<forall>rx'. rx' \<noteq> rx \<longrightarrow>
           pending V w' rx' = pending V w rx' \<and> lagging V w' rx' = lagging V w rx') \<and>
        pending V w rx = (case r of Received x \<Rightarrow> [x] | _ \<Rightarrow> []) @ pending V w' rx \<and>
        (r = Not_ready \<longrightarrow> pending V w rx = []) \<and>
        (lagging V w' rx \<longrightarrow> lagging V w rx) \<and>
        (\<forall>n. r = Lagged n \<longrightarrow> lagging V w rx \<and> \<not> lagging V w' rx))"

definition broadcast_laws :: "('w, 'h, 'a) broadcast \<Rightarrow> ('w, 'h, 'a) view \<Rightarrow> bool" where
  "broadcast_laws B V \<longleftrightarrow>
     channel_law B V \<and> subscribe_law B V \<and> send_law B V \<and> recv_law B V"

lemma channelD:
  assumes "broadcast_laws B V" and "bc_channel B cap w = (tx, w')"
  shows "capacity V w tx = None" "capacity V w' = (capacity V w)(tx \<mapsto> cap)"
    "listens V w rx \<noteq> Some tx" "listens V w' = listens V w" "pending V w' = pending V w"
    "lagging V w' = lagging V w"
  using assms unfolding broadcast_laws_def channel_law_def by blast+

lemma subscribeD:
  assumes "broadcast_laws B V" and "bc_subscribe B tx w = (rx, w')"
  shows "capacity V w' = capacity V w" "listens V w rx = None"
    "listens V w' = (listens V w)(rx \<mapsto> tx)" "pending V w' = (pending V w)(rx := [])"
    "lagging V w' = (lagging V w)(rx := False)"
  using assms unfolding broadcast_laws_def subscribe_law_def by blast+

lemma sendD:
  assumes "broadcast_laws B V" and "bc_send B tx x w = (ok, w')"
  shows "capacity V w' = capacity V w" "listens V w' = listens V w"
    "listens V w rx \<noteq> Some tx \<Longrightarrow> pending V w' rx = pending V w rx"
    "listens V w rx = Some tx \<Longrightarrow> suffix (pending V w' rx) (pending V w rx @ [x])"
    "listens V w rx = Some tx \<Longrightarrow> capacity V w tx = Some cap \<Longrightarrow>
       length (pending V w rx) < cap \<Longrightarrow> pending V w' rx = pending V w rx @ [x]"
    "listens V w rx \<noteq> Some tx \<Longrightarrow> lagging V w' rx = lagging V w rx"
    "listens V w rx = Some tx \<Longrightarrow> capacity V w tx = Some cap \<Longrightarrow>
       length (pending V w rx) < cap \<Longrightarrow> lagging V w' rx = lagging V w rx"
  using assms unfolding broadcast_laws_def send_law_def by blast+

lemma recvD:
  assumes "broadcast_laws B V" and "bc_recv B rx w = (r, w')"
  shows "capacity V w' = capacity V w" "listens V w' = listens V w"
    "rx' \<noteq> rx \<Longrightarrow> pending V w' rx' = pending V w rx'"
    "pending V w rx = (case r of Received x \<Rightarrow> [x] | _ \<Rightarrow> []) @ pending V w' rx"
    "r = Not_ready \<Longrightarrow> pending V w rx = []"
    "lagging V w' rx \<Longrightarrow> lagging V w rx"
    "r = Lagged n \<Longrightarrow> lagging V w rx" "r = Lagged n \<Longrightarrow> \<not> lagging V w' rx"
    "rx' \<noteq> rx \<Longrightarrow> lagging V w' rx' = lagging V w rx'"
  using assms unfolding broadcast_laws_def recv_law_def by blast+

section \<open>Map of streams\<close>

text \<open>\<open>StreamMap\<close>: streams by topic. \<open>sm_get\<close> is the stream a topic's key is mapped to.\<close>

record ('s, 'h) streammap =
  sm_new :: 's
  sm_contains_key :: "'s \<Rightarrow> rstring \<Rightarrow> bool"
  sm_insert :: "'s \<Rightarrow> rstring \<Rightarrow> 'h \<Rightarrow> 's"
  sm_remove :: "'s \<Rightarrow> rstring \<Rightarrow> 's"
  sm_keys :: "'s \<Rightarrow> rstring list"
  sm_get :: "'s \<Rightarrow> rstring \<Rightarrow> 'h option"

definition streammap_laws :: "('s, 'h) streammap \<Rightarrow> bool" where
  "streammap_laws S \<longleftrightarrow>
     (\<forall>k. sm_get S (sm_new S) k = None) \<and>
     (\<forall>m k. sm_contains_key S m k \<longleftrightarrow> sm_get S m k \<noteq> None) \<and>
     (\<forall>m k v k'. sm_get S (sm_insert S m k v) k' = (if k' = k then Some v else sm_get S m k')) \<and>
     (\<forall>m k k'. sm_get S (sm_remove S m k) k' = (if k' = k then None else sm_get S m k')) \<and>
     (\<forall>m k. k \<in> set (sm_keys S m) \<longleftrightarrow> sm_get S m k \<noteq> None) \<and>
     (\<forall>m. distinct (sm_keys S m))"

lemma streammap_lawsD:
  assumes "streammap_laws S"
  shows "sm_get S (sm_new S) k = None"
    and "sm_contains_key S m k \<longleftrightarrow> sm_get S m k \<noteq> None"
    and "sm_get S (sm_insert S m k v) k' = (if k' = k then Some v else sm_get S m k')"
    and "sm_get S (sm_remove S m k) k' = (if k' = k then None else sm_get S m k')"
    and "k \<in> set (sm_keys S m) \<longleftrightarrow> sm_get S m k \<noteq> None"
    and "distinct (sm_keys S m)"
  using assms unfolding streammap_laws_def by blast+

section \<open>One instance of each\<close>

definition list_dashmap :: "((rstring \<times> 'v) list, 'v) dashmap" where
  "list_dashmap =
     \<lparr>dm_new = [], dm_contains_key = (\<lambda>m k. map_of m k \<noteq> None), dm_get = map_of,
      dm_insert = (\<lambda>m k v. AList.update k v m), dm_keys = (\<lambda>m. remdups (List.map fst m)),
      dm_shards = 2, dm_shard = (\<lambda>_. 1)\<rparr>"

definition list_streammap :: "((rstring \<times> 'h) list, 'h) streammap" where
  "list_streammap =
     \<lparr>sm_new = [], sm_contains_key = (\<lambda>m k. map_of m k \<noteq> None),
      sm_insert = (\<lambda>m k v. AList.update k v m), sm_remove = (\<lambda>m k. AList.delete k m),
      sm_keys = (\<lambda>m. remdups (List.map fst m)), sm_get = map_of\<rparr>"

lemma list_dashmap_laws: "dashmap_laws list_dashmap"
  by (auto simp: dashmap_laws_def list_dashmap_def update_conv map_of_eq_None_iff numeral_2_eq_2)

lemma list_streammap_laws: "streammap_laws list_streammap"
  by (auto simp: streammap_laws_def list_streammap_def update_conv delete_conv map_of_eq_None_iff)

text \<open>
  Channels with numbered handles: the capacity of each sender, and each receiver with its sender and
  its queue. A new handle is above all those in use; a full queue drops its oldest value.
\<close>

record 'a chans =
  senders :: "(nat \<times> nat) list"
  receivers :: "(nat \<times> nat \<times> 'a list) list"

definition chans_new :: "'a chans" where
  "chans_new = \<lparr>senders = [], receivers = []\<rparr>"

definition fresh_handle :: "'a chans \<Rightarrow> nat" where
  "fresh_handle w =
     Suc (sum_list (List.map fst (senders w) @ List.map fst (receivers w) @
       List.map (\<lambda>r. fst (snd r)) (receivers w)))"

definition push_bounded :: "nat option \<Rightarrow> 'a \<Rightarrow> 'a list \<Rightarrow> 'a list" where
  "push_bounded cap x q =
     (case cap of
        Some n \<Rightarrow> if length q < n then q @ [x] else tl q @ [x]
      | None \<Rightarrow> q @ [x])"

definition list_broadcast :: "('a chans, nat, 'a) broadcast" where
  "list_broadcast =
     \<lparr>bc_channel = (\<lambda>cap w.
        (fresh_handle w, w\<lparr>senders := (fresh_handle w, cap) # senders w\<rparr>)),
      bc_subscribe = (\<lambda>tx w.
        (fresh_handle w, w\<lparr>receivers := (fresh_handle w, tx, []) # receivers w\<rparr>)),
      bc_send = (\<lambda>tx x w.
        (list_ex (\<lambda>r. fst (snd r) = tx) (receivers w),
         w\<lparr>receivers := List.map (\<lambda>r. (fst r, fst (snd r),
            if fst (snd r) = tx then push_bounded (map_of (senders w) tx) x (snd (snd r))
            else snd (snd r))) (receivers w)\<rparr>)),
      bc_recv = (\<lambda>rx w.
        case map_of (receivers w) rx of
          Some (tx, x # q) \<Rightarrow> (Received x, w\<lparr>receivers := AList.update rx (tx, q) (receivers w)\<rparr>)
        | _ \<Rightarrow> (Not_ready, w))\<rparr>"

definition list_view :: "('a chans, nat, 'a) view" where
  "list_view =
     \<lparr>capacity = (\<lambda>w. map_of (senders w)),
      listens = (\<lambda>w rx. map_option fst (map_of (receivers w) rx)),
      pending = (\<lambda>w rx. case map_of (receivers w) rx of None \<Rightarrow> [] | Some r \<Rightarrow> snd r),
      lagging = (\<lambda>w rx. False)\<rparr>"

lemma fresh_handle_fresh:
  "map_of (senders w) (fresh_handle w) = None"
  "map_of (receivers w) (fresh_handle w) = None"
  "map_of (receivers w) rx \<noteq> Some (fresh_handle w, q)"
proof -
  have "x < fresh_handle w"
    if "x \<in> set (List.map fst (senders w) @ List.map fst (receivers w) @
      List.map (\<lambda>r. fst (snd r)) (receivers w))" for x
    unfolding fresh_handle_def using member_le_sum_list [OF that] by linarith
  then show "map_of (senders w) (fresh_handle w) = None" "map_of (receivers w) (fresh_handle w) = None"
    "map_of (receivers w) rx \<noteq> Some (fresh_handle w, q)"
    by (force simp: map_of_eq_None_iff dest: map_of_SomeD)+
qed

lemma map_of_map_receivers:
  "map_of (List.map (\<lambda>r. (fst r, g r)) rs) rx = map_option (\<lambda>v. g (rx, v)) (map_of rs rx)"
  by (induction rs) auto

lemma list_channel_law: "channel_law list_broadcast list_view"
  using fresh_handle_fresh by (fastforce simp: channel_law_def list_broadcast_def list_view_def)

lemma list_subscribe_law: "subscribe_law list_broadcast list_view"
  by (auto simp: subscribe_law_def list_broadcast_def list_view_def fresh_handle_fresh)

lemma suffix_push_bounded: "suffix (push_bounded cap x q) (q @ [x])"
  by (cases q) (auto simp: push_bounded_def suffix_def split: option.splits)

lemma push_bounded_room: "length q < n \<Longrightarrow> push_bounded (Some n) x q = q @ [x]"
  by (simp add: push_bounded_def)

lemma list_send_view:
  assumes "bc_send list_broadcast tx x w = (ok, w')"
  shows "capacity list_view w' = capacity list_view w"
    and "listens list_view w' rx = listens list_view w rx"
    and "pending list_view w' rx =
      (if listens list_view w rx = Some tx
       then push_bounded (capacity list_view w tx) x (pending list_view w rx)
       else pending list_view w rx)"
  using assms
  by (auto simp: list_broadcast_def list_view_def map_of_map_receivers option.map_comp comp_def
      split: option.split)

lemma list_send_law: "send_law list_broadcast list_view"
  unfolding send_law_def
proof (intro allI impI conjI)
  fix tx x w ok w'
  assume send: "bc_send list_broadcast tx x w = (ok, w')"
  note v = list_send_view [OF send]
  show "capacity list_view w' = capacity list_view w" by (rule v(1))
  show "listens list_view w' = listens list_view w" by (rule ext) (rule v(2))
  fix rx
  show "pending list_view w' rx = pending list_view w rx" if "listens list_view w rx \<noteq> Some tx"
    using that by (simp add: v(3))
  show "lagging list_view w' rx = lagging list_view w rx" "lagging list_view w' rx = lagging list_view w rx"
    by (simp_all add: list_view_def)
  show "suffix (pending list_view w' rx) (pending list_view w rx @ [x])"
    if "listens list_view w rx = Some tx"
    by (simp only: v(3) that if_True refl suffix_push_bounded)
  show "pending list_view w' rx = pending list_view w rx @ [x]"
    if "listens list_view w rx = Some tx" "capacity list_view w tx = Some cap"
      "length (pending list_view w rx) < cap" for cap
    using that by (simp add: v(3) push_bounded_room)
qed

lemma list_recv_law: "recv_law list_broadcast list_view"
  by (auto simp: recv_law_def list_broadcast_def list_view_def update_conv' fun_eq_iff
      split: option.splits list.splits)

lemma list_broadcast_laws: "broadcast_laws list_broadcast list_view"
  by (simp add: broadcast_laws_def list_channel_law list_subscribe_law list_send_law list_recv_law)

end
