(* ===== verification/Bus.thy ===== *)
theory Bus
  imports Runtime
begin

text \<open>
  \<open>TopicEvent\<close>, \<open>TopicData\<close> and \<open>Bus\<close> of \<open>lbroker/src/server.rs\<close>: the topics, the last message of
  each, and the channels that carry messages and topic events. All connections share one bus (it
  holds an \<open>Arc\<close> to the map and a channel), so there is one bus value, passed along; with it go the
  states of the message channels and of the event channel. Each operation here is one call of the
  code run to its end; the map's and the channels' calls are those of \<open>runtime\<close>.
\<close>

section \<open>State\<close>

datatype topic_event = Created rstring

record 'h topic_data =
  sender :: 'h
  last_message :: "bytes option"

record ('m, 'w, 'v, 's, 'h) runtime =
  rt_topics :: "('m, 'h topic_data) dashmap"
  rt_messages :: "('w, 'h, bytes) broadcast"
  rt_events :: "('v, 'h, topic_event) broadcast"
  rt_streams :: "('s, 'h) streammap"

record ('m, 'w, 'v, 'h) bus =
  topics :: 'm
  topic_events_tx :: 'h
  message_channels :: 'w
  event_channels :: 'v

section \<open>\<open>TopicData\<close>\<close>

definition topic_data_new ::
  "('m, 'w, 'v, 's, 'h) runtime \<Rightarrow> 'w \<Rightarrow> 'h topic_data \<times> 'w" where
  "topic_data_new R w =
     (let (tx, w) = bc_channel (rt_messages R) CHANNEL_BUFFER_SIZE w
      in (\<lparr>sender = tx, last_message = None\<rparr>, w))"

definition set_last_message :: "bytes \<Rightarrow> 'h topic_data \<Rightarrow> 'h topic_data" where
  "set_last_message message self = self\<lparr>last_message := Some message\<rparr>"

definition get_last_message :: "'h topic_data \<Rightarrow> bytes option" where
  "get_last_message self = last_message self"

section \<open>\<open>Bus\<close>\<close>

definition bus_new ::
  "('m, 'w, 'v, 's, 'h) runtime \<Rightarrow> 'w \<Rightarrow> 'v \<Rightarrow> ('m, 'w, 'v, 'h) bus" where
  "bus_new R w v =
     (let (tx, v) = bc_channel (rt_events R) CHANNEL_BUFFER_SIZE v
      in \<lparr>topics = dm_new (rt_topics R), topic_events_tx = tx,
          message_channels = w, event_channels = v\<rparr>)"

definition subscribe_to_topic_events ::
  "('m, 'w, 'v, 's, 'h) runtime \<Rightarrow> ('m, 'w, 'v, 'h) bus \<Rightarrow> 'h \<times> ('m, 'w, 'v, 'h) bus" where
  "subscribe_to_topic_events R self =
     (let (rx, v) = bc_subscribe (rt_events R) (topic_events_tx self) (event_channels self)
      in (rx, self\<lparr>event_channels := v\<rparr>))"

text \<open>\<open>entry(topic).or_insert_with(TopicData::new)\<close>: the closure runs only when the topic is absent.\<close>

definition entry_or_insert_new ::
  "('m, 'w, 'v, 's, 'h) runtime \<Rightarrow> rstring \<Rightarrow> ('m, 'w, 'v, 'h) bus \<Rightarrow> ('m, 'w, 'v, 'h) bus" where
  "entry_or_insert_new R topic_name self =
     (case dm_get (rt_topics R) (topics self) topic_name of
        Some _ \<Rightarrow> self
      | None \<Rightarrow>
          (let (td, w) = topic_data_new R (message_channels self)
           in self\<lparr>topics := dm_insert (rt_topics R) (topics self) topic_name td,
                message_channels := w\<rparr>))"

definition announce_topic ::
  "('m, 'w, 'v, 's, 'h) runtime \<Rightarrow> rstring \<Rightarrow> ('m, 'w, 'v, 'h) bus \<Rightarrow> ('m, 'w, 'v, 'h) bus" where
  "announce_topic R topic_name self =
     (let (ok, v) = bc_send (rt_events R) (topic_events_tx self) (Created topic_name)
        (event_channels self)
      in self\<lparr>event_channels := v\<rparr>)"

definition create_topic ::
  "('m, 'w, 'v, 's, 'h) runtime \<Rightarrow> rstring \<Rightarrow> ('m, 'w, 'v, 'h) bus \<Rightarrow> bool \<times> ('m, 'w, 'v, 'h) bus" where
  "create_topic R topic_name self =
     (if dm_contains_key (rt_topics R) (topics self) topic_name then (False, self)
      else (True, announce_topic R topic_name (entry_or_insert_new R topic_name self)))"

datatype bus_error = Topic_not_found

text \<open>Storing the last message and broadcasting, under the map's guard on the topic's entry.\<close>

definition store_and_send ::
  "('m, 'w, 'v, 's, 'h) runtime \<Rightarrow> rstring \<Rightarrow> bytes \<Rightarrow> ('m, 'w, 'v, 'h) bus \<Rightarrow>
   (bus_error + unit) \<times> ('m, 'w, 'v, 'h) bus" where
  "store_and_send R topic_name message self =
     (case dm_get (rt_topics R) (topics self) topic_name of
        None \<Rightarrow> (Inl Topic_not_found, self)
      | Some topic_data \<Rightarrow>
          (let topic_data = set_last_message message topic_data;
               (ok, w) = bc_send (rt_messages R) (sender topic_data) message (message_channels self)
           in (Inr (), self\<lparr>topics := dm_insert (rt_topics R) (topics self) topic_name topic_data,
                 message_channels := w\<rparr>)))"

definition bus_send ::
  "('m, 'w, 'v, 's, 'h) runtime \<Rightarrow> rstring \<Rightarrow> bytes \<Rightarrow> ('m, 'w, 'v, 'h) bus \<Rightarrow>
   (bus_error + unit) \<times> ('m, 'w, 'v, 'h) bus" where
  "bus_send R topic_name message self =
     (let self = (if \<not> dm_contains_key (rt_topics R) (topics self) topic_name
                  then snd (create_topic R topic_name self) else self)
      in store_and_send R topic_name message self)"

definition subscribe_to_topic ::
  "('m, 'w, 'v, 's, 'h) runtime \<Rightarrow> rstring \<Rightarrow> ('m, 'w, 'v, 'h) bus \<Rightarrow>
   ('h \<times> bytes option) option \<times> ('m, 'w, 'v, 'h) bus" where
  "subscribe_to_topic R topic_name self =
     (case dm_get (rt_topics R) (topics self) topic_name of
        None \<Rightarrow> (None, self)
      | Some topic_data \<Rightarrow>
          (let (receiver, w) = bc_subscribe (rt_messages R) (sender topic_data) (message_channels self);
               last_msg = get_last_message topic_data
           in (Some (receiver, last_msg), self\<lparr>message_channels := w\<rparr>)))"

definition list_topics ::
  "('m, 'w, 'v, 's, 'h) runtime \<Rightarrow> ('m, 'w, 'v, 'h) bus \<Rightarrow> rstring list" where
  "list_topics R self = dm_keys (rt_topics R) (topics self)"

text \<open>The part of the list that the iteration reads under the lock of one shard of the map.\<close>

definition list_shard ::
  "('m, 'w, 'v, 's, 'h) runtime \<Rightarrow> nat \<Rightarrow> ('m, 'w, 'v, 'h) bus \<Rightarrow> rstring list" where
  "list_shard R n self =
     filter (\<lambda>k. dm_shard (rt_topics R) k = n) (dm_keys (rt_topics R) (topics self))"

section \<open>Observations, and what the bus relies on\<close>

record ('w, 'v, 'h) views =
  msg_view :: "('w, 'h, bytes) view"
  ev_view :: "('v, 'h, topic_event) view"

definition runtime_laws :: "('m, 'w, 'v, 's, 'h) runtime \<Rightarrow> ('w, 'v, 'h) views \<Rightarrow> bool" where
  "runtime_laws R V \<longleftrightarrow>
     dashmap_laws (rt_topics R) \<and> streammap_laws (rt_streams R) \<and>
     broadcast_laws (rt_messages R) (msg_view V) \<and> broadcast_laws (rt_events R) (ev_view V)"

definition topic ::
  "('m, 'w, 'v, 's, 'h) runtime \<Rightarrow> ('m, 'w, 'v, 'h) bus \<Rightarrow> rstring \<Rightarrow> 'h topic_data option" where
  "topic R b t = dm_get (rt_topics R) (topics b) t"

text \<open>A receiver of a topic: one that listens to the topic's sender.\<close>

definition receives ::
  "('m, 'w, 'v, 's, 'h) runtime \<Rightarrow> ('w, 'v, 'h) views \<Rightarrow> ('m, 'w, 'v, 'h) bus \<Rightarrow> rstring \<Rightarrow> 'h \<Rightarrow> bool" where
  "receives R V b t rx \<longleftrightarrow>
     (\<exists>td. topic R b t = Some td \<and> listens (msg_view V) (message_channels b) rx = Some (sender td))"

text \<open>Each topic has a channel of its own, of the configured capacity; so has the event channel.\<close>

definition bus_inv :: "('m, 'w, 'v, 's, 'h) runtime \<Rightarrow> ('w, 'v, 'h) views \<Rightarrow> ('m, 'w, 'v, 'h) bus \<Rightarrow> bool" where
  "bus_inv R V b \<longleftrightarrow>
     (\<forall>t td. topic R b t = Some td \<longrightarrow>
        capacity (msg_view V) (message_channels b) (sender td) = Some CHANNEL_BUFFER_SIZE) \<and>
     (\<forall>t t' td td'. topic R b t = Some td \<longrightarrow> topic R b t' = Some td' \<longrightarrow>
        sender td = sender td' \<longrightarrow> t = t') \<and>
     capacity (ev_view V) (event_channels b) (topic_events_tx b) = Some CHANNEL_BUFFER_SIZE"

text \<open>What the bus is to its users: the topics that exist, each with its last message.\<close>

definition bus_abs ::
  "('m, 'w, 'v, 's, 'h) runtime \<Rightarrow> ('m, 'w, 'v, 'h) bus \<Rightarrow> rstring \<Rightarrow> bytes option option" where
  "bus_abs R b t = map_option last_message (topic R b t)"

abbreviation msg_pending where
  "msg_pending V b rx \<equiv> pending (msg_view V) (message_channels b) rx"

abbreviation ev_pending where
  "ev_pending V b rx \<equiv> pending (ev_view V) (event_channels b) rx"

abbreviation msg_lagging where
  "msg_lagging V b rx \<equiv> lagging (msg_view V) (message_channels b) rx"

abbreviation ev_lagging where
  "ev_lagging V b rx \<equiv> lagging (ev_view V) (event_channels b) rx"

lemma runtime_lawsD:
  assumes "runtime_laws R V"
  shows "dashmap_laws (rt_topics R)" "streammap_laws (rt_streams R)"
    "broadcast_laws (rt_messages R) (msg_view V)" "broadcast_laws (rt_events R) (ev_view V)"
  using assms by (simp_all add: runtime_laws_def)

lemma contains_topic:
  "runtime_laws R V \<Longrightarrow> dm_contains_key (rt_topics R) (topics b) t \<longleftrightarrow> topic R b t \<noteq> None"
  by (simp add: topic_def dashmap_lawsD(2) runtime_lawsD(1))

lemma list_topics_mem: "runtime_laws R V \<Longrightarrow> t \<in> set (list_topics R b) \<longleftrightarrow> topic R b t \<noteq> None"
  by (simp add: topic_def list_topics_def dashmap_lawsD(4) runtime_lawsD(1))

lemma list_shard_mem:
  "runtime_laws R V \<Longrightarrow> t \<in> set (list_shard R n b) \<longleftrightarrow> topic R b t \<noteq> None \<and> dm_shard (rt_topics R) t = n"
  by (simp add: topic_def list_shard_def dashmap_lawsD(4) runtime_lawsD(1) conj_commute)

lemma list_shards:
  "runtime_laws R V \<Longrightarrow>
   concat (List.map (\<lambda>n. list_shard R n b) [0..<dm_shards (rt_topics R)]) = list_topics R b"
  by (simp add: list_shard_def list_topics_def dashmap_lawsD(6) runtime_lawsD(1))

lemma topic_shard:
  assumes "runtime_laws R V" and "topic R b t \<noteq> None"
  shows "dm_shard (rt_topics R) t < dm_shards (rt_topics R)"
proof -
  have "t \<in> set (concat (List.map (\<lambda>n. list_shard R n b) [0..<dm_shards (rt_topics R)]))"
    unfolding list_shards [OF assms(1)] using list_topics_mem [OF assms(1)] assms(2) by blast
  then show ?thesis by (auto simp: list_shard_def)
qed

section \<open>Single steps\<close>

lemma announce_topic_fields [simp]:
  "topics (announce_topic R t b) = topics b"
  "topic_events_tx (announce_topic R t b) = topic_events_tx b"
  "message_channels (announce_topic R t b) = message_channels b"
  "topic R (announce_topic R t b) = topic R b"
  "receives R V (announce_topic R t b) = receives R V b"
  by (simp_all add: announce_topic_def Let_def topic_def receives_def fun_eq_iff split: prod.split)

lemma announce_topic_events:
  assumes "runtime_laws R V"
  shows "capacity (ev_view V) (event_channels (announce_topic R t b)) =
      capacity (ev_view V) (event_channels b)"
    "listens (ev_view V) (event_channels (announce_topic R t b)) =
      listens (ev_view V) (event_channels b)"
    "listens (ev_view V) (event_channels b) rx = Some (topic_events_tx b) \<Longrightarrow>
     capacity (ev_view V) (event_channels b) (topic_events_tx b) = Some cap \<Longrightarrow>
     length (ev_pending V b rx) < cap \<Longrightarrow>
     ev_pending V (announce_topic R t b) rx = ev_pending V b rx @ [Created t]"
  using sendD [OF runtime_lawsD(4) [OF assms]]
  by (auto simp: announce_topic_def Let_def split: prod.split)

lemma entry_fields [simp]:
  "topic_events_tx (entry_or_insert_new R t b) = topic_events_tx b"
  "event_channels (entry_or_insert_new R t b) = event_channels b"
  by (simp_all add: entry_or_insert_new_def Let_def split: option.split prod.split)

lemma entry_topic:
  assumes "runtime_laws R V" and "topic R b t = None"
  shows "\<exists>tx. topic R (entry_or_insert_new R t b) =
      (topic R b)(t \<mapsto> \<lparr>sender = tx, last_message = None\<rparr>) \<and>
    capacity (msg_view V) (message_channels b) tx = None \<and>
    capacity (msg_view V) (message_channels (entry_or_insert_new R t b)) =
      (capacity (msg_view V) (message_channels b))(tx \<mapsto> CHANNEL_BUFFER_SIZE) \<and>
    (\<forall>rx. listens (msg_view V) (message_channels b) rx \<noteq> Some tx) \<and>
    listens (msg_view V) (message_channels (entry_or_insert_new R t b)) =
      listens (msg_view V) (message_channels b) \<and>
    pending (msg_view V) (message_channels (entry_or_insert_new R t b)) =
      pending (msg_view V) (message_channels b)"
proof -
  obtain tx w where ch: "bc_channel (rt_messages R) CHANNEL_BUFFER_SIZE (message_channels b) = (tx, w)"
    by fastforce
  note laws = channelD [OF runtime_lawsD(3) [OF assms(1)] ch]
  have eq: "entry_or_insert_new R t b =
      b\<lparr>topics := dm_insert (rt_topics R) (topics b) t \<lparr>sender = tx, last_message = None\<rparr>,
        message_channels := w\<rparr>"
    using assms(2) by (simp add: entry_or_insert_new_def topic_def topic_data_new_def ch)
  show ?thesis
    using laws dashmap_lawsD(3) [OF runtime_lawsD(1) [OF assms(1)]]
    by (intro exI [of _ tx]) (simp add: eq topic_def fun_eq_iff)
qed

lemma store_and_send_existing:
  assumes laws: "runtime_laws R V" and td: "topic R b t = Some td"
  obtains w ok where
    "store_and_send R t m b =
       (Inr (), b\<lparr>topics := dm_insert (rt_topics R) (topics b) t (set_last_message m td),
          message_channels := w\<rparr>)"
    "bc_send (rt_messages R) (sender td) m (message_channels b) = (ok, w)"
    "topic R (snd (store_and_send R t m b)) = (topic R b)(t \<mapsto> set_last_message m td)"
proof -
  obtain ok w where send: "bc_send (rt_messages R) (sender td) m (message_channels b) = (ok, w)"
    by fastforce
  have eq: "store_and_send R t m b =
      (Inr (), b\<lparr>topics := dm_insert (rt_topics R) (topics b) t (set_last_message m td),
         message_channels := w\<rparr>)"
    using td by (simp add: store_and_send_def topic_def Let_def send set_last_message_def)
  show ?thesis
    by (rule that [OF eq send])
      (simp add: eq topic_def fun_eq_iff dashmap_lawsD(3) [OF runtime_lawsD(1) [OF laws]])
qed

end
