(* ===== verification/Topic_Bus.thy ===== *)
theory Topic_Bus
  imports Prelude
begin

text \<open>
  What a client of the bus relies on, as an interface: a send updates the last message of its topic
  and is put into the inbox of each receiver of the topic that has room; a subscription gives the last
  message and an empty inbox. Theory \<open>Bus_Correct\<close> interprets it on the model of \<open>Bus\<close>.
\<close>

locale topic_bus =
  fixes inv :: "'b \<Rightarrow> bool"
    and known :: "'b \<Rightarrow> 't \<Rightarrow> 'm option option"
    and listening :: "'b \<Rightarrow> 't \<Rightarrow> 'h \<Rightarrow> bool"
    and inbox :: "'b \<Rightarrow> 'h \<Rightarrow> 'm list"
    and room :: nat
    and send :: "'t \<Rightarrow> 'm \<Rightarrow> 'b \<Rightarrow> 'b"
    and subscribe :: "'t \<Rightarrow> 'b \<Rightarrow> ('h \<times> 'm option) option \<times> 'b"
  assumes send_inv: "inv b \<Longrightarrow> inv (send t m b)"
    and send_known: "inv b \<Longrightarrow> known (send t m b) = (known b)(t \<mapsto> Some m)"
    and send_listening: "inv b \<Longrightarrow> listening b u rx \<Longrightarrow> listening (send t m b) u rx"
    and send_inbox: "inv b \<Longrightarrow> listening b u rx \<Longrightarrow> length (inbox b rx) < room \<Longrightarrow>
      inbox (send t m b) rx = inbox b rx @ (if t = u then [m] else [])"
    and subscribe_known: "inv b \<Longrightarrow> known b t = Some lm \<Longrightarrow>
      \<exists>rx b'. subscribe t b = (Some (rx, lm), b') \<and> inv b' \<and> known b' = known b \<and>
        listening b' t rx \<and> inbox b' rx = []"
    and subscribe_unknown: "inv b \<Longrightarrow> known b t = None \<Longrightarrow> subscribe t b = (None, b)"
begin

text \<open>Sends on any topics, one after the other: the topic and the message of each.\<close>

lemma sends_inv: "inv b \<Longrightarrow> inv (fold (\<lambda>(t, m). send t m) ps b)"
  by (induction ps arbitrary: b) (auto simp: send_inv)

lemma sends_known:
  "inv b \<Longrightarrow> known (fold (\<lambda>(t, m). send t m) ps b) t =
     (if filter (\<lambda>p. fst p = t) ps = [] then known b t
      else Some (Some (snd (last (filter (\<lambda>p. fst p = t) ps)))))"
proof (induction ps arbitrary: b)
  case (Cons p ps)
  obtain u m where p: "p = (u, m)" by (cases p)
  show ?case using Cons.IH [OF send_inv [OF Cons.prems]] by (simp add: p send_known [OF Cons.prems])
qed simp

lemma sends_listening:
  "inv b \<Longrightarrow> listening b u rx \<Longrightarrow> listening (fold (\<lambda>(t, m). send t m) ps b) u rx"
  by (induction ps arbitrary: b) (auto simp: send_inv send_listening)

text \<open>A receiver gets the messages of its topic, in order and each once, and no others.\<close>

lemma sends_inbox:
  "inv b \<Longrightarrow> listening b u rx \<Longrightarrow>
   length (inbox b rx) + length (filter (\<lambda>p. fst p = u) ps) < room \<Longrightarrow>
   inbox (fold (\<lambda>(t, m). send t m) ps b) rx =
     inbox b rx @ List.map snd (filter (\<lambda>p. fst p = u) ps)"
proof (induction ps arbitrary: b)
  case (Cons p ps)
  obtain t m where p: "p = (t, m)" by (cases p)
  have "length (inbox b rx) < room" using Cons.prems(3) by simp
  note box = send_inbox [OF Cons.prems(1,2) this, of t m]
  have "length (inbox (send t m b) rx) + length (filter (\<lambda>p. fst p = u) ps) < room"
    using Cons.prems(3) by (simp add: box p split: if_splits)
  from Cons.IH [OF send_inv [OF Cons.prems(1)] send_listening [OF Cons.prems(1,2)] this]
  show ?case by (simp add: p box)
qed simp

text \<open>A late subscriber: the last message first, then all that follow on the topic.\<close>

lemma late_subscription:
  assumes inv: "inv b" and before: "filter (\<lambda>p. fst p = t) ps \<noteq> []"
    and fits: "length (filter (\<lambda>p. fst p = t) ps') < room"
  shows "\<exists>rx b'. subscribe t (fold (\<lambda>(t, m). send t m) ps b) =
      (Some (rx, Some (snd (last (filter (\<lambda>p. fst p = t) ps)))), b') \<and>
    inbox (fold (\<lambda>(t, m). send t m) ps' b') rx = List.map snd (filter (\<lambda>p. fst p = t) ps')"
proof -
  let ?b = "fold (\<lambda>(t, m). send t m) ps b"
  have "known ?b t = Some (Some (snd (last (filter (\<lambda>p. fst p = t) ps))))"
    using sends_known [OF inv, of ps t] before by simp
  then obtain rx b' where s: "subscribe t ?b = (Some (rx, Some (snd (last (filter (\<lambda>p. fst p = t) ps)))), b')"
      "inv b'" "listening b' t rx" "inbox b' rx = []"
    using subscribe_known [OF sends_inv [OF inv]] by blast
  with sends_inbox [OF s(2,3)] fits show ?thesis by simp
qed

end

end
