(* ===== verification/Bus_Correct.thy ===== *)
theory Bus_Correct
  imports Bus Topic_Bus
begin

text \<open>
  What the bus guarantees: a send never fails, refines an update of the map from topics to last
  messages, reaches every receiver of the topic and no other, and announces a topic exactly when it
  creates it; a subscriber gets the last message and then everything sent after it, in order.
\<close>

section \<open>How the bus evolves\<close>

text \<open>Topics keep their sender, receivers keep their channel: what every operation of the bus preserves.\<close>

definition bus_ext ::
  "('m, 'w, 'v, 's, 'h) runtime \<Rightarrow> ('w, 'v, 'h) views \<Rightarrow> ('m, 'w, 'v, 'h) bus \<Rightarrow>
   ('m, 'w, 'v, 'h) bus \<Rightarrow> bool" where
  "bus_ext R V b b' \<longleftrightarrow>
     (\<forall>t td. topic R b t = Some td \<longrightarrow> (\<exists>td'. topic R b' t = Some td' \<and> sender td' = sender td)) \<and>
     topic_events_tx b' = topic_events_tx b \<and>
     (\<forall>rx tx. listens (msg_view V) (message_channels b) rx = Some tx \<longrightarrow>
        listens (msg_view V) (message_channels b') rx = Some tx) \<and>
     (\<forall>rx tx. listens (ev_view V) (event_channels b) rx = Some tx \<longrightarrow>
        listens (ev_view V) (event_channels b') rx = Some tx)"

lemma bus_ext_refl [simp]: "bus_ext R V b b"
  by (simp add: bus_ext_def)

lemma bus_ext_trans [trans]: "bus_ext R V a b \<Longrightarrow> bus_ext R V b c \<Longrightarrow> bus_ext R V a c"
  unfolding bus_ext_def by (metis (no_types, lifting))

lemma bus_ext_topic: "bus_ext R V b b' \<Longrightarrow> topic R b t \<noteq> None \<Longrightarrow> topic R b' t \<noteq> None"
  unfolding bus_ext_def by fastforce

lemma bus_ext_receives: "bus_ext R V b b' \<Longrightarrow> receives R V b t rx \<Longrightarrow> receives R V b' t rx"
  unfolding bus_ext_def receives_def by metis

lemma bus_ext_event_receiver:
  "bus_ext R V b b' \<Longrightarrow> listens (ev_view V) (event_channels b) rx = Some (topic_events_tx b) \<Longrightarrow>
   listens (ev_view V) (event_channels b') rx = Some (topic_events_tx b')"
  unfolding bus_ext_def by simp

lemma receives_unique:
  "bus_inv R V b \<Longrightarrow> receives R V b t rx \<Longrightarrow> receives R V b t' rx \<Longrightarrow> t = t'"
  unfolding bus_inv_def receives_def by (metis option.sel)

section \<open>Creating a topic\<close>

lemma create_topic_existing:
  assumes "runtime_laws R V" and "topic R b t \<noteq> None"
  shows "create_topic R t b = (False, b)"
  using assms by (simp add: create_topic_def contains_topic)

lemma create_topic_absent:
  assumes laws: "runtime_laws R V" and none: "topic R b t = None"
  shows "create_topic R t b = (True, announce_topic R t (entry_or_insert_new R t b))"
  using none by (simp add: create_topic_def contains_topic [OF laws])

lemma create_topic_effect:
  assumes laws: "runtime_laws R V" and inv: "bus_inv R V b" and none: "topic R b t = None"
    and b': "b' = snd (create_topic R t b)"
  shows "bus_inv R V b'" and "bus_ext R V b b'"
    and "bus_abs R b' = (bus_abs R b)(t \<mapsto> None)"
    and "\<exists>td. topic R b' t = Some td \<and>
      (\<forall>rx. listens (msg_view V) (message_channels b') rx \<noteq> Some (sender td))"
    and "msg_pending V b' = msg_pending V b"
    and "listens (msg_view V) (message_channels b') = listens (msg_view V) (message_channels b)"
    and "listens (ev_view V) (event_channels b') = listens (ev_view V) (event_channels b)"
    and "listens (ev_view V) (event_channels b) rx = Some (topic_events_tx b) \<Longrightarrow>
      length (ev_pending V b rx) < CHANNEL_BUFFER_SIZE \<Longrightarrow>
      ev_pending V b' rx = ev_pending V b rx @ [Created t]"
proof -
  let ?e = "entry_or_insert_new R t b"
  have eq: "b' = announce_topic R t ?e" by (simp add: b' create_topic_absent [OF laws none])
  obtain tx where e: "topic R ?e = (topic R b)(t \<mapsto> \<lparr>sender = tx, last_message = None\<rparr>)"
      "capacity (msg_view V) (message_channels b) tx = None"
      "capacity (msg_view V) (message_channels ?e) =
        (capacity (msg_view V) (message_channels b))(tx \<mapsto> CHANNEL_BUFFER_SIZE)"
      "\<forall>rx. listens (msg_view V) (message_channels b) rx \<noteq> Some tx"
      "listens (msg_view V) (message_channels ?e) = listens (msg_view V) (message_channels b)"
      "pending (msg_view V) (message_channels ?e) = pending (msg_view V) (message_channels b)"
    using entry_topic [OF laws none] by blast
  note ev = announce_topic_events [OF laws, where t = t and b = ?e]
  have fresh: "sender td \<noteq> tx" if "topic R b u = Some td" for u td
    using inv that e(2) unfolding bus_inv_def by fastforce
  show "bus_inv R V b'"
    using inv fresh unfolding bus_inv_def eq by (auto simp: e ev)
  show "bus_ext R V b b'"
    using none unfolding bus_ext_def eq by (auto simp: e ev)
  show "bus_abs R b' = (bus_abs R b)(t \<mapsto> None)"
    by (simp add: eq bus_abs_def e fun_eq_iff)
  show "\<exists>td. topic R b' t = Some td \<and>
      (\<forall>rx. listens (msg_view V) (message_channels b') rx \<noteq> Some (sender td))"
    using e by (simp add: eq)
  show "msg_pending V b' = msg_pending V b" by (simp add: eq e)
  show "listens (msg_view V) (message_channels b') = listens (msg_view V) (message_channels b)"
    by (simp add: eq e)
  show "listens (ev_view V) (event_channels b') = listens (ev_view V) (event_channels b)"
    by (simp add: eq ev)
  show "ev_pending V b' rx = ev_pending V b rx @ [Created t]"
    if "listens (ev_view V) (event_channels b) rx = Some (topic_events_tx b)"
      "length (ev_pending V b rx) < CHANNEL_BUFFER_SIZE"
    using ev(3) [of rx] inv that by (simp add: eq bus_inv_def)
qed

section \<open>Storing and broadcasting\<close>

lemma store_and_send_effect:
  assumes laws: "runtime_laws R V" and inv: "bus_inv R V b" and td: "topic R b t = Some td"
    and s: "store_and_send R t m b = (r, b')"
  shows "r = Inr ()" and "bus_inv R V b'" and "bus_ext R V b b'"
    and "bus_abs R b' = (bus_abs R b)(t \<mapsto> Some m)"
    and "receives R V b t rx \<Longrightarrow> length (msg_pending V b rx) < CHANNEL_BUFFER_SIZE \<Longrightarrow>
      msg_pending V b' rx = msg_pending V b rx @ [m]"
    and "receives R V b t rx \<Longrightarrow> suffix (msg_pending V b' rx) (msg_pending V b rx @ [m])"
    and "\<not> receives R V b t rx \<Longrightarrow> msg_pending V b' rx = msg_pending V b rx"
    and "event_channels b' = event_channels b"
    and "listens (msg_view V) (message_channels b') = listens (msg_view V) (message_channels b)"
proof -
  obtain w ok where st: "store_and_send R t m b =
      (Inr (), b\<lparr>topics := dm_insert (rt_topics R) (topics b) t (set_last_message m td),
         message_channels := w\<rparr>)"
    and send: "bc_send (rt_messages R) (sender td) m (message_channels b) = (ok, w)"
    and tp: "topic R (snd (store_and_send R t m b)) = (topic R b)(t \<mapsto> set_last_message m td)"
    using store_and_send_existing [OF laws td] by blast
  have b': "topic R b' = (topic R b)(t \<mapsto> set_last_message m td)" "message_channels b' = w"
      "event_channels b' = event_channels b" "topic_events_tx b' = topic_events_tx b"
    using st tp s by auto
  note snd_laws = sendD [OF runtime_lawsD(3) [OF laws] send]
  have sender_eq: "sender (set_last_message m td) = sender td" by (simp add: set_last_message_def)
  have rc: "receives R V b t rx \<longleftrightarrow> listens (msg_view V) (message_channels b) rx = Some (sender td)" for rx
    using td by (simp add: receives_def)
  show "r = Inr ()" using st s by simp
  show "bus_inv R V b'"
    using inv td unfolding bus_inv_def b' snd_laws by (auto simp: sender_eq)
  show "bus_ext R V b b'"
    using td unfolding bus_ext_def b' snd_laws by (auto simp: sender_eq)
  show "bus_abs R b' = (bus_abs R b)(t \<mapsto> Some m)"
    by (simp add: bus_abs_def b' fun_eq_iff set_last_message_def)
  show "msg_pending V b' rx = msg_pending V b rx @ [m]"
    if "receives R V b t rx" "length (msg_pending V b rx) < CHANNEL_BUFFER_SIZE"
    using snd_laws(5) [of rx CHANNEL_BUFFER_SIZE] inv td that by (simp add: rc b' bus_inv_def)
  show "suffix (msg_pending V b' rx) (msg_pending V b rx @ [m])" if "receives R V b t rx"
    using snd_laws(4) [of rx] that by (simp add: rc b')
  show "msg_pending V b' rx = msg_pending V b rx" if "\<not> receives R V b t rx"
    using snd_laws(3) [of rx] that by (simp add: rc b')
  show "event_channels b' = event_channels b" by (rule b'(3))
  show "listens (msg_view V) (message_channels b') = listens (msg_view V) (message_channels b)"
    by (simp add: b' snd_laws)
qed

section \<open>Sending\<close>

text \<open>The bus on which the message is stored: the topic created when it was absent.\<close>

lemma bus_send_unfold:
  assumes laws: "runtime_laws R V" and inv: "bus_inv R V b"
  obtains b1 td where "bus_send R t m b = store_and_send R t m b1" "topic R b1 t = Some td"
    "bus_inv R V b1" "bus_ext R V b b1" "msg_pending V b1 = msg_pending V b"
    "bus_abs R b1 = (if topic R b t = None then (bus_abs R b)(t \<mapsto> None) else bus_abs R b)"
    "\<And>rx. receives R V b1 t rx \<longleftrightarrow> receives R V b t rx"
    "topic R b t \<noteq> None \<Longrightarrow> b1 = b"
    "topic R b t = None \<Longrightarrow> b1 = snd (create_topic R t b)"
    "listens (msg_view V) (message_channels b1) = listens (msg_view V) (message_channels b)"
    "listens (ev_view V) (event_channels b1) = listens (ev_view V) (event_channels b)"
proof (cases "topic R b t")
  case (Some td)
  then show ?thesis
    by (intro that [of b td]) (simp_all add: bus_send_def contains_topic [OF laws] inv)
next
  case None
  note eff = create_topic_effect [OF laws inv None refl]
  obtain td where td: "topic R (snd (create_topic R t b)) t = Some td"
      "\<forall>rx. listens (msg_view V) (message_channels (snd (create_topic R t b))) rx \<noteq> Some (sender td)"
    using eff(4) by blast
  then have "\<not> receives R V (snd (create_topic R t b)) t rx \<and> \<not> receives R V b t rx" for rx
    using None by (simp add: receives_def)
  then show ?thesis
    using None eff td by (intro that [of "snd (create_topic R t b)" td])
      (simp_all add: bus_send_def contains_topic [OF laws])
qed

lemma bus_send_effect:
  assumes laws: "runtime_laws R V" and inv: "bus_inv R V b" and s: "bus_send R t m b = (r, b')"
  shows "r = Inr ()" and "bus_inv R V b'" and "bus_ext R V b b'"
    and "bus_abs R b' = (bus_abs R b)(t \<mapsto> Some m)"
    and "receives R V b t rx \<Longrightarrow> length (msg_pending V b rx) < CHANNEL_BUFFER_SIZE \<Longrightarrow>
      msg_pending V b' rx = msg_pending V b rx @ [m]"
    and "receives R V b t rx \<Longrightarrow> suffix (msg_pending V b' rx) (msg_pending V b rx @ [m])"
    and "\<not> receives R V b t rx \<Longrightarrow> msg_pending V b' rx = msg_pending V b rx"
    and "topic R b t \<noteq> None \<Longrightarrow> event_channels b' = event_channels b"
    and "topic R b t = None \<Longrightarrow>
      listens (ev_view V) (event_channels b) rx = Some (topic_events_tx b) \<Longrightarrow>
      length (ev_pending V b rx) < CHANNEL_BUFFER_SIZE \<Longrightarrow>
      ev_pending V b' rx = ev_pending V b rx @ [Created t]"
    and "listens (msg_view V) (message_channels b') = listens (msg_view V) (message_channels b)"
    and "listens (ev_view V) (event_channels b') = listens (ev_view V) (event_channels b)"
proof -
  obtain b1 td where b1: "bus_send R t m b = store_and_send R t m b1" "topic R b1 t = Some td"
    "bus_inv R V b1" "bus_ext R V b b1" "msg_pending V b1 = msg_pending V b"
    "bus_abs R b1 = (if topic R b t = None then (bus_abs R b)(t \<mapsto> None) else bus_abs R b)"
    "\<And>rx. receives R V b1 t rx \<longleftrightarrow> receives R V b t rx"
    "topic R b t \<noteq> None \<Longrightarrow> b1 = b"
    "topic R b t = None \<Longrightarrow> b1 = snd (create_topic R t b)"
    "listens (msg_view V) (message_channels b1) = listens (msg_view V) (message_channels b)"
    "listens (ev_view V) (event_channels b1) = listens (ev_view V) (event_channels b)"
    using bus_send_unfold [OF laws inv] by blast
  have st: "store_and_send R t m b1 = (r, b')" using s b1(1) by simp
  note eff = store_and_send_effect [OF laws b1(3,2) st]
  show "r = Inr ()" by (rule eff(1))
  show "bus_inv R V b'" by (rule eff(2))
  show "bus_ext R V b b'" by (rule bus_ext_trans [OF b1(4) eff(3)])
  show "bus_abs R b' = (bus_abs R b)(t \<mapsto> Some m)" by (simp add: eff(4) b1(6))
  show "msg_pending V b' rx = msg_pending V b rx @ [m]"
    if "receives R V b t rx" "length (msg_pending V b rx) < CHANNEL_BUFFER_SIZE"
    using eff(5) [of rx] that by (simp add: b1(5,7))
  show "suffix (msg_pending V b' rx) (msg_pending V b rx @ [m])" if "receives R V b t rx"
    using eff(6) [of rx] that by (simp add: b1(5,7))
  show "msg_pending V b' rx = msg_pending V b rx" if "\<not> receives R V b t rx"
    using eff(7) [of rx] that by (simp add: b1(5,7))
  show "event_channels b' = event_channels b" if "topic R b t \<noteq> None"
    using eff(8) b1(8) [OF that] by simp
  show "ev_pending V b' rx = ev_pending V b rx @ [Created t]"
    if "topic R b t = None" "listens (ev_view V) (event_channels b) rx = Some (topic_events_tx b)"
      "length (ev_pending V b rx) < CHANNEL_BUFFER_SIZE"
    using create_topic_effect(8) [OF laws inv that(1) refl that(2,3)] eff(8) b1(9) [OF that(1)] by simp
  show "listens (msg_view V) (message_channels b') = listens (msg_view V) (message_channels b)"
    by (simp add: eff(9) b1(10))
  show "listens (ev_view V) (event_channels b') = listens (ev_view V) (event_channels b)"
    by (simp add: eff(8) b1(11))
qed

text \<open>No operation makes a receiver that has room lag.\<close>

lemma entry_lagging:
  assumes laws: "runtime_laws R V"
  shows "msg_lagging V (entry_or_insert_new R t b) rx = msg_lagging V b rx"
proof (cases "dm_get (rt_topics R) (topics b) t")
  case None
  obtain tx w where ch: "bc_channel (rt_messages R) CHANNEL_BUFFER_SIZE (message_channels b) = (tx, w)"
    by fastforce
  with channelD(6) [OF runtime_lawsD(3) [OF laws] ch] None show ?thesis
    by (simp add: entry_or_insert_new_def topic_data_new_def)
qed (simp add: entry_or_insert_new_def)

lemma store_and_send_lagging:
  assumes laws: "runtime_laws R V" and inv: "bus_inv R V b" and td: "topic R b t = Some td"
    and room: "receives R V b t rx \<longrightarrow> length (msg_pending V b rx) < CHANNEL_BUFFER_SIZE"
  shows "msg_lagging V (snd (store_and_send R t m b)) rx = msg_lagging V b rx"
proof -
  obtain w ok where st: "store_and_send R t m b =
      (Inr (), b\<lparr>topics := dm_insert (rt_topics R) (topics b) t (set_last_message m td),
         message_channels := w\<rparr>)"
    and send: "bc_send (rt_messages R) (sender td) m (message_channels b) = (ok, w)"
    using store_and_send_existing [OF laws td] by metis
  note l = sendD(6,7) [OF runtime_lawsD(3) [OF laws] send]
  have cap: "capacity (msg_view V) (message_channels b) (sender td) = Some CHANNEL_BUFFER_SIZE"
    using inv td by (simp add: bus_inv_def)
  have "receives R V b t rx \<longleftrightarrow> listens (msg_view V) (message_channels b) rx = Some (sender td)"
    by (simp add: receives_def td)
  with l(1) l(2) [OF _ cap] room show ?thesis by (auto simp: st)
qed

lemma bus_send_lagging:
  assumes laws: "runtime_laws R V" and inv: "bus_inv R V b"
    and room: "receives R V b t rx \<longrightarrow> length (msg_pending V b rx) < CHANNEL_BUFFER_SIZE"
  shows "msg_lagging V (snd (bus_send R t m b)) rx = msg_lagging V b rx"
proof -
  obtain b1 td where b1: "bus_send R t m b = store_and_send R t m b1" "topic R b1 t = Some td"
    "bus_inv R V b1" "msg_pending V b1 = msg_pending V b"
    "\<And>rx. receives R V b1 t rx \<longleftrightarrow> receives R V b t rx"
    "topic R b t \<noteq> None \<Longrightarrow> b1 = b"
    "topic R b t = None \<Longrightarrow> b1 = snd (create_topic R t b)"
    using bus_send_unfold [OF laws inv] by metis
  have "msg_lagging V b1 rx = msg_lagging V b rx"
  proof (cases "topic R b t")
    case None
    then show ?thesis by (simp add: b1(7) create_topic_absent [OF laws] entry_lagging [OF laws])
  next
    case (Some td')
    then show ?thesis using b1(6) by simp
  qed
  with store_and_send_lagging [OF laws b1(3,2), of rx m] room show ?thesis
    by (simp add: b1(1,4,5))
qed

lemma create_topic_lagging:
  assumes laws: "runtime_laws R V" and inv: "bus_inv R V b" and none: "topic R b t = None"
  shows "msg_lagging V (snd (create_topic R t b)) rx = msg_lagging V b rx"
    and "listens (ev_view V) (event_channels b) rx = Some (topic_events_tx b) \<Longrightarrow>
      length (ev_pending V b rx) < CHANNEL_BUFFER_SIZE \<Longrightarrow>
      ev_lagging V (snd (create_topic R t b)) rx = ev_lagging V b rx"
proof -
  show "msg_lagging V (snd (create_topic R t b)) rx = msg_lagging V b rx"
    by (simp add: create_topic_absent [OF laws none] entry_lagging [OF laws])
  obtain ok v where s: "bc_send (rt_events R) (topic_events_tx b) (Created t) (event_channels b) = (ok, v)"
    by fastforce
  show "ev_lagging V (snd (create_topic R t b)) rx = ev_lagging V b rx"
    if "listens (ev_view V) (event_channels b) rx = Some (topic_events_tx b)"
      "length (ev_pending V b rx) < CHANNEL_BUFFER_SIZE"
    using sendD(7) [OF runtime_lawsD(4) [OF laws] s that(1) _ that(2)] inv
    by (simp add: create_topic_absent [OF laws none] announce_topic_def s bus_inv_def)
qed

lemma bus_send_ev_lagging:
  assumes laws: "runtime_laws R V" and inv: "bus_inv R V b"
    and rx: "listens (ev_view V) (event_channels b) rx = Some (topic_events_tx b)"
      "length (ev_pending V b rx) < CHANNEL_BUFFER_SIZE"
  shows "ev_lagging V (snd (bus_send R t m b)) rx = ev_lagging V b rx"
proof -
  obtain b1 td where b1: "bus_send R t m b = store_and_send R t m b1" "topic R b1 t = Some td"
    "bus_inv R V b1" "topic R b t \<noteq> None \<Longrightarrow> b1 = b"
    "topic R b t = None \<Longrightarrow> b1 = snd (create_topic R t b)"
    using bus_send_unfold [OF laws inv] by metis
  have "event_channels (snd (store_and_send R t m b1)) = event_channels b1"
    by (rule store_and_send_effect(8) [OF laws b1(3,2) surjective_pairing])
  then show ?thesis
    using b1(4,5) create_topic_lagging(2) [OF laws inv _ rx] by (cases "topic R b t") (auto simp: b1(1))
qed

section \<open>Subscribing\<close>

lemma subscribe_effect:
  assumes laws: "runtime_laws R V" and inv: "bus_inv R V b"
    and s: "subscribe_to_topic R t b = (Some (rx, lm), b')"
  shows "bus_abs R b t = Some lm" and "bus_abs R b' = bus_abs R b" and "bus_inv R V b'"
    and "bus_ext R V b b'" and "receives R V b' t rx" and "\<not> receives R V b u rx"
    and "msg_pending V b' = (msg_pending V b)(rx := [])"
    and "event_channels b' = event_channels b" and "topic R b' = topic R b"
    and "rx' \<noteq> rx \<Longrightarrow> receives R V b' u rx' \<longleftrightarrow> receives R V b u rx'"
    and "topic_events_tx b' = topic_events_tx b"
proof -
  obtain td w where td: "topic R b t = Some td"
    and sub: "bc_subscribe (rt_messages R) (sender td) (message_channels b) = (rx, w)"
    and lm: "lm = last_message td" and b': "b' = b\<lparr>message_channels := w\<rparr>"
    using s by (auto simp: subscribe_to_topic_def topic_def Let_def get_last_message_def
        split: option.splits prod.splits)
  note sl = subscribeD [OF runtime_lawsD(3) [OF laws] sub]
  have tp: "topic R b' = topic R b" by (simp add: b' topic_def fun_eq_iff)
  show "topic R b' = topic R b" by (rule tp)
  show "bus_abs R b t = Some lm" by (simp add: bus_abs_def td lm)
  show "bus_abs R b' = bus_abs R b" by (simp add: bus_abs_def tp fun_eq_iff)
  show "bus_inv R V b'" using inv unfolding bus_inv_def tp by (simp add: b' sl)
  show "bus_ext R V b b'" unfolding bus_ext_def tp by (auto simp: b' sl)
  show "receives R V b' t rx" by (simp add: receives_def tp td) (simp add: b' sl)
  show "\<not> receives R V b u rx" by (simp add: receives_def sl)
  show "msg_pending V b' = (msg_pending V b)(rx := [])" by (simp add: b' sl fun_eq_iff)
  show "event_channels b' = event_channels b" by (simp add: b')
  show "receives R V b' u rx' \<longleftrightarrow> receives R V b u rx'" if "rx' \<noteq> rx"
    using that by (simp add: receives_def tp) (simp add: b' sl)
  show "topic_events_tx b' = topic_events_tx b" by (simp add: b')
qed

lemma subscribe_none_iff:
  "fst (subscribe_to_topic R t b) = None \<longleftrightarrow> topic R b t = None"
  by (simp add: subscribe_to_topic_def topic_def Let_def split: option.split prod.split)

lemma bus_new_effect:
  assumes laws: "runtime_laws R V"
  shows "bus_inv R V (bus_new R w v)" and "topic R (bus_new R w v) t = None"
  using channelD [OF runtime_lawsD(4) [OF laws]] dashmap_lawsD(1) [OF runtime_lawsD(1) [OF laws]]
  by (auto simp: bus_new_def bus_inv_def topic_def Let_def split: prod.split)

section \<open>An instance\<close>

definition rt0 ::
  "((rstring \<times> nat topic_data) list, bytes chans, topic_event chans, (rstring \<times> nat) list, nat) runtime"
where
  "rt0 = \<lparr>rt_topics = list_dashmap, rt_messages = list_broadcast, rt_events = list_broadcast,
     rt_streams = list_streammap\<rparr>"

definition views0 :: "(bytes chans, topic_event chans, nat) views" where
  "views0 = \<lparr>msg_view = list_view, ev_view = list_view\<rparr>"

definition bus0 :: "((rstring \<times> nat topic_data) list, bytes chans, topic_event chans, nat) bus" where
  "bus0 = bus_new rt0 chans_new chans_new"

lemma runtime_laws0: "runtime_laws rt0 views0"
  by (simp add: runtime_laws_def rt0_def views0_def list_dashmap_laws list_streammap_laws
      list_broadcast_laws)

lemma bus_inv0: "bus_inv rt0 views0 bus0"
  unfolding bus0_def by (rule bus_new_effect(1) [OF runtime_laws0])

definition bus_sub :: "((rstring \<times> nat topic_data) list, bytes chans, topic_event chans, nat) bus" where
  "bus_sub = snd (subscribe_to_topic rt0 (str ''a'') (snd (bus_send rt0 (str ''a'') [1] bus0)))"

text \<open>Evaluation of the instance; the capacity stays a name, since it is a large unary number.\<close>

lemmas rt0_simps = rt0_def views0_def list_dashmap_def list_broadcast_def list_streammap_def
  list_view_def chans_new_def fresh_handle_def push_bounded_def bus_new_def bus_send_def
  store_and_send_def create_topic_def announce_topic_def entry_or_insert_new_def topic_data_new_def
  subscribe_to_topic_def subscribe_to_topic_events_def set_last_message_def get_last_message_def

lemma bus0_eq:
  "bus0 = \<lparr>topics = [], topic_events_tx = 1, message_channels = \<lparr>senders = [], receivers = []\<rparr>,
     event_channels = \<lparr>senders = [(1, CHANNEL_BUFFER_SIZE)], receivers = []\<rparr>\<rparr>"
  by (simp add: bus0_def rt0_simps)

lemma bus_sub_eq:
  "bus_sub = \<lparr>topics = [(str ''a'', \<lparr>sender = 1, last_message = Some [1]\<rparr>)], topic_events_tx = 1,
     message_channels = \<lparr>senders = [(1, CHANNEL_BUFFER_SIZE)], receivers = [(2, 1, [])]\<rparr>,
     event_channels = \<lparr>senders = [(1, CHANNEL_BUFFER_SIZE)], receivers = []\<rparr>\<rparr>"
  by (simp add: bus_sub_def bus0_eq rt0_simps)

lemma buffer_pos [simp]: "0 < CHANNEL_BUFFER_SIZE"
  by (simp add: CHANNEL_BUFFER_SIZE_def)

lemma bus_inv_sub: "bus_inv rt0 views0 bus_sub"
proof -
  let ?b = "snd (bus_send rt0 (str ''a'') [1] bus0)"
  have eff: "bus_send rt0 (str ''a'') [1] bus0 = (fst (bus_send rt0 (str ''a'') [1] bus0), ?b)" by simp
  have inv: "bus_inv rt0 views0 ?b" by (rule bus_send_effect(2) [OF runtime_laws0 bus_inv0 eff])
  obtain r b' where s: "subscribe_to_topic rt0 (str ''a'') ?b = (r, b')" by fastforce
  show ?thesis
  proof (cases r)
    case None
    then show ?thesis using s inv by (auto simp: bus_sub_def subscribe_to_topic_def Let_def
        split: option.splits prod.splits)
  next
    case (Some x)
    with s subscribe_effect(3) [OF runtime_laws0 inv] show ?thesis
      by (cases x) (simp add: bus_sub_def)
  qed
qed

section \<open>The bus is a topic bus\<close>

interpretation tb: topic_bus "\<lambda>b. runtime_laws R V \<and> bus_inv R V b" "bus_abs R" "receives R V"
  "\<lambda>b rx. msg_pending V b rx" CHANNEL_BUFFER_SIZE "\<lambda>t m b. snd (bus_send R t m b)"
  "subscribe_to_topic R"
  for R :: "('m, 'w, 'v, 's, 'h) runtime" and V :: "('w, 'v, 'h) views"
proof (unfold_locales, goal_cases)
  case (1 b t m)
  then show ?case using bus_send_effect(2) [OF _ _ surjective_pairing] by blast
next
  case (2 b t m)
  then show ?case using bus_send_effect(4) [OF _ _ surjective_pairing] by blast
next
  case (3 b u rx t m)
  show ?case
    by (rule bus_ext_receives [OF bus_send_effect(3) [OF conjunct1 [OF 3(1)] conjunct2 [OF 3(1)]
      surjective_pairing] 3(2)])
next
  case (4 b u rx t m)
  note e = bus_send_effect [OF conjunct1 [OF 4(1)] conjunct2 [OF 4(1)] surjective_pairing,
      where t = t and m = m]
  show ?case
  proof (cases "receives R V b t rx")
    case True
    then have "t = u" by (rule receives_unique [OF conjunct2 [OF 4(1)] _ 4(2)])
    then show ?thesis using e(5) [OF True 4(3)] by simp
  next
    case False
    then have "t \<noteq> u" using 4(2) by metis
    then show ?thesis using e(7) [OF False] by simp
  qed
next
  case (5 b t lm)
  then have "topic R b t \<noteq> None" by (auto simp: bus_abs_def)
  then obtain rx lm' b' where s: "subscribe_to_topic R t b = (Some (rx, lm'), b')"
    using subscribe_none_iff [of R t b] by (metis option.exhaust prod.exhaust fst_conv)
  note e = subscribe_effect [OF conjunct1 [OF 5(1)] conjunct2 [OF 5(1)] s]
  then show ?case using 5 s by auto
next
  case (6 b t)
  from 6(2) have "topic R b t = None" unfolding bus_abs_def by simp
  then show ?case unfolding subscribe_to_topic_def topic_def by simp
qed

text \<open>Sends of one client or of several, in the order in which the bus takes them.\<close>

definition send_all ::
  "('m, 'w, 'v, 's, 'h) runtime \<Rightarrow> (rstring \<times> bytes) list \<Rightarrow> ('m, 'w, 'v, 'h) bus \<Rightarrow>
   ('m, 'w, 'v, 'h) bus" where
  "send_all R ps b = fold (\<lambda>(t, m) b. snd (bus_send R t m b)) ps b"

definition on_topic :: "rstring \<Rightarrow> (rstring \<times> bytes) list \<Rightarrow> bytes list" where
  "on_topic t ps = List.map snd (filter (\<lambda>p. fst p = t) ps)"

section \<open>Properties\<close>

text \<open>
  C26: sending refines an update of the map from topics to last messages: it always succeeds (the
  branch "Topic not found" is unreachable), the topic exists afterwards with this message as its
  last one, every other topic is as before, and the bus keeps its invariant.
\<close>
theorem bus_send_refines:
  assumes "runtime_laws R V" and "bus_inv R V b"
  shows "fst (bus_send R t m b) = Inr () \<and>
    bus_abs R (snd (bus_send R t m b)) = (bus_abs R b)(t \<mapsto> Some m) \<and>
    bus_inv R V (snd (bus_send R t m b))"
  by (simp add: bus_send_effect(1,2,4) [OF assms surjective_pairing])

theorem bus_send_refines_witness:
  "fst (bus_send rt0 (str ''a'') [1] bus0) = Inr () \<and>
   bus_abs rt0 (snd (bus_send rt0 (str ''a'') [1] bus0)) = (bus_abs rt0 bus0)(str ''a'' \<mapsto> Some [1]) \<and>
   bus_inv rt0 views0 (snd (bus_send rt0 (str ''a'') [1] bus0))"
  by (rule bus_send_refines [OF runtime_laws0 bus_inv0])

text \<open>
  A message sent on a topic is appended, unchanged and once, to what every receiver of that
  topic has yet to receive (if it has room), and no receiver of any other topic sees it.
\<close>
theorem bus_send_delivers:
  assumes "runtime_laws R V" and "bus_inv R V b"
    and "length (msg_pending V b rx) < CHANNEL_BUFFER_SIZE"
  shows "msg_pending V (snd (bus_send R t m b)) rx =
    (if receives R V b t rx then msg_pending V b rx @ [m] else msg_pending V b rx)"
  by (simp add: bus_send_effect(5,7) [OF assms(1,2) surjective_pairing] assms(3))

theorem bus_send_delivers_witness:
  "msg_pending views0 (snd (bus_send rt0 (str ''a'') [2] bus_sub)) 2 =
     (if receives rt0 views0 bus_sub (str ''a'') 2 then msg_pending views0 bus_sub 2 @ [[2]]
      else msg_pending views0 bus_sub 2)"
proof (rule bus_send_delivers [OF runtime_laws0 bus_inv_sub])
  show "length (msg_pending views0 bus_sub 2) < CHANNEL_BUFFER_SIZE"
    by (simp add: bus_sub_eq views0_def list_view_def)
qed

text \<open>
  A topic is announced exactly once: the send that creates it appends one creation event to what
  every event receiver has yet to receive, and a send on an existing topic announces nothing.
\<close>
theorem topic_announced_iff_created:
  assumes "runtime_laws R V" and "bus_inv R V b"
    and "listens (ev_view V) (event_channels b) rx = Some (topic_events_tx b)"
    and "length (ev_pending V b rx) < CHANNEL_BUFFER_SIZE"
  shows "ev_pending V (snd (bus_send R t m b)) rx =
    ev_pending V b rx @ (if topic R b t = None then [Created t] else [])"
proof -
  have s: "bus_send R t m b = (fst (bus_send R t m b), snd (bus_send R t m b))" by simp
  show ?thesis
    using bus_send_effect(8,9) [OF assms(1,2) s] assms(3,4) by simp
qed

theorem topic_announced_iff_created_witness:
  "ev_pending views0 (snd (bus_send rt0 (str ''a'') [1] (snd (subscribe_to_topic_events rt0 bus0)))) 2 =
     ev_pending views0 (snd (subscribe_to_topic_events rt0 bus0)) 2 @
     (if topic rt0 (snd (subscribe_to_topic_events rt0 bus0)) (str ''a'') = None
      then [Created (str ''a'')] else [])"
proof (rule topic_announced_iff_created [OF runtime_laws0])
  show "bus_inv rt0 views0 (snd (subscribe_to_topic_events rt0 bus0))"
  proof -
    have "topic rt0 (snd (subscribe_to_topic_events rt0 bus0)) = topic rt0 bus0"
      by (simp add: topic_def subscribe_to_topic_events_def Let_def fun_eq_iff split: prod.split)
    moreover have "message_channels (snd (subscribe_to_topic_events rt0 bus0)) = message_channels bus0"
      by (simp add: subscribe_to_topic_events_def Let_def split: prod.split)
    moreover have "capacity (ev_view views0) (event_channels (snd (subscribe_to_topic_events rt0 bus0)))
        (topic_events_tx (snd (subscribe_to_topic_events rt0 bus0))) = Some CHANNEL_BUFFER_SIZE"
      by (simp add: bus0_eq rt0_simps)
    ultimately show ?thesis using bus_inv0 by (simp add: bus_inv_def)
  qed
qed (simp_all add: bus0_eq rt0_simps)

text \<open>
  A late subscriber gets exactly the last message of the topic, and then every message sent on it
  after it subscribed, in order and each once, up to the capacity of the channel; sends on other
  topics in between make no difference.
\<close>
theorem late_subscriber:
  assumes "runtime_laws R V" and "bus_inv R V b" and "on_topic t ps \<noteq> []"
    and "length (on_topic t ps') < CHANNEL_BUFFER_SIZE"
  shows "\<exists>rx b'. subscribe_to_topic R t (send_all R ps b) =
      (Some (rx, Some (last (on_topic t ps))), b') \<and>
    msg_pending V (send_all R ps' b') rx = on_topic t ps'"
  using tb.late_subscription [of R V b t ps ps'] assms
  by (simp add: send_all_def on_topic_def last_map)

theorem late_subscriber_witness:
  "\<exists>rx b'. subscribe_to_topic rt0 (str ''a'')
      (send_all rt0 [(str ''a'', [1]), (str ''b'', [7]), (str ''a'', [2])] bus0) =
      (Some (rx, Some (last (on_topic (str ''a'') [(str ''a'', [1]), (str ''b'', [7]), (str ''a'', [2])]))), b') \<and>
    msg_pending views0 (send_all rt0 [(str ''b'', [8]), (str ''a'', [3])] b') rx =
      on_topic (str ''a'') [(str ''b'', [8]), (str ''a'', [3])]"
  by (rule late_subscriber [OF runtime_laws0 bus_inv0])
    (simp_all add: on_topic_def str_def CHANNEL_BUFFER_SIZE_def)

end
