(* ===== verification/Key_Map.thy ===== *)
theory Key_Map
  imports Prelude
begin

text \<open>
  The interface of an ordered key-value map, and its provider: the model of \<open>BTreeMap\<close>, an
  association list with strictly ascending keys (\<open>BTreeMap::iter\<close> and \<open>values\<close> visit the keys
  in ascending order, so the order is part of the model).
\<close>

section \<open>The interface\<close>

locale key_map =
  fixes get :: "'m \<Rightarrow> 'k \<Rightarrow> 'v option"
    and put :: "'k \<Rightarrow> 'v \<Rightarrow> 'm \<Rightarrow> 'm"
    and del :: "'k \<Rightarrow> 'm \<Rightarrow> 'm"
    and new :: "'m"
    and inv :: "'m \<Rightarrow> bool"
  assumes inv_new: "inv new"
    and inv_put: "inv m \<Longrightarrow> inv (put k v m)"
    and inv_del: "inv m \<Longrightarrow> inv (del k m)"
    and get_new: "get new k = None"
    and get_put: "inv m \<Longrightarrow> get (put k v m) k' = (if k' = k then Some v else get m k')"
    and get_del: "inv m \<Longrightarrow> get (del k m) k' = (if k' = k then None else get m k')"
    and get_ext: "inv m \<Longrightarrow> inv m' \<Longrightarrow> (\<And>k. get m k = get m' k) \<Longrightarrow> m = m'"
begin

lemma get_put_same: "inv m \<Longrightarrow> get (put k v m) k = Some v"
  by (simp add: get_put)

lemma get_put_other: "inv m \<Longrightarrow> k' \<noteq> k \<Longrightarrow> get (put k v m) k' = get m k'"
  by (simp add: get_put)

lemma put_put: "inv m \<Longrightarrow> put k v (put k v' m) = put k v m"
  by (rule get_ext) (auto simp: inv_put get_put)

lemma put_same: "inv m \<Longrightarrow> get m k = Some v \<Longrightarrow> put k v m = m"
  by (rule get_ext) (auto simp: inv_put get_put)

lemma del_put: "inv m \<Longrightarrow> get m k = None \<Longrightarrow> del k (put k v m) = m"
  by (rule get_ext) (auto simp: inv_put inv_del get_put get_del)

end

section \<open>\<open>BTreeMap\<close>\<close>

text \<open>\<open>BTreeMap::get\<close>, \<open>insert\<close> (which replaces the value of a key already there) and \<open>remove\<close>.\<close>

definition bt_get :: "('k \<times> 'v) list \<Rightarrow> 'k \<Rightarrow> 'v option" where
  "bt_get m k = map_of m k"

fun bt_insert :: "'k::linorder \<Rightarrow> 'v \<Rightarrow> ('k \<times> 'v) list \<Rightarrow> ('k \<times> 'v) list" where
  "bt_insert k v [] = [(k, v)]"
| "bt_insert k v ((k', v') # m) =
     (if k < k' then (k, v) # (k', v') # m
      else if k = k' then (k, v) # m
      else (k', v') # bt_insert k v m)"

fun bt_remove :: "'k \<Rightarrow> ('k \<times> 'v) list \<Rightarrow> ('k \<times> 'v) list" where
  "bt_remove k [] = []"
| "bt_remove k ((k', v') # m) = (if k = k' then m else (k', v') # bt_remove k m)"

definition bt_inv :: "('k::linorder \<times> 'v) list \<Rightarrow> bool" where
  "bt_inv m \<longleftrightarrow> sorted_wrt (<) (List.map fst m)"

lemma bt_inv_Nil [simp]: "bt_inv []"
  by (simp add: bt_inv_def)

lemma bt_inv_Cons [simp]: "bt_inv ((k, v) # m) \<longleftrightarrow> (\<forall>k'\<in>fst ` set m. k < k') \<and> bt_inv m"
  by (auto simp: bt_inv_def)

lemma bt_get_Nil [simp]: "bt_get [] k = None"
  by (simp add: bt_get_def)

lemma bt_get_Cons [simp]: "bt_get ((k', v) # m) k = (if k = k' then Some v else bt_get m k)"
  by (simp add: bt_get_def)

lemma bt_get_SomeD: "bt_get m k = Some v \<Longrightarrow> (k, v) \<in> set m"
  by (simp add: bt_get_def map_of_SomeD)

lemma bt_get_None_iff: "bt_get m k = None \<longleftrightarrow> k \<notin> fst ` set m"
  by (simp add: bt_get_def map_of_eq_None_iff)

lemma bt_inv_distinct: "bt_inv m \<Longrightarrow> distinct (List.map fst m)"
  by (auto simp: bt_inv_def strict_sorted_iff)

lemma bt_get_mem_iff: "bt_inv m \<Longrightarrow> bt_get m k = Some v \<longleftrightarrow> (k, v) \<in> set m"
  by (simp add: bt_get_def bt_inv_distinct)

lemma bt_ball_iff:
  "bt_inv m \<Longrightarrow> (\<forall>y\<in>set m. P (fst y) (snd y)) \<longleftrightarrow> (\<forall>k v. bt_get m k = Some v \<longrightarrow> P k v)"
  by (force simp: bt_get_mem_iff)

lemma bt_insert_keys: "fst ` set (bt_insert k v m) = insert k (fst ` set m)"
  by (induction k v m rule: bt_insert.induct) auto

lemma bt_remove_sub: "set (bt_remove k m) \<subseteq> set m"
  by (induction k m rule: bt_remove.induct) auto

lemma bt_inv_insert [wf_intros]: "bt_inv m \<Longrightarrow> bt_inv (bt_insert k v m)"
  by (induction k v m rule: bt_insert.induct) (auto simp: bt_insert_keys)

lemma bt_inv_remove [wf_intros]: "bt_inv m \<Longrightarrow> bt_inv (bt_remove k m)"
  by (induction k m rule: bt_remove.induct) (use bt_remove_sub in fastforce)+

lemma bt_get_insert: "bt_get (bt_insert k v m) k' = (if k' = k then Some v else bt_get m k')"
  by (induction k v m rule: bt_insert.induct) auto

lemma bt_get_remove:
  "bt_inv m \<Longrightarrow> bt_get (bt_remove k m) k' = (if k' = k then None else bt_get m k')"
proof (induction k m rule: bt_remove.induct)
  case (2 k k1 v1 m)
  have "bt_get m k1 = None" using "2.prems" by (auto simp: bt_get_None_iff)
  with 2 show ?case by auto
qed simp

lemma bt_get_ext:
  assumes inv: "bt_inv m" "bt_inv m'" and eq: "\<And>k. bt_get m k = bt_get m' k"
  shows "m = m'"
proof (rule map_sorted_distinct_set_unique [where f = fst])
  show set_eq: "set m = set m'"
    using bt_get_mem_iff [OF inv(1)] bt_get_mem_iff [OF inv(2)] eq by auto
  show "inj_on fst (set m \<union> set m')"
    using bt_inv_distinct [OF inv(1)] set_eq by (simp add: distinct_map)
qed (use inv in \<open>auto simp: bt_inv_def strict_sorted_iff\<close>)

interpretation bt: key_map bt_get bt_insert bt_remove "[]" bt_inv
  by unfold_locales
    (auto simp: bt_inv_insert bt_inv_remove bt_get_insert bt_get_remove intro: bt_get_ext)

text \<open>A sum over the entries, when one of them is changed, added or taken out.\<close>

lemma bt_insert_sum_new:
  "bt_get m k = None \<Longrightarrow> (\<Sum>x\<leftarrow>bt_insert k v m. f x) = f (k, v) + (\<Sum>x\<leftarrow>m. (f x :: nat))"
  by (induction k v m rule: bt_insert.induct) auto

lemma bt_insert_sum_old:
  "bt_inv m \<Longrightarrow> bt_get m k = Some v' \<Longrightarrow>
   (\<Sum>x\<leftarrow>bt_insert k v m. f x) + f (k, v') = f (k, v) + (\<Sum>x\<leftarrow>m. (f x :: nat))"
proof (induction k v m rule: bt_insert.induct)
  case (2 k v k1 v1 m)
  have "bt_get m k = None" if "k < k1"
    using that "2.prems"(1) by (auto simp: bt_get_None_iff)
  with 2 show ?case by (auto split: if_splits)
qed simp

lemma bt_remove_sum:
  "bt_get m k = Some v \<Longrightarrow> (\<Sum>x\<leftarrow>bt_remove k m. f x) + f (k, v) = (\<Sum>x\<leftarrow>m. (f x :: nat))"
  by (induction k m rule: bt_remove.induct) auto

end
