(* ===== verification/Glob_Spec.thy ===== *)
theory Glob_Spec
  imports Prelude
begin

text \<open>
  The meaning of a glob pattern, independent of the tree: the wildcards of
  \<open>glob_tree/src/lib.rs\<close>, a reference matcher that consumes pattern and string together, and
  the declarative language of a pattern, which the reference matcher decides.
\<close>

definition MULTI_CHARACTER_WILDCARD :: rchar where
  "MULTI_CHARACTER_WILDCARD = Chr 42"

definition SINGLE_CHARACTER_WILDCARD :: rchar where
  "SINGLE_CHARACTER_WILDCARD = Chr 63"

lemma wildcards_distinct [simp]:
  "MULTI_CHARACTER_WILDCARD \<noteq> SINGLE_CHARACTER_WILDCARD"
  "SINGLE_CHARACTER_WILDCARD \<noteq> MULTI_CHARACTER_WILDCARD"
  by (simp_all add: MULTI_CHARACTER_WILDCARD_def SINGLE_CHARACTER_WILDCARD_def)

text \<open>
  The reference matcher. A multi-character wildcard stands for one or more characters: that is
  what the code's matcher implements (it consumes a character before it looks further).
\<close>

fun glob :: "rstring \<Rightarrow> rstring \<Rightarrow> bool" where
  "glob [] s = (s = [])"
| "glob (p # ps) [] = False"
| "glob (p # ps) (c # cs) =
     (if p = MULTI_CHARACTER_WILDCARD then glob ps cs \<or> glob (p # ps) cs
      else if p = SINGLE_CHARACTER_WILDCARD \<or> p = c then glob ps cs
      else False)"

lemma glob_Nil_right [simp]: "glob p [] \<longleftrightarrow> p = []"
  by (cases p) auto

text \<open>What one pattern character stands for, and the words a pattern stands for.\<close>

definition token_word :: "rchar \<Rightarrow> rstring \<Rightarrow> bool" where
  "token_word p w \<longleftrightarrow>
     (if p = MULTI_CHARACTER_WILDCARD then w \<noteq> []
      else if p = SINGLE_CHARACTER_WILDCARD then length w = 1
      else w = [p])"

definition glob_lang :: "rstring \<Rightarrow> rstring set" where
  "glob_lang p = {s. \<exists>ws. list_all2 token_word p ws \<and> s = concat ws}"

lemma token_word_nonempty: "token_word p w \<Longrightarrow> w \<noteq> []"
  by (auto simp: token_word_def split: if_splits)

lemma glob_lang_Nil [simp]: "s \<in> glob_lang [] \<longleftrightarrow> s = []"
  by (simp add: glob_lang_def)

lemma glob_lang_Cons:
  "s \<in> glob_lang (p # ps) \<longleftrightarrow> (\<exists>w s'. token_word p w \<and> s' \<in> glob_lang ps \<and> s = w @ s')"
  by (fastforce simp: glob_lang_def list_all2_Cons1)

lemma glob_lang_Cons_Nil: "[] \<notin> glob_lang (p # ps)"
  by (auto simp: glob_lang_Cons dest: token_word_nonempty)

lemma glob_lang_multi:
  "c # cs \<in> glob_lang (MULTI_CHARACTER_WILDCARD # ps) \<longleftrightarrow>
     cs \<in> glob_lang ps \<or> cs \<in> glob_lang (MULTI_CHARACTER_WILDCARD # ps)" (is "?l \<longleftrightarrow> ?r")
proof
  assume ?l
  then obtain w s' where w: "w \<noteq> []" "s' \<in> glob_lang ps" "c # cs = w @ s'"
    by (auto simp: glob_lang_Cons token_word_def)
  then obtain w' where w': "w = c # w'" "cs = w' @ s'"
    by (cases w) auto
  show ?r
  proof (cases "w' = []")
    case False
    with w w' have "cs \<in> glob_lang (MULTI_CHARACTER_WILDCARD # ps)"
      unfolding glob_lang_Cons token_word_def by auto
    then show ?thesis ..
  qed (use w w' in simp)
next
  assume ?r
  then obtain w s' where "s' \<in> glob_lang ps" "cs = w @ s'"
    by (auto simp: glob_lang_Cons)
  then show ?l
    unfolding glob_lang_Cons token_word_def
    by (intro exI [of _ "c # w"] exI [of _ s']) simp
qed

lemma token_word_single:
  "p \<noteq> MULTI_CHARACTER_WILDCARD \<Longrightarrow>
   token_word p w \<longleftrightarrow> (\<exists>d. w = [d] \<and> (p = SINGLE_CHARACTER_WILDCARD \<or> p = d))"
  by (auto simp: token_word_def length_Suc_conv)

lemma glob_lang_single:
  "p \<noteq> MULTI_CHARACTER_WILDCARD \<Longrightarrow>
   c # cs \<in> glob_lang (p # ps) \<longleftrightarrow> (p = SINGLE_CHARACTER_WILDCARD \<or> p = c) \<and> cs \<in> glob_lang ps"
  by (auto simp: glob_lang_Cons token_word_single)

lemma glob_iff_lang: "glob p s \<longleftrightarrow> s \<in> glob_lang p"
  by (induction p s rule: glob.induct)
    (simp_all add: glob_lang_Cons_Nil glob_lang_multi glob_lang_single)

text \<open>Patterns without wildcards match themselves only; the pattern \<open>*\<close> matches every non-empty string.\<close>

definition literal :: "rstring \<Rightarrow> bool" where
  "literal p \<longleftrightarrow> MULTI_CHARACTER_WILDCARD \<notin> set p \<and> SINGLE_CHARACTER_WILDCARD \<notin> set p"

lemma glob_literal: "literal p \<Longrightarrow> glob p s \<longleftrightarrow> s = p"
  by (induction p s rule: glob.induct) (auto simp: literal_def)

lemma glob_multi_only: "glob [MULTI_CHARACTER_WILDCARD] s \<longleftrightarrow> s \<noteq> []"
  by (induction s) auto

lemma glob_length: "glob p s \<Longrightarrow> length p \<le> length s"
  by (induction p s rule: glob.induct) (auto split: if_splits)

lemma glob_no_multi_length:
  "MULTI_CHARACTER_WILDCARD \<notin> set p \<Longrightarrow> glob p s \<Longrightarrow> length s = length p"
  by (induction p s rule: glob.induct) (auto split: if_splits)

end
