(* ===== verification/Glob_Node.thy ===== *)
theory Glob_Node
  imports Key_Map Glob_Spec "HOL-Library.List_Lexorder"
begin

text \<open>
  \<open>Node\<close> of \<open>glob_tree/src/lib.rs\<close>: one character of the stored patterns, its children by
  character, and a reference count. Counts are \<open>u64\<close> and wrap (the release build).
\<close>

section \<open>The node and its methods\<close>

datatype node =
  Node (node_token: "rchar option") (node_children: "(rchar \<times> node) list") (node_count: u64)

definition node_new :: "rchar option \<Rightarrow> node" where
  "node_new token = Node token [] 1"

definition insert_child :: "node \<Rightarrow> node \<Rightarrow> node" where
  "insert_child self child =
     (case node_token child of
        Some c \<Rightarrow> Node (node_token self) (bt_insert c child (node_children self)) (node_count self)
      | None \<Rightarrow> self)"

definition increment_count :: "node \<Rightarrow> node" where
  "increment_count self = Node (node_token self) (node_children self) (node_count self + 1)"

definition decrement_count :: "node \<Rightarrow> node" where
  "decrement_count self = Node (node_token self) (node_children self) (node_count self - 1)"

definition child_count :: "node \<Rightarrow> u64" where
  "child_count self = (\<Sum>x\<leftarrow>node_children self. node_count (snd x))"

definition is_terminal :: "node \<Rightarrow> bool" where
  "is_terminal self \<longleftrightarrow> child_count self < node_count self"

lemma size_child [termination_simp]:
  "x \<in> set cs \<Longrightarrow> size (snd x) < Suc (size_list (size_prod (\<lambda>_. 0) size) cs)"
proof (induction cs)
  case (Cons y cs)
  then show ?case by (cases y) auto
qed simp

lemma size_bt_get [termination_simp]:
  "bt_get (node_children n) c = Some ch \<Longrightarrow> size ch < size n"
  by (cases n) (auto dest!: bt_get_SomeD size_child)

text \<open>
  \<open>_list_strings_worker\<close> threads the output vector and the buffer through the children in key
  order; \<open>list_strings\<close> starts it on an empty output and buffer.
\<close>

fun list_strings_worker :: "node \<Rightarrow> rstring list \<times> rstring \<Rightarrow> rstring list \<times> rstring" where
  "list_strings_worker (Node token children n) (strings, buffer) =
     (let buffer = (case token of Some t \<Rightarrow> buffer @ [t] | None \<Rightarrow> buffer);
          strings = (if is_terminal (Node token children n) then strings @ [buffer] else strings);
          (strings, buffer) = fold (\<lambda>x st. list_strings_worker (snd x) st) children (strings, buffer)
      in (strings, if token \<noteq> None then butlast buffer else buffer))"

definition list_strings :: "node \<Rightarrow> rstring list" where
  "list_strings self = fst (list_strings_worker self ([], []))"

text \<open>
  \<open>_match_string_worker\<close>: the guards on the node's own token, then the direct child, the \<open>?\<close>
  child, the node itself again when it is a \<open>*\<close>, and the \<open>*\<close> child, in the code's order.
\<close>

function match_string_worker :: "node \<Rightarrow> bytes \<Rightarrow> nat \<Rightarrow> bool" where
  "match_string_worker self s pos =
     (if (case node_token self of
            None \<Rightarrow> False
          | Some t \<Rightarrow>
              length s \<le> pos \<or>
              t \<notin> set [byte_char (s ! pos), MULTI_CHARACTER_WILDCARD, SINGLE_CHARACTER_WILDCARD])
      then False
      else
        let next_pos = (if node_token self \<noteq> None then pos + 1 else pos) in
        if next_pos < length s then
          if (case bt_get (node_children self) (byte_char (s ! next_pos)) of
                Some node \<Rightarrow> match_string_worker node s next_pos | None \<Rightarrow> False) then True
          else if (case bt_get (node_children self) SINGLE_CHARACTER_WILDCARD of
                Some node \<Rightarrow> match_string_worker node s next_pos | None \<Rightarrow> False) then True
          else if (if node_token self = Some MULTI_CHARACTER_WILDCARD
                   then match_string_worker self s next_pos else False) then True
          else if (case bt_get (node_children self) MULTI_CHARACTER_WILDCARD of
                Some node \<Rightarrow> match_string_worker node s next_pos | None \<Rightarrow> False) then True
          else False
        else is_terminal self)"
  by pat_completeness auto
termination
  by (relation "measures [\<lambda>(n, s, pos). length s - pos, \<lambda>(n, s, pos). size n]")
    (auto simp: size_bt_get split: option.splits)

declare match_string_worker.simps [simp del]

definition match_string :: "node \<Rightarrow> rstring \<Rightarrow> bool" where
  "match_string self s = match_string_worker self (as_bytes s) 0"

section \<open>Paths and well-formed nodes\<close>

text \<open>The node a path of characters leads to, and the paths at whose end a pattern ends.\<close>

fun subnode :: "node \<Rightarrow> rstring \<Rightarrow> node option" where
  "subnode n [] = Some n"
| "subnode n (c # cs) =
     (case bt_get (node_children n) c of None \<Rightarrow> None | Some ch \<Rightarrow> subnode ch cs)"

definition terminal_at :: "node \<Rightarrow> rstring \<Rightarrow> bool" where
  "terminal_at n p \<longleftrightarrow> (case subnode n p of None \<Rightarrow> False | Some m \<Rightarrow> is_terminal m)"

text \<open>
  Well-formedness: children sorted by character, each stored under its own token, and no child
  with a count of zero.
\<close>

fun wf_node :: "node \<Rightarrow> bool" where
  "wf_node (Node token children n) \<longleftrightarrow>
     bt_inv children \<and>
     (\<forall>x\<in>set children. node_token (snd x) = Some (fst x) \<and> node_count (snd x) \<noteq> 0 \<and>
        wf_node (snd x))"

lemma terminal_at_Nil [simp]: "terminal_at n [] \<longleftrightarrow> is_terminal n"
  by (simp add: terminal_at_def)

lemma terminal_at_Cons:
  "terminal_at n (c # p) \<longleftrightarrow>
     (\<exists>ch. bt_get (node_children n) c = Some ch \<and> terminal_at ch p)"
  by (auto simp: terminal_at_def split: option.splits)

lemma wf_node_iff:
  "wf_node n \<longleftrightarrow>
     bt_inv (node_children n) \<and>
     (\<forall>c ch. bt_get (node_children n) c = Some ch \<longrightarrow>
        node_token ch = Some c \<and> node_count ch \<noteq> 0 \<and> wf_node ch)"
proof (cases n)
  case (Node tk cs k)
  have "wf_node n \<longleftrightarrow> bt_inv cs \<and> (\<forall>c ch. (c, ch) \<in> set cs \<longrightarrow>
      node_token ch = Some c \<and> node_count ch \<noteq> 0 \<and> wf_node ch)"
    unfolding Node wf_node.simps by force
  then show ?thesis by (auto simp: Node bt_get_mem_iff)
qed

lemma wf_node_child:
  assumes "wf_node n" and "bt_get (node_children n) c = Some ch"
  shows "node_token ch = Some c" "node_count ch \<noteq> 0" "wf_node ch"
  using assms by (auto simp: wf_node_iff [of n])

lemma wf_node_bt_inv: "wf_node n \<Longrightarrow> bt_inv (node_children n)"
  by (simp add: wf_node_iff [of n])

lemma subnode_append:
  "subnode n (p @ q) = (case subnode n p of None \<Rightarrow> None | Some m \<Rightarrow> subnode m q)"
  by (induction n p rule: subnode.induct) (auto split: option.splits)

lemma wf_subnode: "wf_node n \<Longrightarrow> subnode n p = Some m \<Longrightarrow> wf_node m"
  by (induction n p rule: subnode.induct) (auto dest: wf_node_child split: option.splits)

section \<open>Matching\<close>

text \<open>
  What a node accepts: a string matched by its own token followed by a path below it at whose end a
  pattern ends. \<open>accepts_below\<close> leaves the node's own token out.
\<close>

definition own_token :: "node \<Rightarrow> rstring" where
  "own_token n = (case node_token n of None \<Rightarrow> [] | Some t \<Rightarrow> [t])"

definition accepts :: "node \<Rightarrow> rstring \<Rightarrow> bool" where
  "accepts n xs \<longleftrightarrow> (\<exists>p. terminal_at n p \<and> glob (own_token n @ p) xs)"

definition accepts_below :: "node \<Rightarrow> rstring \<Rightarrow> bool" where
  "accepts_below n xs \<longleftrightarrow> (\<exists>p. terminal_at n p \<and> glob p xs)"

definition accepts_child :: "node \<Rightarrow> rchar \<Rightarrow> rstring \<Rightarrow> bool" where
  "accepts_child n t xs \<longleftrightarrow>
     (case bt_get (node_children n) t of None \<Rightarrow> False | Some ch \<Rightarrow> accepts ch xs)"

lemma accepts_below_Nil: "accepts_below n [] \<longleftrightarrow> is_terminal n"
  by (simp add: accepts_below_def)

lemma accepts_below_Cons:
  assumes wf: "wf_node n"
  shows "accepts_below n (c # cs) \<longleftrightarrow>
    accepts_child n c (c # cs) \<or> accepts_child n SINGLE_CHARACTER_WILDCARD (c # cs) \<or>
    accepts_child n MULTI_CHARACTER_WILDCARD (c # cs)" (is "?l \<longleftrightarrow> ?r")
proof
  assume ?l
  then obtain p where p: "terminal_at n p" "glob p (c # cs)" by (auto simp: accepts_below_def)
  then obtain t q where tq: "p = t # q" by (cases p) auto
  with p obtain ch where ch: "bt_get (node_children n) t = Some ch" "terminal_at ch q"
    by (auto simp: terminal_at_Cons)
  have "t = c \<or> t = SINGLE_CHARACTER_WILDCARD \<or> t = MULTI_CHARACTER_WILDCARD"
    using p tq by (auto split: if_splits)
  moreover have "accepts_child n t (c # cs)"
    using p tq ch wf_node_child [OF wf ch(1)]
    by (auto simp: accepts_child_def accepts_def own_token_def simp del: glob.simps)
  ultimately show ?r by auto
next
  assume ?r
  then obtain t ch where "bt_get (node_children n) t = Some ch" "accepts ch (c # cs)"
    by (auto simp: accepts_child_def split: option.splits)
  moreover from this obtain p where "terminal_at ch p" "glob (t # p) (c # cs)"
    using wf_node_child [OF wf] by (auto simp: accepts_def own_token_def simp del: glob.simps)
  ultimately have "terminal_at n (t # p) \<and> glob (t # p) (c # cs)"
    unfolding terminal_at_Cons by blast
  then show ?l unfolding accepts_below_def by blast
qed

lemma accepts_token:
  assumes "node_token n = Some t"
  shows "\<not> accepts n []"
    and "accepts n (d # xs) \<longleftrightarrow>
      t \<in> {d, MULTI_CHARACTER_WILDCARD, SINGLE_CHARACTER_WILDCARD} \<and>
      (accepts_below n xs \<or> t = MULTI_CHARACTER_WILDCARD \<and> accepts n xs)"
  using assms by (auto simp: accepts_def accepts_below_def own_token_def split: if_splits)

lemma accepts_root: "node_token n = None \<Longrightarrow> accepts n xs \<longleftrightarrow> accepts_below n xs"
  by (simp add: accepts_def accepts_below_def own_token_def)

lemma match_step:
  assumes wf: "wf_node n" and lt: "pos < length s"
    and ch: "\<And>t ch. bt_get (node_children n) t = Some ch \<Longrightarrow>
      match_string_worker ch s pos \<longleftrightarrow> accepts ch (drop pos (List.map byte_char s))"
  shows "accepts_below n (drop pos (List.map byte_char s)) \<longleftrightarrow>
    (\<exists>t\<in>{byte_char (s ! pos), SINGLE_CHARACTER_WILDCARD, MULTI_CHARACTER_WILDCARD}.
       case bt_get (node_children n) t of Some node \<Rightarrow> match_string_worker node s pos
       | None \<Rightarrow> False)"
proof -
  define cs where "cs = drop (Suc pos) (List.map byte_char s)"
  have drop_eq: "drop pos (List.map byte_char s) = byte_char (s ! pos) # cs"
    using lt by (simp add: cs_def Cons_nth_drop_Suc [symmetric])
  show ?thesis
    using ch unfolding drop_eq accepts_below_Cons [OF wf] accepts_child_def
    by (auto split: option.splits)
qed

text \<open>The matcher's equation, by the node's token.\<close>

definition some_child_matches :: "node \<Rightarrow> bytes \<Rightarrow> nat \<Rightarrow> bool" where
  "some_child_matches n s pos \<longleftrightarrow>
     (\<exists>t\<in>{byte_char (s ! pos), SINGLE_CHARACTER_WILDCARD, MULTI_CHARACTER_WILDCARD}.
        case bt_get (node_children n) t of Some node \<Rightarrow> match_string_worker node s pos
        | None \<Rightarrow> False)"

lemma match_worker_root:
  "node_token n = None \<Longrightarrow>
   match_string_worker n s pos \<longleftrightarrow>
     (if pos < length s then some_child_matches n s pos else is_terminal n)"
  by (simp add: match_string_worker.simps [of n s pos] some_child_matches_def)

lemma match_worker_token:
  "node_token n = Some t \<Longrightarrow>
   match_string_worker n s pos \<longleftrightarrow>
     pos < length s \<and>
     t \<in> {byte_char (s ! pos), MULTI_CHARACTER_WILDCARD, SINGLE_CHARACTER_WILDCARD} \<and>
     (if Suc pos < length s
      then some_child_matches n s (Suc pos) \<or>
        t = MULTI_CHARACTER_WILDCARD \<and> match_string_worker n s (Suc pos)
      else is_terminal n)"
  by (auto simp: match_string_worker.simps [of n s pos] some_child_matches_def)

lemma match_token_node:
  assumes "wf_node n" and "node_token n = Some t"
  shows "match_string_worker n s pos \<longleftrightarrow> accepts n (drop pos (List.map byte_char s))"
  using assms
proof (induction "length s - pos" arbitrary: n t pos rule: less_induct)
  case less
  note wf = less.prems(1) and tok = less.prems(2)
  let ?S = "List.map byte_char s"
  show ?case
  proof (cases "pos < length s")
    case False
    then show ?thesis using tok by (simp add: match_worker_token accepts_token)
  next
    case pos: True
    have drop_eq: "drop pos ?S = byte_char (s ! pos) # drop (Suc pos) ?S"
      using pos by (simp add: Cons_nth_drop_Suc [symmetric])
    have self: "match_string_worker n s (Suc pos) \<longleftrightarrow> accepts n (drop (Suc pos) ?S)"
      using less.hyps [OF _ wf tok, of "Suc pos"] pos by simp
    have ch: "match_string_worker ch s (Suc pos) \<longleftrightarrow> accepts ch (drop (Suc pos) ?S)"
      if "bt_get (node_children n) k = Some ch" for k ch
      using less.hyps [OF _ wf_node_child(3,1) [OF wf that], of "Suc pos"] pos by simp
    have below: "accepts_below n (drop (Suc pos) ?S) \<longleftrightarrow>
        (if Suc pos < length s then some_child_matches n s (Suc pos) else is_terminal n)"
      using match_step [OF wf _ ch] by (simp add: accepts_below_Nil some_child_matches_def)
    show ?thesis
      unfolding match_worker_token [OF tok, of s pos] drop_eq accepts_token(2) [OF tok] below
      using pos self tok by (auto simp: accepts_token(1))
  qed
qed

theorem match_string_worker_iff:
  assumes wf: "wf_node n"
  shows "match_string_worker n s pos \<longleftrightarrow> accepts n (drop pos (List.map byte_char s))"
proof (cases "node_token n")
  case None
  have ch: "match_string_worker ch s pos \<longleftrightarrow> accepts ch (drop pos (List.map byte_char s))"
    if "bt_get (node_children n) k = Some ch" for k ch
    using match_token_node wf_node_child(3,1) [OF wf that] by blast
  show ?thesis
    using match_step [OF wf _ ch] None
    by (simp add: match_worker_root accepts_root accepts_below_Nil some_child_matches_def)
qed (use match_token_node [OF wf] in blast)

end
