(* ===== verification/Glob_List.thy ===== *)
theory Glob_List
  imports Glob_Node
begin

text \<open>
  \<open>Node::list_strings\<close> and its worker against the pure listing \<open>paths\<close> of the terminal paths of
  a node: the buffer is restored, the output is extended by the node's strings, and the listing is
  ascending, without repetition, and complete.
\<close>

fun paths :: "node \<Rightarrow> rstring list" where
  "paths (Node token children n) =
     (if is_terminal (Node token children n) then [[]] else []) @
     concat (List.map (\<lambda>x. List.map ((#) (fst x)) (paths (snd x))) children)"

lemma fold_list_worker:
  assumes "\<And>x ss buf. x \<in> set xs \<Longrightarrow>
      list_strings_worker (snd x) (ss, buf) =
        (ss @ List.map (\<lambda>p. buf @ fst x # p) (paths (snd x)), buf)"
  shows "fold (\<lambda>x st. list_strings_worker (snd x) st) xs (ss, buf) =
    (ss @ concat (List.map (\<lambda>x. List.map (\<lambda>p. buf @ fst x # p) (paths (snd x))) xs), buf)"
  using assms by (induction xs arbitrary: ss) auto

lemma list_strings_worker_eq:
  "wf_node n \<Longrightarrow>
   list_strings_worker n (ss, buf) =
     (ss @ List.map (\<lambda>p. buf @ own_token n @ p) (paths n), buf)"
proof (induction n arbitrary: ss buf rule: wf_node.induct)
  case (1 tk cs k)
  have child: "list_strings_worker (snd x) (ss', buf') =
      (ss' @ List.map (\<lambda>p. buf' @ fst x # p) (paths (snd x)), buf')"
    if "x \<in> set cs" for x ss' buf'
  proof -
    have "node_token (snd x) = Some (fst x)" "wf_node (snd x)" using "1.prems" that by auto
    with "1.IH" [OF that, of ss' buf'] show ?thesis by (simp add: own_token_def)
  qed
  show ?case
    using fold_list_worker [OF child]
    by (cases tk) (auto simp: own_token_def map_concat comp_def)
qed

lemma list_strings_eq: "wf_node n \<Longrightarrow> list_strings n = List.map ((@) (own_token n)) (paths n)"
  by (simp add: list_strings_def list_strings_worker_eq)

lemma set_paths: "wf_node n \<Longrightarrow> p \<in> set (paths n) \<longleftrightarrow> terminal_at n p"
proof (induction n arbitrary: p rule: wf_node.induct)
  case (1 tk cs k)
  then have cs: "bt_inv cs" by simp
  show ?case
  proof (cases p)
    case (Cons c q)
    have "p \<in> set (paths (Node tk cs k)) \<longleftrightarrow> (\<exists>x\<in>set cs. fst x = c \<and> q \<in> set (paths (snd x)))"
      unfolding Cons by force
    also have "\<dots> \<longleftrightarrow> (\<exists>ch. (c, ch) \<in> set cs \<and> terminal_at ch q)"
      using 1 by force
    also have "\<dots> \<longleftrightarrow> terminal_at (Node tk cs k) p"
      by (simp add: Cons terminal_at_Cons bt_get_mem_iff [OF cs])
    finally show ?thesis .
  qed auto
qed

lemma sorted_concat_children:
  assumes "bt_inv cs" and "\<And>x. x \<in> set cs \<Longrightarrow> sorted_wrt (<) (f x :: rstring list)"
  shows "sorted_wrt (<) (concat (List.map (\<lambda>x. List.map ((#) (fst x)) (f x)) cs))"
  using assms
proof (induction cs)
  case (Cons x cs)
  have "sorted_wrt (<) (List.map ((#) (fst x)) (f x))"
    using Cons.prems(2) [of x] by (simp add: sorted_wrt_map)
  moreover have "sorted_wrt (<) (concat (List.map (\<lambda>x. List.map ((#) (fst x)) (f x)) cs))"
    using Cons by (cases x) auto
  moreover have "fst x < fst y" if "y \<in> set cs" for y
    using Cons.prems(1) that by (cases x) auto
  ultimately show ?case by (auto simp: sorted_wrt_append)
qed simp

lemma sorted_paths: "wf_node n \<Longrightarrow> sorted_wrt (<) (paths n)"
proof (induction n rule: wf_node.induct)
  case (1 tk cs k)
  then have "sorted_wrt (<) (concat (List.map (\<lambda>x. List.map ((#) (fst x)) (paths (snd x))) cs))"
    by (intro sorted_concat_children) auto
  then show ?case by (auto simp: sorted_wrt_append)
qed

end
