(* ===== verification/Glob_Tree.thy ===== *)
theory Glob_Tree
  imports Glob_List
begin

text \<open>
  \<open>GlobTree\<close> of \<open>glob_tree/src/lib.rs\<close>: the operations, the invariant every operation keeps, and
  what \<open>check\<close>, \<open>contains\<close>, \<open>list\<close> and \<open>remove\<close> compute.
  The loops over \<open>pattern.chars()\<close> move a cursor down the tree; here they recurse on the pattern
  and put the changed child back, which is the write through the mutable borrow.
\<close>

section \<open>Operations\<close>

record glob_tree =
  root :: node

definition glob_tree_new :: glob_tree where
  "glob_tree_new = \<lparr>root = Node None [] 0\<rparr>"

text \<open>Writing a child back through \<open>children.get_mut(&c)\<close>, and \<open>children.remove(&c)\<close>.\<close>

definition set_child :: "node \<Rightarrow> rchar \<Rightarrow> node \<Rightarrow> node" where
  "set_child cursor c child =
     Node (node_token cursor) (bt_insert c child (node_children cursor)) (node_count cursor)"

definition del_child :: "node \<Rightarrow> rchar \<Rightarrow> node" where
  "del_child cursor c =
     Node (node_token cursor) (bt_remove c (node_children cursor)) (node_count cursor)"

text \<open>
  In the \<open>None\<close> branch the cursor moves to the node just inserted; that the lookup after
  \<open>insert_child\<close> finds it (the \<open>expect\<close> of the code) is \<open>insert_child_get\<close> below.
\<close>

fun insert_at :: "node \<Rightarrow> rstring \<Rightarrow> node" where
  "insert_at cursor [] = increment_count cursor"
| "insert_at cursor (c # cs) =
     (case bt_get (node_children cursor) c of
        Some child \<Rightarrow> set_child cursor c (insert_at (increment_count child) cs)
      | None \<Rightarrow>
          (let child = node_new (Some c); cursor = insert_child cursor child
           in set_child cursor c (insert_at child cs)))"

definition tree_insert :: "glob_tree \<Rightarrow> rstring \<Rightarrow> glob_tree" where
  "tree_insert self pattern = self\<lparr>root := insert_at (root self) pattern\<rparr>"

definition tree_check :: "glob_tree \<Rightarrow> rstring \<Rightarrow> bool" where
  "tree_check self s = match_string (root self) s"

fun contains_at :: "node \<Rightarrow> rstring \<Rightarrow> bool" where
  "contains_at cursor [] = is_terminal cursor"
| "contains_at cursor (c # cs) =
     (case bt_get (node_children cursor) c of
        None \<Rightarrow> False
      | Some child \<Rightarrow> contains_at child cs)"

definition tree_contains :: "glob_tree \<Rightarrow> rstring \<Rightarrow> bool" where
  "tree_contains self pattern = contains_at (root self) pattern"

definition tree_list :: "glob_tree \<Rightarrow> rstring list" where
  "tree_list self = list_strings (root self)"

text \<open>\<open>Not_found\<close> is the \<open>Err("Not found")\<close> of \<open>remove\<close>, \<open>Unwrap_none\<close> a panic of its \<open>unwrap\<close>.\<close>

datatype glob_error = Not_found | Unwrap_none

fun remove_at :: "node \<Rightarrow> rstring \<Rightarrow> glob_error + node" where
  "remove_at cursor [] = Inr cursor"
| "remove_at cursor (c # cs) =
     (case bt_get (node_children cursor) c of
        None \<Rightarrow> Inl Unwrap_none
      | Some child \<Rightarrow>
          if node_count child = 1 then Inr (del_child cursor c)
          else
            (case remove_at (decrement_count child) cs of
               Inl e \<Rightarrow> Inl e
             | Inr child' \<Rightarrow> Inr (set_child cursor c child')))"

definition tree_remove :: "glob_tree \<Rightarrow> rstring \<Rightarrow> glob_error + glob_tree" where
  "tree_remove self pattern =
     (if \<not> tree_contains self pattern then Inl Not_found
      else
        (case remove_at (root self) pattern of
           Inl e \<Rightarrow> Inl e
         | Inr n \<Rightarrow> Inr (self\<lparr>root := n\<rparr>)))"

section \<open>Accessors of changed nodes\<close>

lemma node_fields [simp]:
  "node_token (set_child n c m) = node_token n"
  "node_count (set_child n c m) = node_count n"
  "node_children (set_child n c m) = bt_insert c m (node_children n)"
  "node_token (del_child n c) = node_token n"
  "node_count (del_child n c) = node_count n"
  "node_children (del_child n c) = bt_remove c (node_children n)"
  "node_token (increment_count n) = node_token n"
  "node_count (increment_count n) = node_count n + 1"
  "node_children (increment_count n) = node_children n"
  "node_token (decrement_count n) = node_token n"
  "node_count (decrement_count n) = node_count n - 1"
  "node_children (decrement_count n) = node_children n"
  "node_token (node_new t) = t"
  "node_count (node_new t) = 1"
  "node_children (node_new t) = []"
  by (simp_all add: set_child_def del_child_def increment_count_def decrement_count_def
      node_new_def)

lemma insert_child_token:
  "node_token ch = Some c \<Longrightarrow> insert_child n ch = set_child n c ch"
  by (simp add: insert_child_def set_child_def)

lemma insert_child_get:
  "node_token ch = Some c \<Longrightarrow> bt_get (node_children (insert_child n ch)) c = Some ch"
  by (simp add: insert_child_token bt_get_insert)

lemma set_child_set_child [simp]:
  "bt_inv (node_children n) \<Longrightarrow> set_child (set_child n c m) c m' = set_child n c m'"
  by (simp add: set_child_def bt.put_put)

lemma insert_at_Cons:
  assumes "bt_inv (node_children n)"
  shows "insert_at n (c # cs) =
    set_child n c (insert_at (case bt_get (node_children n) c of
      Some child \<Rightarrow> increment_count child | None \<Rightarrow> node_new (Some c)) cs)"
  using assms by (auto simp: Let_def insert_child_token split: option.splits)

lemma insert_at_token [simp]: "node_token (insert_at n p) = node_token n"
  by (induction n p rule: insert_at.induct)
    (auto simp: Let_def insert_child_token split: option.splits)

lemma remove_at_token: "remove_at n p = Inr n' \<Longrightarrow> node_token n' = node_token n"
  by (cases p) (auto split: option.splits if_splits sum.splits)

lemma contains_at_iff: "contains_at n p \<longleftrightarrow> terminal_at n p"
  by (induction n p rule: contains_at.induct)
    (auto simp: terminal_at_Cons split: option.splits)

section \<open>The invariant and the weight of a tree\<close>

text \<open>
  The weight of a node bounds every count and every sum of counts below it, so that a weight below
  \<open>2^64\<close> means that no \<open>u64\<close> arithmetic of the tree wraps (and that the checked arithmetic of
  a debug build does not panic).
\<close>

fun weight :: "node \<Rightarrow> nat" where
  "weight (Node token children n) = unat n + (\<Sum>x\<leftarrow>children. weight (snd x))"

definition glob_inv :: "glob_tree \<Rightarrow> bool" where
  "glob_inv t \<longleftrightarrow> node_token (root t) = None \<and> wf_node (root t)"

lemma weight_eq: "weight n = unat (node_count n) + (\<Sum>x\<leftarrow>node_children n. weight (snd x))"
  by (cases n) simp

lemma count_le_weight: "unat (node_count n) \<le> weight n"
  by (simp add: weight_eq [of n])

lemma sum_list_mono_mem: "x \<in> set xs \<Longrightarrow> f x \<le> (\<Sum>x\<leftarrow>xs. (f x :: nat))"
  by (induction xs) auto

lemma weight_child: "bt_get (node_children n) c = Some ch \<Longrightarrow>
    unat (node_count n) + weight ch \<le> weight n"
  using sum_list_mono_mem [OF bt_get_SomeD, of "node_children n" c ch "\<lambda>x. weight (snd x)"]
  unfolding weight_eq [of n] by simp

lemma child_sum_le_weight:
  "unat (node_count n) + (\<Sum>x\<leftarrow>node_children n. unat (node_count (snd x))) \<le> weight n"
  by (simp add: weight_eq [of n] count_le_weight sum_list_mono)

lemma is_terminal_iff:
  assumes "weight n < 2 ^ 64"
  shows "is_terminal n \<longleftrightarrow>
    (\<Sum>x\<leftarrow>node_children n. unat (node_count (snd x))) < unat (node_count n)"
  using child_sum_le_weight [of n] assms
  by (simp add: is_terminal_def child_count_def word_less_nat_alt unat_u64_sum_list)

lemma weight_set_child_new:
  "bt_get (node_children n) c = None \<Longrightarrow> weight (set_child n c m) = weight n + weight m"
  by (simp add: weight_eq [of n] weight_eq [of "set_child n c m"] bt_insert_sum_new)

lemma weight_set_child_old:
  "bt_inv (node_children n) \<Longrightarrow> bt_get (node_children n) c = Some ch \<Longrightarrow>
   weight (set_child n c m) + weight ch = weight n + weight m"
  using bt_insert_sum_old [of "node_children n" c ch "\<lambda>x. weight (snd x)" m]
  by (simp add: weight_eq [of n] weight_eq [of "set_child n c m"])

lemma weight_del_child:
  "bt_get (node_children n) c = Some ch \<Longrightarrow> weight (del_child n c) + weight ch = weight n"
  using bt_remove_sum [of "node_children n" c ch "\<lambda>x. weight (snd x)"]
  by (simp add: weight_eq [of n] weight_eq [of "del_child n c"])

lemma weight_increment: "weight n + 1 < 2 ^ 64 \<Longrightarrow> weight (increment_count n) = weight n + 1"
  using count_le_weight [of n]
  by (simp add: weight_eq [of n] weight_eq [of "increment_count n"] unat_u64_Suc)

lemma weight_decrement:
  "node_count n \<noteq> 0 \<Longrightarrow> weight (decrement_count n) + 1 = weight n"
  using unat_gt_0 [of "node_count n"]
  by (simp add: weight_eq [of n] weight_eq [of "decrement_count n"] unat_u64_pred)

lemma weight_node_new [simp]: "weight (node_new t) = 1"
  by (simp add: node_new_def)

lemma wf_set_child [wf_intros]:
  "wf_node n \<Longrightarrow> wf_node m \<Longrightarrow> node_token m = Some c \<Longrightarrow> node_count m \<noteq> 0 \<Longrightarrow>
   wf_node (set_child n c m)"
  by (simp add: wf_node_iff [of n] wf_node_iff [of "set_child n c m"] bt_inv_insert bt_get_insert)

lemma wf_del_child [wf_intros]: "wf_node n \<Longrightarrow> wf_node (del_child n c)"
  by (simp add: wf_node_iff [of n] wf_node_iff [of "del_child n c"] bt_inv_remove bt_get_remove)

lemma wf_increment [wf_intros]: "wf_node n \<Longrightarrow> wf_node (increment_count n)"
  by (simp add: wf_node_iff [of n] wf_node_iff [of "increment_count n"])

lemma wf_decrement [wf_intros]: "wf_node n \<Longrightarrow> wf_node (decrement_count n)"
  by (simp add: wf_node_iff [of n] wf_node_iff [of "decrement_count n"])

lemma wf_node_new [wf_intros]: "wf_node (node_new t)"
  by (simp add: node_new_def)

lemma count_increment_nonzero:
  "weight n + 1 < 2 ^ 64 \<Longrightarrow> node_count (increment_count n) \<noteq> 0"
  using count_le_weight [of n] unat_u64_Suc [of "node_count n"] by (auto simp: unat_eq_zero)

lemma insert_at_count_nonzero:
  "weight n + 1 < 2 ^ 64 \<Longrightarrow> node_count n \<noteq> 0 \<Longrightarrow> node_count (insert_at n p) \<noteq> 0"
  using count_increment_nonzero [of n]
  by (cases p) (auto simp: Let_def insert_child_token split: option.splits)

lemma insert_at_wf_weight:
  "wf_node n \<Longrightarrow> weight n + length p + 1 < 2 ^ 64 \<Longrightarrow>
   wf_node (insert_at n p) \<and> weight (insert_at n p) = weight n + length p + 1"
proof (induction p arbitrary: n)
  case Nil
  then show ?case by (simp add: wf_increment weight_increment)
next
  case (Cons c cs)
  note wf = Cons.prems(1) and room = Cons.prems(2)
  let ?ch = "case bt_get (node_children n) c of Some child \<Rightarrow> increment_count child
    | None \<Rightarrow> node_new (Some c)"
  have ch: "wf_node ?ch \<and> node_token ?ch = Some c \<and> node_count ?ch \<noteq> 0 \<and>
      weight ?ch + length cs + 1 < 2 ^ 64"
  proof (cases "bt_get (node_children n) c")
    case None
    with room show ?thesis by (simp add: wf_node_new)
  next
    case (Some ch)
    with room weight_child [OF Some] wf_node_child [OF wf Some]
      count_increment_nonzero [of ch] show ?thesis
      by (simp add: wf_increment weight_increment)
  qed
  then have ih: "wf_node (insert_at ?ch cs)" "weight (insert_at ?ch cs) = weight ?ch + length cs + 1"
    using Cons.IH by blast+
  have eq: "insert_at n (c # cs) = set_child n c (insert_at ?ch cs)"
    by (rule insert_at_Cons) (rule wf_node_bt_inv [OF wf])
  have "wf_node (insert_at n (c # cs))"
    unfolding eq using ch ih wf by (intro wf_set_child insert_at_count_nonzero) auto
  moreover have "weight (insert_at n (c # cs)) = weight n + length (c # cs) + 1"
  proof (cases "bt_get (node_children n) c")
    case None
    then show ?thesis unfolding eq ih(2) weight_set_child_new [OF None] by (simp add: ih(2))
  next
    case (Some ch)
    then show ?thesis
      using weight_set_child_old [OF wf_node_bt_inv [OF wf] Some, of "insert_at ?ch cs"] ih(2)
        weight_child [OF Some] room
      unfolding eq by (simp add: weight_increment)
  qed
  ultimately show ?case ..
qed

lemma remove_at_wf_weight:
  "wf_node n \<Longrightarrow> remove_at n p = Inr n' \<Longrightarrow>
   wf_node n' \<and> weight n' \<le> weight n \<and> node_token n' = node_token n \<and> node_count n' = node_count n"
proof (induction n p arbitrary: n' rule: remove_at.induct)
  case (2 n c cs)
  then obtain ch where ch: "bt_get (node_children n) c = Some ch"
    by (auto split: option.splits)
  note chw = wf_node_child [OF "2.prems"(1) ch]
  show ?case
  proof (cases "node_count ch = 1")
    case True
    then show ?thesis using "2.prems" ch weight_del_child [OF ch] by (auto simp: wf_del_child)
  next
    case False
    with "2.prems" ch obtain ch' where ch': "remove_at (decrement_count ch) cs = Inr ch'"
        "n' = set_child n c ch'"
      by (auto split: sum.splits)
    have "wf_node ch' \<and> weight ch' \<le> weight (decrement_count ch) \<and>
        node_token ch' = Some c \<and> node_count ch' = node_count ch - 1"
      using "2.IH" [OF ch False _ ch'(1)] chw by (simp add: wf_decrement)
    moreover have "node_count ch - 1 \<noteq> 0" using False by simp
    ultimately show ?thesis
      using "2.prems"(1) ch'(2) weight_decrement [OF chw(2)]
        weight_set_child_old [OF wf_node_bt_inv [OF "2.prems"(1)] ch, of ch']
      by (auto simp: wf_set_child)
  qed
qed simp

end
