(* ===== verification/Glob_Remove.thy ===== *)
theory Glob_Remove
  imports Glob_Tree
begin

text \<open>
  What \<open>GlobTree::remove\<close> does to a tree: it fails exactly on patterns the tree does not contain,
  its \<open>unwrap\<close> never panics, it takes back an insertion exactly when the pattern has a prefix of
  its own, and it never makes another pattern appear.
\<close>

section \<open>Paths through changed nodes\<close>

lemma subnode_Cons_Some:
  "subnode n (c # q) = Some m \<longleftrightarrow>
     (\<exists>ch. bt_get (node_children n) c = Some ch \<and> subnode ch q = Some m)"
  by (auto split: option.splits)

lemma subnode_set_child [path_simps]:
  "bt_inv (node_children n) \<Longrightarrow>
   subnode (set_child n c m) (d # q) = (if d = c then subnode m q else subnode n (d # q))"
  by (simp add: bt_get_insert)

lemma subnode_del_child [path_simps]:
  "bt_inv (node_children n) \<Longrightarrow>
   subnode (del_child n c) (d # q) = (if d = c then None else subnode n (d # q))"
  by (simp add: bt_get_remove)

lemma subnode_count_change [path_simps]:
  "q \<noteq> [] \<Longrightarrow> subnode (increment_count n) q = subnode n q"
  "q \<noteq> [] \<Longrightarrow> subnode (decrement_count n) q = subnode n q"
  by (cases q; simp)+

lemma terminal_at_subnode:
  "subnode n p = Some m \<Longrightarrow> terminal_at n (p @ q) \<longleftrightarrow> terminal_at m q"
  by (simp add: terminal_at_def subnode_append)

lemma terminal_at_path: "terminal_at n p \<Longrightarrow> subnode n p \<noteq> None"
  by (auto simp: terminal_at_def split: option.splits)

section \<open>No panic, and the error\<close>

lemma remove_at_total: "subnode n p \<noteq> None \<Longrightarrow> \<exists>n'. remove_at n p = Inr n'"
proof (induction n p rule: remove_at.induct)
  case (2 n c cs)
  then obtain ch where ch: "bt_get (node_children n) c = Some ch" "subnode ch cs \<noteq> None"
    by (auto split: option.splits)
  have "subnode (decrement_count ch) cs \<noteq> None"
    using ch(2) by (cases cs) auto
  with 2 ch show ?case by fastforce
qed simp

lemma tree_remove_cases:
  "tree_remove t p =
     (if tree_contains t p then Inr (t\<lparr>root := projr (remove_at (root t) p)\<rparr>) else Inl Not_found)"
  using remove_at_total [of "root t" p] terminal_at_path [of "root t" p]
  by (auto simp: tree_remove_def tree_contains_def contains_at_iff)

section \<open>Removing takes an insertion back\<close>

lemma insert_at_nonempty_count:
  "p \<noteq> [] \<Longrightarrow> node_count (insert_at n p) = node_count n"
  by (cases p) (auto simp: Let_def insert_child_token split: option.splits)

lemma decrement_insert_increment:
  assumes "p \<noteq> []" and "bt_inv (node_children n)"
  shows "decrement_count (insert_at (increment_count n) p) = insert_at n p"
proof -
  obtain c cs where p: "p = c # cs" using assms(1) by (cases p) auto
  show ?thesis using assms(2)
    by (simp add: p insert_at_Cons del: insert_at.simps)
      (simp add: decrement_count_def set_child_def increment_count_def)
qed

lemma del_set_child_new:
  "bt_inv (node_children n) \<Longrightarrow> bt_get (node_children n) c = None \<Longrightarrow>
   del_child (set_child n c m) c = n"
  by (cases n) (simp add: del_child_def set_child_def bt.del_put)

lemma set_child_same:
  "bt_inv (node_children n) \<Longrightarrow> bt_get (node_children n) c = Some m \<Longrightarrow> set_child n c m = n"
  by (cases n) (simp add: set_child_def bt.put_same)

lemma remove_at_insert_at:
  "wf_node n \<Longrightarrow> subnode n q = None \<Longrightarrow> q \<noteq> [] \<Longrightarrow> strict_prefix q p \<Longrightarrow>
   remove_at (insert_at n p) p = Inr n"
proof (induction p arbitrary: n q)
  case (Cons c cs)
  note wf = Cons.prems(1)
  note inv = wf_node_bt_inv [OF wf]
  obtain q' where q: "q = c # q'" and q': "strict_prefix q' cs"
    using Cons.prems(3,4) by (cases q) auto
  have cs: "cs \<noteq> []" using q' by auto
  show ?case
  proof (cases "bt_get (node_children n) c")
    case None
    then show ?thesis
      by (simp add: insert_at_Cons inv bt_get_insert insert_at_nonempty_count cs
          del_set_child_new del: insert_at.simps)
  next
    case (Some ch)
    note chw = wf_node_child [OF wf Some]
    have q'_ne: "q' \<noteq> []" and none: "subnode ch q' = None"
      using Cons.prems(2) Some unfolding q by auto
    have "node_count ch + 1 \<noteq> 1" using chw(2) by simp
    moreover have "remove_at (insert_at ch cs) cs = Inr ch"
      by (rule Cons.IH [OF chw(3) none q'_ne q'])
    ultimately show ?thesis
      by (simp add: insert_at_Cons inv bt_get_insert insert_at_nonempty_count cs Some
          decrement_insert_increment wf_node_bt_inv [OF chw(3)] set_child_same
          del: insert_at.simps)
  qed
qed simp

lemma subnode_insert_new:
  "bt_inv (node_children n) \<Longrightarrow> wf_node n \<Longrightarrow> subnode n p = None \<Longrightarrow>
   subnode (insert_at n p) p = Some (increment_count (node_new (Some (last p))))"
proof (induction p arbitrary: n)
  case (Cons c cs)
  note wf = Cons.prems(2)
  note inv = Cons.prems(1)
  let ?ch = "case bt_get (node_children n) c of Some child \<Rightarrow> increment_count child
    | None \<Rightarrow> node_new (Some c)"
  show ?case
  proof (cases cs)
    case Nil
    with Cons.prems(3) show ?thesis
      by (auto simp: insert_at_Cons inv bt_get_insert simp del: insert_at.simps(2)
          split: option.splits)
  next
    case (Cons d ds)
    have "subnode ?ch cs = None"
      using Cons.prems(3) Cons by (auto split: option.splits)
    moreover have "wf_node ?ch"
      using wf_node_child(3) [OF wf] by (auto simp: wf_increment wf_node_new split: option.splits)
    ultimately have "subnode (insert_at ?ch cs) cs = Some (increment_count (node_new (Some (last cs))))"
      using Cons.IH wf_node_bt_inv by blast
    then show ?thesis
      using Cons by (simp add: insert_at_Cons inv bt_get_insert del: insert_at.simps)
  qed
qed simp

lemma is_terminal_fresh: "is_terminal (increment_count (node_new t))"
  by (simp add: is_terminal_def child_count_def)

lemma tree_remove_insert:
  assumes inv: "glob_inv t" and q: "q \<noteq> []" "strict_prefix q p" and none: "subnode (root t) q = None"
  shows "tree_remove (tree_insert t p) p = Inr t"
proof -
  have wf: "wf_node (root t)" using inv by (simp add: glob_inv_def)
  have "subnode (root t) p = None"
    using none q(2) by (auto simp: strict_prefix_def prefix_def subnode_append)
  then have "tree_contains (tree_insert t p) p"
    using subnode_insert_new [OF wf_node_bt_inv [OF wf] wf]
    by (simp add: tree_contains_def contains_at_iff terminal_at_def tree_insert_def is_terminal_fresh)
  then show ?thesis
    using remove_at_insert_at [OF wf none q]
    by (simp add: tree_remove_def) (simp add: tree_insert_def)
qed

text \<open>
  When the proper prefixes were all there, the last node keeps the second increment: nothing is restored.
\<close>

lemma remove_at_insert_at_single:
  assumes inv: "bt_inv (node_children n)"
  shows "remove_at (insert_at n [c]) [c] \<noteq> Inr n"
proof
  assume r: "remove_at (insert_at n [c]) [c] = Inr n"
  define m where "m = increment_count (case bt_get (node_children n) c of
    Some child \<Rightarrow> increment_count child | None \<Rightarrow> node_new (Some c))"
  have i: "insert_at n [c] = set_child n c m"
    using inv by (simp add: insert_at_Cons m_def del: insert_at.simps(2))
  have "remove_at (set_child n c m) [c] = Inr (if node_count m = 1 then del_child (set_child n c m) c
      else set_child (set_child n c m) c (decrement_count m))"
    by (simp add: bt_get_insert)
  with r have "n = (if node_count m = 1 then del_child (set_child n c m) c
      else set_child (set_child n c m) c (decrement_count m))"
    unfolding i by simp
  then have "bt_get (node_children n) c =
      bt_get (node_children (if node_count m = 1 then del_child (set_child n c m) c
        else set_child (set_child n c m) c (decrement_count m))) c"
    by (rule arg_cong)
  also have "\<dots> = (if node_count m = 1 then None else Some (decrement_count m))"
    using inv by (simp add: bt_get_insert bt_get_remove bt_inv_insert)
  finally have e: "bt_get (node_children n) c = (if node_count m = 1 then None else Some (decrement_count m))" .
  show False
  proof (cases "bt_get (node_children n) c")
    case None
    then have "node_count m = 2" by (simp add: m_def node_new_def)
    then show False using e unfolding None by simp
  next
    case (Some ch)
    then have "node_count m = node_count ch + 2" by (simp add: m_def)
    moreover have "ch = decrement_count m" using e unfolding Some by (cases "node_count m = 1") simp_all
    then have "node_count ch = node_count m - 1" by simp
    ultimately show False by simp
  qed
qed

lemma remove_at_insert_at_changed:
  "wf_node n \<Longrightarrow> p \<noteq> [] \<Longrightarrow> (\<And>q. q \<noteq> [] \<Longrightarrow> strict_prefix q p \<Longrightarrow> subnode n q \<noteq> None) \<Longrightarrow>
   remove_at (insert_at n p) p \<noteq> Inr n"
proof (induction p arbitrary: n)
  case (Cons c cs)
  note wf = Cons.prems(1)
  note inv = wf_node_bt_inv [OF wf]
  show ?case
  proof (cases "cs = []")
    case True
    then show ?thesis using remove_at_insert_at_single [OF inv] by simp
  next
    case False
    have "subnode n [c] \<noteq> None" using Cons.prems(3) [of "[c]"] False by (simp add: strict_prefix_def)
    then obtain ch where ch: "bt_get (node_children n) c = Some ch" by (auto split: option.splits)
    note chw = wf_node_child [OF wf ch]
    have "subnode ch q \<noteq> None" if "q \<noteq> []" "strict_prefix q cs" for q
      using Cons.prems(3) [of "c # q"] that ch by simp
    then have ih: "remove_at (insert_at ch cs) cs \<noteq> Inr ch" by (rule Cons.IH [OF chw(3) False])
    have "node_count ch + 1 \<noteq> 1" using chw(2) by simp
    then have r: "remove_at (insert_at n (c # cs)) (c # cs) =
        (case remove_at (insert_at ch cs) cs of Inl e \<Rightarrow> Inl e
         | Inr ch' \<Rightarrow> Inr (set_child (set_child n c (insert_at (increment_count ch) cs)) c ch'))"
      by (simp add: insert_at_Cons inv bt_get_insert insert_at_nonempty_count False ch
          decrement_insert_increment wf_node_bt_inv [OF chw(3)] del: insert_at.simps)
    show ?thesis
    proof
      assume "remove_at (insert_at n (c # cs)) (c # cs) = Inr n"
      with r obtain ch' where ch': "remove_at (insert_at ch cs) cs = Inr ch'"
          "set_child (set_child n c (insert_at (increment_count ch) cs)) c ch' = n"
        by (auto split: sum.splits)
      from arg_cong [OF ch'(2), of "\<lambda>n. bt_get (node_children n) c"]
      have "bt_get (node_children n) c = Some ch'" by (simp add: bt_get_insert)
      with ch' ch ih show False by simp
    qed
  qed
qed simp

lemma tree_remove_root: "tree_remove t p = Inr t' \<Longrightarrow> remove_at (root t) p = Inr (root t')"
  by (auto simp: tree_remove_def split: if_splits sum.splits)

lemma tree_remove_insert_iff:
  assumes inv: "glob_inv t"
  shows "tree_remove (tree_insert t p) p = Inr t \<longleftrightarrow>
    (\<exists>q. q \<noteq> [] \<and> strict_prefix q p \<and> subnode (root t) q = None)"
proof
  assume r: "tree_remove (tree_insert t p) p = Inr t"
  then have "remove_at (insert_at (root t) p) p = Inr (root t)"
    using tree_remove_root by (fastforce simp: tree_insert_def)
  moreover have "increment_count (root t) \<noteq> root t"
    by (auto dest: arg_cong [of _ _ node_count])
  ultimately have p: "p \<noteq> []" "remove_at (insert_at (root t) p) p = Inr (root t)" by auto
  have wf: "wf_node (root t)" using inv by (simp add: glob_inv_def)
  show "\<exists>q. q \<noteq> [] \<and> strict_prefix q p \<and> subnode (root t) q = None"
  proof (rule ccontr)
    assume no: "\<nexists>q. q \<noteq> [] \<and> strict_prefix q p \<and> subnode (root t) q = None"
    have "subnode (root t) q \<noteq> None" if "q \<noteq> []" "strict_prefix q p" for q
    proof
      assume "subnode (root t) q = None"
      with that have "\<exists>q. q \<noteq> [] \<and> strict_prefix q p \<and> subnode (root t) q = None"
        by (intro exI [of _ q] conjI)
      with no show False ..
    qed
    from remove_at_insert_at_changed [OF wf p(1) this] p(2) show False by blast
  qed
next
  assume "\<exists>q. q \<noteq> [] \<and> strict_prefix q p \<and> subnode (root t) q = None"
  then obtain q where "q \<noteq> []" "strict_prefix q p" "subnode (root t) q = None" by blast
  then show "tree_remove (tree_insert t p) p = Inr t" by (rule tree_remove_insert [OF inv])
qed

section \<open>What a removal does to the other patterns\<close>

abbreviation child_sum :: "node \<Rightarrow> nat" where
  "child_sum n \<equiv> (\<Sum>x\<leftarrow>node_children n. unat (node_count (snd x)))"

lemma remove_at_child_sum:
  assumes wf: "wf_node n" and r: "remove_at n (c # cs) = Inr n'"
  shows "child_sum n' + 1 = child_sum n"
proof -
  obtain ch where ch: "bt_get (node_children n) c = Some ch"
    using r by (auto split: option.splits)
  note chw = wf_node_child [OF wf ch] and inv = wf_node_bt_inv [OF wf]
  show ?thesis
  proof (cases "node_count ch = 1")
    case True
    then show ?thesis
      using r ch bt_remove_sum [OF ch, of "\<lambda>x. unat (node_count (snd x))"] by auto
  next
    case False
    with r ch obtain ch' where ch': "remove_at (decrement_count ch) cs = Inr ch'"
        "n' = set_child n c ch'"
      by (auto split: sum.splits)
    have "node_count ch' = node_count ch - 1"
      using remove_at_wf_weight [OF wf_decrement [OF chw(3)] ch'(1)] by simp
    moreover have "0 < unat (node_count ch)" using chw(2) by (simp add: unat_gt_0)
    ultimately show ?thesis
      using ch'(2) bt_insert_sum_old [OF inv ch, of "\<lambda>x. unat (node_count (snd x))" ch']
      by (simp add: unat_u64_pred [OF chw(2)])
  qed
qed

text \<open>The node a removal passes through: its count and the sum of its children's counts both drop by one.\<close>

lemma is_terminal_passed:
  assumes wf: "wf_node n" and w: "weight n < 2 ^ 64" and nz: "node_count n \<noteq> 0"
    and r: "remove_at (decrement_count n) (c # cs) = Inr n'"
  shows "is_terminal n' \<longleftrightarrow> is_terminal n"
proof -
  have n': "weight n' \<le> weight (decrement_count n)" "node_count n' = node_count n - 1"
    using remove_at_wf_weight [OF wf_decrement [OF wf] r] by auto
  have "child_sum n' + 1 = child_sum n"
    using remove_at_child_sum [OF wf_decrement [OF wf] r] by simp
  moreover have "weight n' < 2 ^ 64" using n'(1) weight_decrement [OF nz] w by linarith
  moreover have "0 < unat (node_count n)" using nz by (simp add: unat_gt_0)
  ultimately show ?thesis
    using n'(2) by (simp add: is_terminal_iff is_terminal_iff [OF w] unat_u64_pred [OF nz]) linarith
qed

lemma is_terminal_decrement:
  assumes w: "weight n < 2 ^ 64" and nz: "node_count n \<noteq> 0" and t: "is_terminal (decrement_count n)"
  shows "is_terminal n"
proof -
  have "weight (decrement_count n) < 2 ^ 64" using weight_decrement [OF nz] w by linarith
  with t show ?thesis by (simp add: is_terminal_iff is_terminal_iff [OF w] unat_u64_pred [OF nz])
qed

text \<open>A removal makes no pattern appear, except perhaps the empty one, which sits at the root.\<close>

lemma remove_at_no_gain:
  "wf_node n \<Longrightarrow> weight n < 2 ^ 64 \<Longrightarrow> remove_at n p = Inr n' \<Longrightarrow> q \<noteq> [] \<Longrightarrow>
   terminal_at n' q \<Longrightarrow> terminal_at n q"
proof (induction n p arbitrary: n' q rule: remove_at.induct)
  case (2 n c cs)
  note wf = "2.prems"(1) and w = "2.prems"(2)
  obtain ch where ch: "bt_get (node_children n) c = Some ch"
    using "2.prems"(3) by (auto split: option.splits)
  note chw = wf_node_child [OF wf ch] and inv = wf_node_bt_inv [OF wf]
  have w_ch: "weight ch < 2 ^ 64" using weight_child [OF ch] w by linarith
  obtain d q' where q: "q = d # q'" using "2.prems"(4) by (cases q) auto
  show ?case
  proof (cases "node_count ch = 1")
    case True
    then show ?thesis
      using "2.prems"(3,5) ch inv by (auto simp: q terminal_at_Cons bt_get_remove split: if_splits)
  next
    case False
    with "2.prems"(3) ch obtain ch' where ch': "remove_at (decrement_count ch) cs = Inr ch'"
        "n' = set_child n c ch'"
      by (auto split: sum.splits)
    have w_dec: "weight (decrement_count ch) < 2 ^ 64"
      using weight_decrement [OF chw(2)] w_ch by linarith
    have "terminal_at ch q'" if "terminal_at ch' q'"
    proof (cases "q' = []")
      case True
      show ?thesis
      proof (cases cs)
        case Nil
        with True that ch'(1) show ?thesis by (auto intro: is_terminal_decrement [OF w_ch chw(2)])
      next
        case (Cons c' cs')
        with True that ch'(1) is_terminal_passed [OF chw(3) w_ch chw(2)] show ?thesis by auto
      qed
    next
      case False
      have "terminal_at (decrement_count ch) q'"
        using "2.IH" [OF ch \<open>node_count ch \<noteq> 1\<close> wf_decrement [OF chw(3)] w_dec ch'(1) False that] .
      with False show ?thesis by (simp add: terminal_at_def path_simps)
    qed
    then show ?thesis
      using "2.prems"(5) ch'(2) ch by (auto simp: q terminal_at_Cons bt_get_insert split: if_splits)
  qed
qed simp

text \<open>
  A pattern other than the removed one keeps its place, unless a node on their common path has
  count one (the node the removal deletes, with everything below it).
\<close>

lemma remove_at_frame:
  "wf_node n \<Longrightarrow> weight n < 2 ^ 64 \<Longrightarrow> remove_at n p = Inr n' \<Longrightarrow> q \<noteq> [] \<Longrightarrow> q \<noteq> p \<Longrightarrow>
   (\<And>r m. r \<noteq> [] \<Longrightarrow> prefix r p \<Longrightarrow> prefix r q \<Longrightarrow> subnode n r = Some m \<Longrightarrow> node_count m \<noteq> 1) \<Longrightarrow>
   terminal_at n' q \<longleftrightarrow> terminal_at n q"
proof (induction n p arbitrary: n' q rule: remove_at.induct)
  case (2 n c cs)
  note wf = "2.prems"(1) and w = "2.prems"(2)
  obtain ch where ch: "bt_get (node_children n) c = Some ch"
    using "2.prems"(3) by (auto split: option.splits)
  note chw = wf_node_child [OF wf ch] and inv = wf_node_bt_inv [OF wf]
  have w_ch: "weight ch < 2 ^ 64" using weight_child [OF ch] w by linarith
  obtain d q' where q: "q = d # q'" using "2.prems"(4) by (cases q) auto
  show ?case
  proof (cases "d = c")
    case False
    then show ?thesis
      using "2.prems"(3) ch inv
      by (auto simp: q terminal_at_Cons bt_get_remove bt_get_insert split: if_splits sum.splits)
  next
    case True
    have not1: "node_count ch \<noteq> 1"
      using "2.prems"(6) [of "[c]"] ch True by (simp add: q)
    with "2.prems"(3) ch obtain ch' where ch': "remove_at (decrement_count ch) cs = Inr ch'"
        "n' = set_child n c ch'"
      by (auto split: sum.splits)
    have w_dec: "weight (decrement_count ch) < 2 ^ 64"
      using weight_decrement [OF chw(2)] w_ch by linarith
    have ne: "q' \<noteq> cs" using "2.prems"(5) True q by simp
    have "terminal_at ch' q' \<longleftrightarrow> terminal_at ch q'"
    proof (cases "q' = []")
      case True
      with ne obtain c' cs' where "cs = c' # cs'" by (cases cs) auto
      with True ch'(1) is_terminal_passed [OF chw(3) w_ch chw(2)] show ?thesis by auto
    next
      case False
      have "node_count m \<noteq> 1"
        if "r \<noteq> []" "prefix r cs" "prefix r q'" "subnode (decrement_count ch) r = Some m" for r m
        using "2.prems"(6) [of "c # r" m] that ch \<open>d = c\<close> by (simp add: q path_simps)
      then have "terminal_at ch' q' \<longleftrightarrow> terminal_at (decrement_count ch) q'"
        using "2.IH" [OF ch not1 wf_decrement [OF chw(3)] w_dec ch'(1) False ne] by blast
      with False show ?thesis by (simp add: terminal_at_def path_simps)
    qed
    then show ?thesis
      using ch'(2) ch True by (auto simp: q terminal_at_Cons bt_get_insert)
  qed
qed simp

text \<open>When no node on the path has count one, the removal only decrements the counts along it.\<close>

lemma remove_at_shared:
  "wf_node n \<Longrightarrow> p \<noteq> [] \<Longrightarrow> subnode n p = Some m \<Longrightarrow>
   (\<And>r m. r \<noteq> [] \<Longrightarrow> prefix r p \<Longrightarrow> subnode n r = Some m \<Longrightarrow> node_count m \<noteq> 1) \<Longrightarrow>
   \<exists>n'. remove_at n p = Inr n' \<and> subnode n' p = Some (decrement_count m)"
proof (induction n p arbitrary: m rule: remove_at.induct)
  case (2 n c cs)
  note wf = "2.prems"(1)
  obtain ch where ch: "bt_get (node_children n) c = Some ch" "subnode ch cs = Some m"
    using "2.prems"(3) by (auto split: option.splits)
  note chw = wf_node_child [OF wf ch(1)] and inv = wf_node_bt_inv [OF wf]
  have not1: "node_count ch \<noteq> 1" using "2.prems"(4) [of "[c]"] ch by simp
  show ?case
  proof (cases "cs = []")
    case True
    with not1 ch show ?thesis by (simp add: bt_get_insert)
  next
    case False
    have "node_count m' \<noteq> 1"
      if "r \<noteq> []" "prefix r cs" "subnode (decrement_count ch) r = Some m'" for r m'
      using "2.prems"(4) [of "c # r" m'] that ch by (simp add: path_simps)
    moreover have "subnode (decrement_count ch) cs = Some m"
      using ch(2) False by (simp add: path_simps)
    ultimately obtain ch' where "remove_at (decrement_count ch) cs = Inr ch'"
        "subnode ch' cs = Some (decrement_count m)"
      using "2.IH" [OF ch(1) not1 wf_decrement [OF chw(3)] False] by blast
    with not1 ch show ?thesis by (simp add: bt_get_insert)
  qed
qed simp

end
