(* ===== verification/Glob_History.thy ===== *)
theory Glob_History
  imports Glob_Remove
begin

text \<open>
  Which patterns a tree holds, in terms of the patterns inserted. A node represents the list of the
  pattern remainders that pass through it: its count is the number of them (at the root, nothing)
  plus the number that end there, because \<open>insert\<close> increments the last node of a pattern a second
  time. From that, \<open>contains\<close>, \<open>check\<close> and \<open>remove\<close> are computed exactly.
\<close>

section \<open>The remainders of a list of patterns\<close>

text \<open>The patterns that start with a character, without it; and after a whole path.\<close>

fun tails :: "rchar \<Rightarrow> rstring list \<Rightarrow> rstring list" where
  "tails c [] = []"
| "tails c (p # ps) =
     (case p of [] \<Rightarrow> tails c ps | d # q \<Rightarrow> if d = c then q # tails c ps else tails c ps)"

fun descend :: "rstring \<Rightarrow> rstring list \<Rightarrow> rstring list" where
  "descend [] ps = ps"
| "descend (c # q) ps = descend q (tails c ps)"

text \<open>How many patterns pass a path, and how many continue it by exactly one character.\<close>

definition passing :: "rstring list \<Rightarrow> rstring \<Rightarrow> nat" where
  "passing ps q = length (filter (prefix q) ps)"

definition extending :: "rstring list \<Rightarrow> rstring \<Rightarrow> nat" where
  "extending ps q = length (filter (\<lambda>p. prefix q p \<and> length p = Suc (length q)) ps)"

lemma tails_eq: "tails c ps = List.map tl (filter (\<lambda>p. prefix [c] p) ps)"
  by (induction ps) (auto split: list.splits)

lemma tails_Nil_iff: "tails c ps = [] \<longleftrightarrow> (\<forall>p\<in>set ps. \<not> prefix [c] p)"
  by (simp add: tails_eq filter_empty_conv)

lemma length_tails_le: "length (tails c ps) \<le> length ps"
  by (simp add: tails_eq)

lemma count_tails: "count_list (tails c ps) q = count_list ps (c # q)"
  by (induction ps) (auto split: list.splits)

lemma passing_tails: "passing (tails c ps) q = passing ps (c # q)"
  by (induction ps) (auto simp: passing_def split: list.splits)

lemma extending_tails: "extending (tails c ps) q = extending ps (c # q)"
  by (induction ps) (auto simp: extending_def split: list.splits)

lemma length_passing: "length ps = passing ps []"
  by (simp add: passing_def)

lemma tails_remove1:
  "tails c (remove1 (d # q) ps) = (if c = d then remove1 q (tails c ps) else tails c ps)"
  by (induction ps) (auto split: list.splits)

lemma tails_rev: "tails c (rev ps) = rev (tails c ps)"
  by (simp add: tails_eq rev_map rev_filter)

lemma descend_props:
  "length (descend q ps) = passing ps q"
  "count_list (descend q ps) r = count_list ps (q @ r)"
  "extending (descend q ps) r = extending ps (q @ r)"
  by (induction q ps rule: descend.induct)
    (auto simp: count_tails passing_tails extending_tails length_passing)

lemma passing_le: "passing ps q \<le> length ps"
  by (simp add: passing_def)

lemma count_le_passing: "count_list ps q \<le> passing ps q"
  by (induction ps) (auto simp: passing_def)

lemma count_pos: "0 < count_list ps q \<longleftrightarrow> q \<in> set ps"
  using count_list_0_iff [of ps q] by auto

section \<open>Representation\<close>

text \<open>\<open>represents x n ps\<close>: the count of \<open>n\<close> is \<open>x\<close> plus the number of remainders that end at it.\<close>

fun represents :: "nat \<Rightarrow> node \<Rightarrow> rstring list \<Rightarrow> bool" where
  "represents x (Node token children n) ps \<longleftrightarrow>
     unat n = x + count_list ps [] \<and> bt_inv children \<and>
     (\<forall>y\<in>set children. node_token (snd y) = Some (fst y) \<and> tails (fst y) ps \<noteq> [] \<and>
        represents (length (tails (fst y) ps)) (snd y) (tails (fst y) ps)) \<and>
     (\<forall>p\<in>set ps. p = [] \<or> hd p \<in> fst ` set children)"

definition child_represents :: "node \<Rightarrow> rchar \<Rightarrow> rstring list \<Rightarrow> bool" where
  "child_represents n c ps \<longleftrightarrow>
     (case bt_get (node_children n) c of
        None \<Rightarrow> tails c ps = []
      | Some ch \<Rightarrow> node_token ch = Some c \<and> tails c ps \<noteq> [] \<and>
          represents (length (tails c ps)) ch (tails c ps))"

lemma represents_iff:
  "represents x n ps \<longleftrightarrow>
     unat (node_count n) = x + count_list ps [] \<and> bt_inv (node_children n) \<and>
     (\<forall>c. child_represents n c ps)" (is "?l \<longleftrightarrow> ?r")
proof (cases n)
  case (Node tk cs k)
  have cover: "(\<forall>p\<in>set ps. p = [] \<or> hd p \<in> fst ` set cs) \<longleftrightarrow>
      (\<forall>c. bt_get cs c = None \<longrightarrow> tails c ps = [])"
    unfolding bt_get_None_iff tails_Nil_iff
    by (metis (no_types, lifting) Nil_prefix hd_Cons_tl list.sel(1) not_Cons_self2 prefix_Cons
        prefix_code(2) prefix_order.eq_iff neq_Nil_conv)
  define R where "R c ch \<longleftrightarrow> node_token ch = Some c \<and> tails c ps \<noteq> [] \<and>
      represents (length (tails c ps)) ch (tails c ps)" for c ch
  have "represents x n ps \<longleftrightarrow> unat k = x + count_list ps [] \<and> bt_inv cs \<and>
      (\<forall>y\<in>set cs. R (fst y) (snd y)) \<and> (\<forall>c. bt_get cs c = None \<longrightarrow> tails c ps = [])"
    unfolding Node represents.simps cover R_def by (rule refl)
  also have "\<dots> \<longleftrightarrow> unat k = x + count_list ps [] \<and> bt_inv cs \<and>
      (\<forall>c. case bt_get cs c of None \<Rightarrow> tails c ps = [] | Some ch \<Rightarrow> R c ch)"
  proof (rule conj_cong [OF refl], rule conj_cong [OF refl])
    assume "bt_inv cs"
    then have "(\<forall>y\<in>set cs. R (fst y) (snd y)) \<longleftrightarrow> (\<forall>c ch. bt_get cs c = Some ch \<longrightarrow> R c ch)"
      by (rule bt_ball_iff)
    then show "(\<forall>y\<in>set cs. R (fst y) (snd y)) \<and> (\<forall>c. bt_get cs c = None \<longrightarrow> tails c ps = []) \<longleftrightarrow>
        (\<forall>c. case bt_get cs c of None \<Rightarrow> tails c ps = [] | Some ch \<Rightarrow> R c ch)"
      by (auto split: option.splits)
  qed
  finally show ?thesis unfolding child_represents_def R_def Node by simp
qed

lemma child_represents_cong:
  "node_children n' = node_children n \<Longrightarrow> tails c ps' = tails c ps \<Longrightarrow>
   child_represents n' c ps' \<longleftrightarrow> child_represents n c ps"
  by (simp add: child_represents_def split: option.split)

lemma child_represents_set_child:
  "bt_inv (node_children n) \<Longrightarrow>
   child_represents (set_child n c m) d ps \<longleftrightarrow>
     (if d = c then node_token m = Some c \<and> tails c ps \<noteq> [] \<and>
        represents (length (tails c ps)) m (tails c ps)
      else child_represents n d ps)"
  by (simp add: child_represents_def bt_get_insert)

lemma child_represents_del_child:
  "bt_inv (node_children n) \<Longrightarrow>
   child_represents (del_child n c) d ps \<longleftrightarrow>
     (if d = c then tails c ps = [] else child_represents n d ps)"
  by (simp add: child_represents_def bt_get_remove)

lemma represents_child:
  assumes "represents x n ps" and "bt_get (node_children n) c = Some ch"
  shows "node_token ch = Some c" "tails c ps \<noteq> []"
    "represents (length (tails c ps)) ch (tails c ps)"
  using assms by (auto simp: represents_iff [of x n] child_represents_def dest!: spec [of _ c])

lemma represents_no_child:
  "represents x n ps \<Longrightarrow> bt_get (node_children n) c = None \<longleftrightarrow> tails c ps = []"
  by (auto simp: represents_iff [of x n] child_represents_def dest!: spec [of _ c]
      split: option.splits)

lemma represents_bt_inv: "represents x n ps \<Longrightarrow> bt_inv (node_children n)"
  by (simp add: represents_iff [of x n])

lemma represents_count: "represents x n ps \<Longrightarrow> unat (node_count n) = x + count_list ps []"
  by (simp add: represents_iff [of x n])

lemma represents_increment:
  assumes "represents x n ps" and "x + count_list ps [] + 1 < 2 ^ 64"
  shows "represents (Suc x) (increment_count n) ps"
  using assms unat_u64_Suc [of "node_count n"]
  by (simp add: represents_iff [of x n] represents_iff [of "Suc x" "increment_count n"]
      child_represents_def)

lemma represents_new: "represents 1 (node_new t) []"
  by (simp add: node_new_def)

lemma represents_insert_at:
  "represents x n ps \<Longrightarrow> x + length ps + 1 < 2 ^ 64 \<Longrightarrow> 2 * length ps + 2 < 2 ^ 64 \<Longrightarrow>
   represents x (insert_at n p) (p # ps)"
proof (induction p arbitrary: x n ps)
  case Nil
  have "count_list ps [] \<le> length ps" by (rule count_le_length)
  moreover have "child_represents (increment_count n) c ([] # ps) \<longleftrightarrow> child_represents n c ps" for c
    by (rule child_represents_cong) simp_all
  ultimately show ?case
    using Nil unat_u64_Suc [of "node_count n"]
    by (simp add: represents_iff [of x n] represents_iff [of x "increment_count n"])
next
  case (Cons c cs)
  note rep = Cons.prems(1) and inv = represents_bt_inv [OF Cons.prems(1)]
  let ?ts = "tails c ps"
  let ?ch = "case bt_get (node_children n) c of Some child \<Rightarrow> increment_count child
    | None \<Rightarrow> node_new (Some c)"
  have len: "length ?ts \<le> length ps" by (rule length_tails_le)
  have ch: "represents (Suc (length ?ts)) ?ch ?ts \<and> node_token ?ch = Some c"
  proof (cases "bt_get (node_children n) c")
    case None
    then have "?ts = []" by (simp add: represents_no_child [OF rep])
    with None represents_new show ?thesis by simp
  next
    case (Some ch)
    have "count_list ?ts [] \<le> length ?ts" by (rule count_le_length)
    with represents_increment [OF represents_child(3) [OF rep Some]] len Cons.prems(3)
      represents_child(1) [OF rep Some]
    show ?thesis using Some by simp
  qed
  have new: "represents (Suc (length ?ts)) (insert_at ?ch cs) (cs # ?ts)"
    using Cons.IH [of "Suc (length ?ts)" ?ch ?ts] ch len Cons.prems(3) by simp
  have "child_represents n d ((c # cs) # ps)" if "d \<noteq> c" for d
    using rep that child_represents_cong [of n n d "(c # cs) # ps" ps]
    by (simp add: represents_iff [of x n])
  with new ch have "child_represents (set_child n c (insert_at ?ch cs)) d ((c # cs) # ps)" for d
    by (simp add: child_represents_set_child [OF inv])
  then show ?case
    using rep unfolding insert_at_Cons [OF inv]
    by (simp add: represents_iff [of x n] represents_iff [of x "set_child _ _ _"] bt_inv_insert)
qed

lemma represents_subnode:
  "represents x n ps \<Longrightarrow> q \<noteq> [] \<Longrightarrow>
   (case subnode n q of
      None \<Rightarrow> passing ps q = 0
    | Some m \<Rightarrow> 0 < passing ps q \<and> represents (passing ps q) m (descend q ps))"
proof (induction q arbitrary: x n ps)
  case (Cons c q)
  show ?case
  proof (cases "bt_get (node_children n) c")
    case None
    then have "tails c ps = []" using represents_no_child [OF Cons.prems(1)] by simp
    then have "passing ps (c # q) = 0" using passing_tails [of c ps q] by (simp add: passing_def)
    with None show ?thesis by simp
  next
    case (Some ch)
    note child = represents_child [OF Cons.prems(1) Some]
    show ?thesis
    proof (cases "q = []")
      case True
      then show ?thesis
        using Some child passing_tails [of c ps "[]"] length_greater_0_conv [of "tails c ps"]
        by (simp add: length_passing [symmetric] del: length_greater_0_conv)
    next
      case False
      with Cons.IH [OF child(3) False] Some show ?thesis
        by (simp add: passing_tails split: option.splits)
    qed
  qed
qed simp

section \<open>When a node is terminal\<close>

lemma sum_keys:
  "distinct ks \<Longrightarrow> (\<Sum>k\<leftarrow>ks. if k = d then m else 0) = (if d \<in> set ks then m else (0::nat))"
  by (induction ks) auto

lemma sum_tails:
  assumes "distinct ks" and "\<forall>p\<in>set ps. p = [] \<or> hd p \<in> set ks"
  shows "(\<Sum>c\<leftarrow>ks. length (tails c ps) + count_list (tails c ps) []) =
    length (filter (\<lambda>p. p \<noteq> []) ps) + extending ps []"
  using assms(2)
proof (induction ps)
  case (Cons p ps)
  show ?case
  proof (cases p)
    case (Cons d q)
    have "(\<Sum>c\<leftarrow>ks. length (tails c (p # ps)) + count_list (tails c (p # ps)) []) =
        (\<Sum>c\<leftarrow>ks. (length (tails c ps) + count_list (tails c ps) []) +
          (if c = d then (if q = [] then 2 else 1) else 0))"
      unfolding Cons by (intro arg_cong [where f = sum_list] map_cong) auto
    also have "\<dots> = (\<Sum>c\<leftarrow>ks. length (tails c ps) + count_list (tails c ps) []) +
        (if q = [] then 2 else 1)"
      using Cons.prems Cons assms(1) by (simp add: sum_list_addf sum_keys)
    finally show ?thesis using Cons.IH Cons.prems Cons by (simp add: extending_def)
  qed (use Cons in \<open>simp add: extending_def\<close>)
qed (simp add: extending_def)

lemma represents_child_sum:
  assumes rep: "represents x n ps"
  shows "child_sum n = length (filter (\<lambda>p. p \<noteq> []) ps) + extending ps []"
proof (cases n)
  case (Node tk cs k)
  have "child_sum n = (\<Sum>y\<leftarrow>cs. length (tails (fst y) ps) + count_list (tails (fst y) ps) [])"
    unfolding Node node.sel
  proof (intro arg_cong [where f = sum_list] map_cong refl)
    fix y assume "y \<in> set cs"
    then have "represents (length (tails (fst y) ps)) (snd y) (tails (fst y) ps)"
      using rep by (simp add: Node)
    then show "unat (node_count (snd y)) = length (tails (fst y) ps) + count_list (tails (fst y) ps) []"
      by (rule represents_count)
  qed
  also have "\<dots> = (\<Sum>c\<leftarrow>List.map fst cs. length (tails c ps) + count_list (tails c ps) [])"
    by (simp add: comp_def)
  also have "\<dots> = length (filter (\<lambda>p. p \<noteq> []) ps) + extending ps []"
    using rep by (intro sum_tails bt_inv_distinct) (auto simp: Node)
  finally show ?thesis .
qed

lemma length_split_empty: "length ps = count_list ps [] + length (filter (\<lambda>p. p \<noteq> []) ps)"
  by (induction ps) auto

lemma extending_le: "extending ps [] \<le> length (filter (\<lambda>p. p \<noteq> []) ps)"
  by (induction ps) (auto simp: extending_def)

lemma represents_terminal:
  assumes rep: "represents x n ps" and room: "2 * length ps < 2 ^ 64"
  shows "is_terminal n \<longleftrightarrow>
    length (filter (\<lambda>p. p \<noteq> []) ps) + extending ps [] < x + count_list ps []"
proof -
  have "child_sum n < 2 ^ 64"
    using represents_child_sum [OF rep] extending_le [of ps] length_split_empty [of ps] room
    by linarith
  then have "unat (child_count n) = child_sum n"
    unfolding child_count_def by (rule unat_u64_sum_list)
  then show ?thesis
    by (simp add: is_terminal_def word_less_nat_alt represents_child_sum [OF rep]
        represents_count [OF rep])
qed

lemma represents_terminal_at:
  assumes rep: "represents x n ps" and room: "2 * length ps < 2 ^ 64" and q: "q \<noteq> []"
  shows "terminal_at n q \<longleftrightarrow> extending ps q < 2 * count_list ps q"
proof (cases "subnode n q")
  case None
  then have "passing ps q = 0" using represents_subnode [OF rep q] by simp
  then have "count_list ps q = 0" using count_le_passing [of ps q] by simp
  with None show ?thesis by (simp add: terminal_at_def)
next
  case (Some m)
  then have m: "represents (passing ps q) m (descend q ps)"
    using represents_subnode [OF rep q] by simp
  have "2 * length (descend q ps) < 2 ^ 64"
    using room passing_le [of ps q] by (simp add: descend_props)
  from represents_terminal [OF m this] Some show ?thesis
    using length_split_empty [of "descend q ps"] by (simp add: terminal_at_def descend_props) linarith
qed

section \<open>Removal\<close>

lemma represents_remove_at:
  "represents x n ps \<Longrightarrow> p \<in> set ps \<Longrightarrow> q \<noteq> [] \<Longrightarrow> strict_prefix q p \<Longrightarrow> passing ps q = 1 \<Longrightarrow>
   2 * length ps < 2 ^ 64 \<Longrightarrow>
   \<exists>n'. remove_at n p = Inr n' \<and> represents x n' (remove1 p ps)"
proof (induction p arbitrary: x n ps q)
  case (Cons c cs)
  note rep = Cons.prems(1) and inv = represents_bt_inv [OF Cons.prems(1)]
  let ?ts = "tails c ps"
  obtain q' where q: "q = c # q'" and q': "strict_prefix q' cs"
    using Cons.prems(3,4) by (cases q) auto
  have cs_in: "cs \<in> set ?ts"
    using Cons.prems(2) count_tails [of c ps cs] by (simp add: count_pos [symmetric])
  then have "?ts \<noteq> []" by auto
  then obtain ch where ch: "bt_get (node_children n) c = Some ch"
    using represents_no_child [OF rep] by (cases "bt_get (node_children n) c") auto
  note child = represents_child [OF rep ch]
  have count0: "count_list (remove1 (c # cs) ps) [] = count_list ps []"
    using count_list_remove1 by (induction ps) auto
  have other: "child_represents n d (remove1 (c # cs) ps)" if "d \<noteq> c" for d
    using rep that child_represents_cong [of n n d "remove1 (c # cs) ps" ps]
    by (simp add: represents_iff [of x n] tails_remove1)
  show ?case
  proof (cases "node_count ch = 1")
    case True
    have "length ?ts \<le> 1" using represents_count [OF child(3)] True by simp
    with cs_in have "?ts = [cs]" by (cases ?ts) auto
    with other have "child_represents (del_child n c) d (remove1 (c # cs) ps)" for d
      by (simp add: child_represents_del_child [OF inv] tails_remove1)
    then have "represents x (del_child n c) (remove1 (c # cs) ps)"
      using rep by (simp add: represents_iff [of x n] represents_iff [of x "del_child n c"] count0
          bt_inv_remove)
    with True ch show ?thesis by simp
  next
    case False
    have tl: "unat (node_count ch) = length ?ts + count_list ?ts []"
      by (rule represents_count [OF child(3)])
    have len: "length ?ts \<le> length ps" by (rule length_tails_le)
    have nz: "node_count ch \<noteq> 0" using tl child(2) by (auto simp: unat_eq_zero [symmetric])
    have dec: "represents (length ?ts - 1) (decrement_count ch) ?ts"
      using child by (simp add: represents_iff [of _ ch] represents_iff [of _ "decrement_count ch"]
          unat_u64_pred [OF nz] child_represents_def Suc_le_eq)
    have cs_ne: "cs \<noteq> []" using q' by auto
    have not1: "length ?ts \<noteq> 1"
    proof
      assume "length ?ts = 1"
      with cs_in have "?ts = [cs]" by (cases ?ts) auto
      then have "unat (node_count ch) = unat (1 :: u64)" using tl cs_ne by simp
      with False show False by (simp only: word_unat_eq_iff)
    qed
    have q'_ne: "q' \<noteq> []"
      using not1 Cons.prems(5) passing_tails [of c ps "[]"] by (auto simp: q length_passing)
    have "passing ?ts q' = 1" using Cons.prems(5) by (simp add: q passing_tails)
    then obtain ch' where ch': "remove_at (decrement_count ch) cs = Inr ch'"
        "represents (length ?ts - 1) ch' (remove1 cs ?ts)"
      using Cons.IH [OF dec cs_in q'_ne q'] len Cons.prems(6) by auto
    have tok: "node_token ch' = Some c"
      using remove_at_token [OF ch'(1)] child(1) by simp
    have "length (remove1 cs ?ts) = length ?ts - 1" by (simp add: length_remove1 cs_in)
    then have "remove1 cs ?ts \<noteq> []"
      using not1 \<open>?ts \<noteq> []\<close> by (cases ?ts) auto
    with other ch' tok have "child_represents (set_child n c ch') d (remove1 (c # cs) ps)" for d
      by (simp add: child_represents_set_child [OF inv] tails_remove1 length_remove1 cs_in)
    then have "represents x (set_child n c ch') (remove1 (c # cs) ps)"
      using rep by (simp add: represents_iff [of x n] represents_iff [of x "set_child n c ch'"]
          count0 bt_inv_insert)
    with False ch ch'(1) show ?thesis by simp
  qed
qed simp

end
