(* ===== verification/Glob_Unique.thy ===== *)
theory Glob_Unique
  imports Glob_History "HOL-Library.Multiset"
begin

text \<open>
  Trees built by insertions alone. A tree is determined by the multiset of patterns it represents,
  so the order of the insertions does not matter and a removal that works gives the tree of the
  remaining patterns. The bound \<open>fits\<close> keeps every count below \<open>2^64\<close>.
\<close>

definition tree_of :: "rstring list \<Rightarrow> glob_tree" where
  "tree_of ps = fold (\<lambda>p t. tree_insert t p) ps glob_tree_new"

definition fits :: "rstring list \<Rightarrow> bool" where
  "fits ps \<longleftrightarrow> (\<Sum>p\<leftarrow>ps. length p + 2) < 2 ^ 63"

definition tree_represents :: "glob_tree \<Rightarrow> rstring list \<Rightarrow> bool" where
  "tree_represents t ps \<longleftrightarrow> node_token (root t) = None \<and> represents 0 (root t) ps"

lemma sum_lengths_ge: "2 * length ps \<le> (\<Sum>p\<leftarrow>ps. length p + 2)"
  by (induction ps) auto

lemma fits_length: "fits ps \<Longrightarrow> 2 * length ps < 2 ^ 63"
  using sum_lengths_ge [of ps] by (simp add: fits_def)

lemma fits_Cons: "fits (p # ps) \<Longrightarrow> fits ps"
  by (simp add: fits_def)

lemma fits_append: "fits (ps @ qs) \<Longrightarrow> fits ps"
  by (simp add: fits_def)

lemma fits_remove1: "fits ps \<Longrightarrow> fits (remove1 p ps)"
proof -
  have "(\<Sum>q\<leftarrow>remove1 p ps. length q + 2) \<le> (\<Sum>q\<leftarrow>ps. length q + 2)"
    by (induction ps) auto
  then show "fits ps \<Longrightarrow> fits (remove1 p ps)" by (simp add: fits_def)
qed

lemma tree_of_snoc: "tree_of (ps @ [p]) = tree_insert (tree_of ps) p"
  by (simp add: tree_of_def)

lemma represents_wf: "represents x n ps \<Longrightarrow> wf_node n"
proof (induction n arbitrary: x ps rule: wf_node.induct)
  case (1 tk cs k)
  have "node_count (snd y) \<noteq> 0" if "y \<in> set cs" for y
  proof -
    have "represents (length (tails (fst y) ps)) (snd y) (tails (fst y) ps)" "tails (fst y) ps \<noteq> []"
      using "1.prems" that by auto
    then show ?thesis using represents_count by fastforce
  qed
  with 1 show ?case by auto
qed

lemma tree_of_represents: "fits ps \<Longrightarrow> tree_represents (tree_of ps) (rev ps)"
proof (induction ps rule: rev_induct)
  case Nil
  then show ?case by (simp add: tree_of_def glob_tree_new_def tree_represents_def)
next
  case (snoc p ps)
  have "tree_represents (tree_of ps) (rev ps)" using snoc fits_append by blast
  moreover have "2 * length ps + 2 < 2 ^ 64" using fits_length [OF snoc.prems] by simp
  ultimately show ?case
    using represents_insert_at [of 0 "root (tree_of ps)" "rev ps" p]
    by (simp add: tree_of_snoc tree_represents_def tree_insert_def)
qed

lemma tree_represents_inv: "tree_represents t ps \<Longrightarrow> glob_inv t"
  by (auto simp: tree_represents_def glob_inv_def intro: represents_wf)

lemma tree_of_inv: "fits ps \<Longrightarrow> glob_inv (tree_of ps)"
  by (blast intro: tree_represents_inv tree_of_represents)

lemma tree_of_weight: "fits ps \<Longrightarrow> weight (root (tree_of ps)) < 2 ^ 64"
proof -
  have "weight (root (tree_of ps)) \<le> (\<Sum>p\<leftarrow>ps. length p + 2)" if "fits ps" for ps
    using that
  proof (induction ps rule: rev_induct)
    case Nil
    then show ?case by (simp add: tree_of_def glob_tree_new_def)
  next
    case (snoc p ps)
    then have ih: "weight (root (tree_of ps)) \<le> (\<Sum>p\<leftarrow>ps. length p + 2)"
      using fits_append by blast
    with snoc.prems have "weight (root (tree_of ps)) + length p + 1 < 2 ^ 64"
      by (simp add: fits_def)
    with ih insert_at_wf_weight [of "root (tree_of ps)" p] tree_of_inv [OF fits_append, OF snoc.prems]
    show ?case by (simp add: tree_of_snoc tree_insert_def glob_inv_def)
  qed
  then show "fits ps \<Longrightarrow> weight (root (tree_of ps)) < 2 ^ 64"
    by (fastforce simp: fits_def)
qed

section \<open>Uniqueness\<close>

lemma fits_mset: "mset ps = mset ps' \<Longrightarrow> fits ps \<longleftrightarrow> fits ps'"
proof -
  have sum: "(\<Sum>p\<leftarrow>ps. length p + 2) = (\<Sum>p\<in>#mset ps. length p + 2)" for ps :: "rstring list"
    by (induction ps) auto
  show "mset ps = mset ps' \<Longrightarrow> fits ps \<longleftrightarrow> fits ps'" by (simp only: fits_def sum)
qed

lemma mset_tails: "mset ps = mset ps' \<Longrightarrow> mset (tails c ps) = mset (tails c ps')"
  by (simp add: tails_eq mset_map [symmetric] mset_filter [symmetric] del: mset_map mset_filter)
    (simp add: mset_filter)

lemma mset_count_list: "mset ps = mset ps' \<Longrightarrow> count_list ps q = count_list ps' q"
  by (metis count_mset)

lemma represents_unique:
  "represents x n ps \<Longrightarrow> represents x n' ps' \<Longrightarrow> node_token n = node_token n' \<Longrightarrow>
   mset ps = mset ps' \<Longrightarrow> n = n'"
proof (induction "size n" arbitrary: x n ps n' ps' rule: less_induct)
  case less
  note rep = less.prems(1) and rep' = less.prems(2)
  have ts: "mset (tails c ps) = mset (tails c ps')" for c by (rule mset_tails [OF less.prems(4)])
  have "node_children n = node_children n'"
  proof (rule bt_get_ext)
    fix c
    show "bt_get (node_children n) c = bt_get (node_children n') c"
    proof (cases "bt_get (node_children n) c")
      case None
      then have "tails c ps = []" by (simp add: represents_no_child [OF rep])
      with ts [of c] have "tails c ps' = []" by simp
      with None represents_no_child [OF rep', of c] show ?thesis by simp
    next
      case (Some ch)
      note child = represents_child [OF rep Some]
      have "tails c ps' \<noteq> []" using child(2) ts [of c] by auto
      then obtain ch' where ch': "bt_get (node_children n') c = Some ch'"
        using represents_no_child [OF rep'] by (cases "bt_get (node_children n') c") auto
      note child' = represents_child [OF rep' ch']
      have "length (tails c ps) = length (tails c ps')" using ts mset_eq_length by blast
      with child'(3) have "represents (length (tails c ps)) ch' (tails c ps')" by metis
      moreover have "node_token ch = node_token ch'" using child(1) child'(1) by metis
      ultimately have "ch = ch'"
        by (rule less.hyps [OF size_bt_get [OF Some] child(3) _ _ ts])
      with Some ch' show ?thesis by simp
    qed
  qed (use rep rep' represents_bt_inv in auto)
  moreover have "node_count n = node_count n'"
    using represents_count [OF rep] represents_count [OF rep'] mset_count_list [OF less.prems(4)]
    by (simp add: word_unat_eq_iff)
  ultimately show ?case using less.prems(3) by (cases n; cases n') simp
qed

lemma tree_represents_unique:
  "tree_represents t ps \<Longrightarrow> tree_represents t' ps' \<Longrightarrow> mset ps = mset ps' \<Longrightarrow> t = t'"
  using represents_unique [of 0 "root t" ps "root t'" ps'] by (auto simp: tree_represents_def)

section \<open>What such a tree contains\<close>

lemma passing_rev [simp]: "passing (rev ps) q = passing ps q"
  by (simp add: passing_def rev_filter [symmetric])

lemma extending_rev [simp]: "extending (rev ps) q = extending ps q"
  by (simp add: extending_def rev_filter [symmetric])

lemma tree_of_contains:
  assumes "fits ps" and "p \<noteq> []"
  shows "tree_contains (tree_of ps) p \<longleftrightarrow> extending ps p < 2 * count_list ps p"
  using represents_terminal_at [of 0 "root (tree_of ps)" "rev ps" p] tree_of_represents [OF assms(1)]
    fits_length [OF assms(1)] assms(2)
  by (simp add: tree_contains_def contains_at_iff tree_represents_def)

lemma tree_of_contains_Nil:
  assumes "fits ps"
  shows "tree_contains (tree_of ps) [] \<longleftrightarrow>
    length (filter (\<lambda>p. p \<noteq> []) ps) + extending ps [] < count_list ps []"
  using represents_terminal [of 0 "root (tree_of ps)" "rev ps"] tree_of_represents [OF assms]
    fits_length [OF assms]
  by (simp add: tree_contains_def contains_at_iff tree_represents_def rev_filter [symmetric])

lemma tree_of_contains_mem: "fits ps \<Longrightarrow> tree_contains (tree_of ps) p \<Longrightarrow> p \<in> set ps"
  using tree_of_contains [of ps p] tree_of_contains_Nil [of ps]
  by (cases "p = []") (auto simp: count_pos [symmetric])

lemma tree_of_subnode_count:
  assumes fits: "fits ps" and q: "q \<noteq> []" and m: "subnode (root (tree_of ps)) q = Some m"
  shows "unat (node_count m) = passing ps q + count_list ps q" and "0 < passing ps q"
proof -
  have "represents 0 (root (tree_of ps)) (rev ps)"
    using tree_of_represents [OF fits] by (simp add: tree_represents_def)
  from represents_subnode [OF this q] m
  have "0 < passing ps q \<and> represents (passing ps q) m (descend q (rev ps))" by simp
  then show "unat (node_count m) = passing ps q + count_list ps q" "0 < passing ps q"
    using represents_count by (auto simp: descend_props)
qed

end
