(* ===== verification/Glob_Correct.thy ===== *)
theory Glob_Correct
  imports Glob_Unique
begin

text \<open>
  The properties of the glob tree: exact answers of \<open>check\<close>, \<open>contains\<close>, \<open>list\<close> and \<open>remove\<close>,
  the invariant over any sequence of operations, and the inputs on which the tree does not do
  what its documentation says (patterns lost to their one-character extensions, removals that
  leave the pattern in place or delete another one, strings beyond ASCII).
\<close>

section \<open>Sequences of operations\<close>

text \<open>The server ignores the result of \<open>remove\<close> (\<open>.ok()\<close>), so a failed removal keeps the tree.\<close>

datatype glob_op = Op_insert rstring | Op_remove rstring

fun glob_step :: "glob_tree \<Rightarrow> glob_op \<Rightarrow> glob_tree" where
  "glob_step t (Op_insert p) = tree_insert t p"
| "glob_step t (Op_remove p) = (case tree_remove t p of Inl _ \<Rightarrow> t | Inr t' \<Rightarrow> t')"

fun glob_cost :: "glob_op \<Rightarrow> nat" where
  "glob_cost (Op_insert p) = length p + 1"
| "glob_cost (Op_remove p) = 0"

definition glob_run :: "glob_tree \<Rightarrow> glob_op list \<Rightarrow> glob_tree" where
  "glob_run t ops = fold (\<lambda>op t. glob_step t op) ops t"

lemma tree_insert_inv:
  "glob_inv t \<Longrightarrow> weight (root t) + length p + 1 < 2 ^ 64 \<Longrightarrow>
   glob_inv (tree_insert t p) \<and> weight (root (tree_insert t p)) = weight (root t) + length p + 1"
  using insert_at_wf_weight [of "root t" p] by (simp add: glob_inv_def tree_insert_def)

lemma tree_remove_inv:
  assumes "glob_inv t" and "tree_remove t p = Inr t'"
  shows "glob_inv t' \<and> weight (root t') \<le> weight (root t)"
proof -
  obtain n where "remove_at (root t) p = Inr n" "t' = t\<lparr>root := n\<rparr>"
    using assms(2) by (auto simp: tree_remove_def split: if_splits sum.splits)
  with remove_at_wf_weight [of "root t" p n] assms(1) show ?thesis by (simp add: glob_inv_def)
qed

lemma glob_step_inv:
  assumes "glob_inv t" and "weight (root t) + glob_cost op < 2 ^ 64"
  shows "glob_inv (glob_step t op) \<and> weight (root (glob_step t op)) \<le> weight (root t) + glob_cost op"
proof (cases op)
  case (Op_insert p)
  with assms tree_insert_inv [of t p] show ?thesis by simp
next
  case (Op_remove p)
  with assms(1) tree_remove_inv [of t p] show ?thesis by (auto split: sum.splits)
qed

lemma glob_run_inv:
  "glob_inv t \<Longrightarrow> weight (root t) + (\<Sum>op\<leftarrow>ops. glob_cost op) < 2 ^ 64 \<Longrightarrow>
   glob_inv (glob_run t ops) \<and>
   weight (root (glob_run t ops)) \<le> weight (root t) + (\<Sum>op\<leftarrow>ops. glob_cost op)"
proof (induction ops arbitrary: t)
  case Nil
  then show ?case by (simp add: glob_run_def)
next
  case (Cons op ops)
  have step: "glob_inv (glob_step t op) \<and>
      weight (root (glob_step t op)) \<le> weight (root t) + glob_cost op"
    using glob_step_inv [of t op] Cons.prems by simp
  with Cons.IH [of "glob_step t op"] Cons.prems(2) show ?case by (simp add: glob_run_def)
qed

lemma glob_tree_new_inv: "glob_inv glob_tree_new"
  by (simp add: glob_inv_def glob_tree_new_def)

section \<open>Matching\<close>

lemma tree_check_contains:
  assumes "glob_inv t"
  shows "tree_check t s \<longleftrightarrow> (\<exists>p. tree_contains t p \<and> glob p (byte_chars s))"
  using assms match_string_worker_iff [of "root t" "as_bytes s" 0]
  by (simp add: tree_check_def match_string_def glob_inv_def accepts_root accepts_below_def
      tree_contains_def contains_at_iff byte_chars_def)

text \<open>
  C6: \<open>GlobTree::check\<close> returns true exactly when some pattern the tree contains (by \<open>contains\<close>)
  matches the string's bytes, read as characters, under the declarative meaning of the wildcards.
  The matcher's shared descent with backtracking over \<open>?\<close> and \<open>*\<close> neither misses nor invents
  a match, on every well-formed tree.
\<close>
theorem check_iff_contained_pattern_matches:
  assumes "glob_inv t"
  shows "tree_check t s \<longleftrightarrow> (\<exists>p. tree_contains t p \<and> byte_chars s \<in> glob_lang p)"
  using tree_check_contains [OF assms] by (simp add: glob_iff_lang)

lemma fits_fo_star: "fits [str ''fo*'', str ''b?r'']"
  by (simp add: fits_def str_def)

theorem check_iff_contained_pattern_matches_witness:
  "tree_check (tree_of [str ''fo*'', str ''b?r'']) (str ''food'') \<longleftrightarrow>
     (\<exists>p. tree_contains (tree_of [str ''fo*'', str ''b?r'']) p \<and>
        byte_chars (str ''food'') \<in> glob_lang p)"
  by (rule check_iff_contained_pattern_matches [OF tree_of_inv [OF fits_fo_star]])

text \<open>
  A tree built by any insertions matches a string only if one of the inserted patterns does:
  there are no false positives, whatever patterns overlap.
\<close>
theorem check_sound:
  assumes "fits ps" and "tree_check (tree_of ps) s"
  shows "\<exists>p\<in>set ps. byte_chars s \<in> glob_lang p"
  using assms tree_check_contains [OF tree_of_inv [OF assms(1)]] tree_of_contains_mem [OF assms(1)]
  by (auto simp: glob_iff_lang)

lemma tree_of_fo_star_check: "tree_check (tree_of [str ''fo*'', str ''b?r'']) (str ''food'')"
  by code_simp

theorem check_sound_witness:
  "\<exists>p\<in>set [str ''fo*'', str ''b?r'']. byte_chars (str ''food'') \<in> glob_lang p"
  by (rule check_sound [OF fits_fo_star tree_of_fo_star_check])

text \<open>
  C7: when no inserted pattern is empty or extends another one by exactly one character, and the
  patterns have fewer than \<open>2^63\<close> characters (plus two per pattern, \<open>fits\<close>), \<open>check\<close> on an ASCII string is
  exact: it returns true if and only if one of the inserted patterns matches.
\<close>
theorem check_exact:
  assumes fits: "fits ps" and ext: "\<forall>p\<in>set ps. p \<noteq> [] \<and> extending ps p = 0"
    and ascii: "list_all is_ascii s"
  shows "tree_check (tree_of ps) s \<longleftrightarrow> (\<exists>p\<in>set ps. s \<in> glob_lang p)"
proof -
  have "tree_contains (tree_of ps) p \<longleftrightarrow> p \<in> set ps" for p
  proof
    assume p: "p \<in> set ps"
    then have "p \<noteq> []" "extending ps p = 0" using ext by auto
    with p count_pos [of ps p] show "tree_contains (tree_of ps) p"
      by (simp add: tree_of_contains [OF fits])
  qed (rule tree_of_contains_mem [OF fits])
  then show ?thesis
    using tree_check_contains [OF tree_of_inv [OF fits], of s]
    by (auto simp: byte_chars_ascii [OF ascii] glob_iff_lang)
qed

theorem check_exact_witness:
  "tree_check (tree_of [str ''fo*'', str ''b?r'']) (str ''bar'') \<longleftrightarrow>
     (\<exists>p\<in>set [str ''fo*'', str ''b?r'']. str ''bar'' \<in> glob_lang p)"
  by (rule check_exact [OF fits_fo_star])
    (simp_all add: extending_def str_def is_ascii_def)

text \<open>
  C31: what \<open>contains\<close> answers after any insertions of fewer than \<open>2^63\<close> characters (plus two per
  pattern, \<open>fits\<close>), exactly. Because \<open>insert\<close> counts the last node
  of a pattern twice, a non-empty pattern is found if and only if fewer than twice as many
  one-character extensions of it were inserted; the empty pattern is found if and only if it was
  inserted more often than all other patterns together, one-character patterns counting twice.
\<close>
theorem contains_exact:
  assumes "fits ps"
  shows "tree_contains (tree_of ps) p \<longleftrightarrow>
    (if p = [] then length (filter (\<lambda>p. p \<noteq> []) ps) + extending ps [] < count_list ps []
     else extending ps p < 2 * count_list ps p)"
  using tree_of_contains [OF assms] tree_of_contains_Nil [OF assms] by simp

theorem contains_exact_witness:
  "tree_contains (tree_of [str ''fo*'', str ''b?r'']) (str ''fo*'') \<longleftrightarrow>
    (if str ''fo*'' = [] then
       length (filter (\<lambda>p. p \<noteq> []) [str ''fo*'', str ''b?r'']) +
         extending [str ''fo*'', str ''b?r''] [] < count_list [str ''fo*'', str ''b?r''] []
     else extending [str ''fo*'', str ''b?r''] (str ''fo*'') <
       2 * count_list [str ''fo*'', str ''b?r''] (str ''fo*''))"
  by (rule contains_exact [OF fits_fo_star])

text \<open>
  The order of the insertions does not matter: two lists with the same patterns, each the same
  number of times, build the same tree, node for node and count for count.
\<close>
theorem insertion_order_irrelevant:
  assumes "fits ps" and "mset ps = mset ps'"
  shows "tree_of ps = tree_of ps'"
proof (rule tree_represents_unique)
  show "tree_represents (tree_of ps) (rev ps)" by (rule tree_of_represents [OF assms(1)])
  show "tree_represents (tree_of ps') (rev ps')"
    using assms fits_mset [OF assms(2)] by (blast intro: tree_of_represents)
qed (simp add: assms(2))

theorem insertion_order_irrelevant_witness:
  "tree_of [str ''fo*'', str ''b?r''] = tree_of [str ''b?r'', str ''fo*'']"
  by (rule insertion_order_irrelevant [OF fits_fo_star]) simp

text \<open>
  C30: over any sequence of insertions and removals whose inserted text stays below \<open>2^64\<close>
  characters (plus one per pattern), the tree keeps its invariant: children sorted, each under its
  own token, no count zero; and the sum of all counts stays below \<open>2^64\<close>, so no \<open>u64\<close> increment,
  decrement or sum wraps or panics.
\<close>
theorem glob_invariant:
  assumes "(\<Sum>op\<leftarrow>ops. glob_cost op) < 2 ^ 64"
  shows "glob_inv (glob_run glob_tree_new ops) \<and> weight (root (glob_run glob_tree_new ops)) < 2 ^ 64"
  using glob_run_inv [OF glob_tree_new_inv, of ops] assms by (simp add: glob_tree_new_def)

theorem glob_invariant_witness:
  "glob_inv (glob_run glob_tree_new [Op_insert (str ''ab''), Op_remove (str ''ab'')]) \<and>
   weight (root (glob_run glob_tree_new [Op_insert (str ''ab''), Op_remove (str ''ab'')])) < 2 ^ 64"
  by (rule glob_invariant) (simp add: str_def)

text \<open>
  C35: \<open>list\<close> gives every contained pattern exactly once, in ascending lexicographic order, and
  nothing else.
\<close>
theorem list_sorted_complete:
  assumes "glob_inv t"
  shows "sorted_wrt (<) (tree_list t) \<and> distinct (tree_list t) \<and>
    set (tree_list t) = {p. tree_contains t p}"
proof -
  have wf: "wf_node (root t)" and "own_token (root t) = []"
    using assms by (auto simp: glob_inv_def own_token_def)
  then have eq: "tree_list t = paths (root t)"
    by (simp add: tree_list_def list_strings_eq map_idI)
  have "sorted_wrt (<) (paths (root t))" by (rule sorted_paths [OF wf])
  moreover from this have "distinct (paths (root t))" by (simp add: strict_sorted_iff)
  ultimately show ?thesis
    using set_paths [OF wf] by (auto simp: eq tree_contains_def contains_at_iff)
qed

theorem list_sorted_complete_witness:
  "sorted_wrt (<) (tree_list (tree_of [str ''fo*'', str ''b?r''])) \<and>
   distinct (tree_list (tree_of [str ''fo*'', str ''b?r''])) \<and>
   set (tree_list (tree_of [str ''fo*'', str ''b?r''])) =
     {p. tree_contains (tree_of [str ''fo*'', str ''b?r'']) p}"
  by (rule list_sorted_complete [OF tree_of_inv [OF fits_fo_star]])

end
