(* ===== verification/Glob_Insert.thy ===== *)
theory Glob_Insert
  imports Glob_Correct
begin

text \<open>
  What \<open>GlobTree::insert\<close> does to the other patterns of any well-formed tree, one that patterns were
  removed from included: none appears but the inserted one. With the same fact about removals, a
  tree contains only patterns that were inserted, in whatever order operations were made on it.
\<close>

section \<open>An insertion adds at most its pattern\<close>

text \<open>The node an insertion goes on from: the child there is, counted, or a new one.\<close>

abbreviation entered :: "node \<Rightarrow> rchar \<Rightarrow> node" where
  "entered n c \<equiv> (case bt_get (node_children n) c of
     Some child \<Rightarrow> increment_count child | None \<Rightarrow> node_new (Some c))"

lemma entered_wf_weight:
  assumes wf: "wf_node n" and room: "weight n + length (c # cs) + 1 < 2 ^ 64"
  shows "wf_node (entered n c)" and "weight (entered n c) + length cs + 1 < 2 ^ 64"
    and "unat (node_count (entered n c)) =
      (case bt_get (node_children n) c of Some child \<Rightarrow> unat (node_count child) + 1 | None \<Rightarrow> 1)"
    and "weight (entered n c) \<le> weight n + 1"
proof -
  have all: "wf_node (entered n c) \<and> weight (entered n c) \<le> weight n + 1 \<and>
      unat (node_count (entered n c)) =
      (case bt_get (node_children n) c of Some child \<Rightarrow> unat (node_count child) + 1 | None \<Rightarrow> 1)"
  proof (cases "bt_get (node_children n) c")
    case None
    then show ?thesis by (simp add: wf_node_new)
  next
    case (Some ch)
    have "weight ch + 1 < 2 ^ 64" using room weight_child [OF Some] by simp
    then show ?thesis
      using Some wf_node_child [OF wf Some] weight_child [OF Some] count_le_weight [of ch]
      by (simp add: wf_increment weight_increment unat_u64_Suc)
  qed
  then show "wf_node (entered n c)" "weight (entered n c) + length cs + 1 < 2 ^ 64"
    "unat (node_count (entered n c)) =
      (case bt_get (node_children n) c of Some child \<Rightarrow> unat (node_count child) + 1 | None \<Rightarrow> 1)"
    "weight (entered n c) \<le> weight n + 1"
    using room by auto
qed

text \<open>The counts below a node that an insertion goes through grow by one at least.\<close>

lemma insert_at_child_sum:
  assumes wf: "wf_node n" and room: "weight n + length (c # cs) + 1 < 2 ^ 64"
  shows "child_sum n + 1 \<le> child_sum (insert_at n (c # cs))"
proof -
  note inv = wf_node_bt_inv [OF wf] and e = entered_wf_weight [OF wf room]
  have "weight (entered n c) + 1 < 2 ^ 64" using e(2) by simp
  then have cnt: "unat (node_count (entered n c)) \<le> unat (node_count (insert_at (entered n c) cs))"
    using count_le_weight [of "entered n c"] insert_at_nonempty_count [of cs "entered n c"]
    by (cases cs) (simp_all add: unat_u64_Suc del: insert_at.simps(2))
  show ?thesis
  proof (cases "bt_get (node_children n) c")
    case None
    then show ?thesis
      using cnt e(3) bt_insert_sum_new [OF None, of "\<lambda>x. unat (node_count (snd x))"]
      by (simp add: insert_at_Cons [OF inv] del: insert_at.simps)
  next
    case (Some ch)
    then show ?thesis
      using cnt e(3) bt_insert_sum_old [OF inv Some, of "\<lambda>x. unat (node_count (snd x))"
          "insert_at (entered n c) cs"]
      by (simp add: insert_at_Cons [OF inv] del: insert_at.simps)
  qed
qed

lemma is_terminal_insert_through:
  assumes wf: "wf_node n" and room: "weight n + length (c # cs) + 1 < 2 ^ 64"
    and t: "is_terminal (insert_at n (c # cs))"
  shows "child_sum n + 1 < unat (node_count n)"
proof -
  have "weight (insert_at n (c # cs)) < 2 ^ 64" using insert_at_wf_weight [OF wf room] room by simp
  from t [unfolded is_terminal_iff [OF this]] insert_at_child_sum [OF wf room]
    insert_at_nonempty_count [of "c # cs" n]
  show ?thesis by simp
qed

lemma insert_at_no_gain:
  "wf_node n \<Longrightarrow> weight n + length p + 1 < 2 ^ 64 \<Longrightarrow> terminal_at (insert_at n p) q \<Longrightarrow>
   q = p \<or> terminal_at n q"
proof (induction p arbitrary: n q)
  case Nil
  then show ?case by (cases q) (simp_all add: terminal_at_Cons)
next
  case (Cons c cs)
  note wf = Cons.prems(1) and room = Cons.prems(2)
  note inv = wf_node_bt_inv [OF wf] and e = entered_wf_weight [OF wf room]
  have w: "weight n < 2 ^ 64" using room by simp
  show ?case
  proof (cases q)
    case Nil
    with Cons.prems(3) have "child_sum n + 1 < unat (node_count n)"
      using is_terminal_insert_through [OF wf room] by simp
    then show ?thesis by (simp add: Nil is_terminal_iff [OF w])
  next
    case q: (Cons d q')
    have t: "(if d = c then terminal_at (insert_at (entered n c) cs) q' else terminal_at n q)"
      using Cons.prems(3)
      by (auto simp: q terminal_at_Cons insert_at_Cons [OF inv] bt_get_insert inv
          simp del: insert_at.simps split: if_splits)
    show ?thesis
    proof (cases "d = c \<and> q' \<noteq> cs")
      case False
      with t show ?thesis by (cases "d = c") (simp_all add: q)
    next
      case True
      with t have below: "terminal_at (insert_at (entered n c) cs) q'" by simp
      have ent: "terminal_at (entered n c) q'" using Cons.IH [OF e(1,2) below] True by simp
      have "\<exists>ch. bt_get (node_children n) c = Some ch \<and> terminal_at ch q'"
      proof (cases q')
        case Nil
        with True obtain c' cs' where cs: "cs = c' # cs'" by (cases cs) auto
        have lt: "child_sum (entered n c) + 1 < unat (node_count (entered n c))"
          using is_terminal_insert_through [OF e(1)] e(2) below by (simp add: Nil cs)
        then obtain ch where ch: "bt_get (node_children n) c = Some ch"
          using e(3) by (cases "bt_get (node_children n) c") auto
        have "weight ch < 2 ^ 64" using weight_child [OF ch] w by simp
        with lt e(3) ch show ?thesis by (simp add: Nil is_terminal_iff)
      next
        case (Cons x q'')
        with ent show ?thesis by (auto simp: terminal_at_Cons split: option.splits)
      qed
      with True show ?thesis by (simp add: q terminal_at_Cons)
    qed
  qed
qed

lemma tree_insert_no_gain:
  assumes "glob_inv t" and "weight (root t) + length p + 1 < 2 ^ 64"
    and "tree_contains (tree_insert t p) q"
  shows "q = p \<or> tree_contains t q"
  using insert_at_no_gain [of "root t" p q] assms
  by (simp add: glob_inv_def tree_contains_def contains_at_iff tree_insert_def)

lemma tree_insert_check_gain:
  assumes inv: "glob_inv t" and room: "weight (root t) + length p + 1 < 2 ^ 64"
    and m: "tree_check (tree_insert t p) s"
  shows "tree_check t s \<or> glob p (byte_chars s)"
proof -
  have inv': "glob_inv (tree_insert t p)" using tree_insert_inv [OF inv room] by simp
  obtain q where q: "tree_contains (tree_insert t p) q" "glob q (byte_chars s)"
    using m by (auto simp: tree_check_contains [OF inv'])
  with tree_insert_no_gain [OF inv room q(1)] show ?thesis
    by (auto simp: tree_check_contains [OF inv])
qed

end
