(* ===== verification/Topic_Filter.thy ===== *)
theory Topic_Filter
  imports Glob_Insert
begin

text \<open>
  What a connection relies on of its set of subscriptions, as an interface: a filter that patterns
  are added to and taken from and that topics are checked against. The glob tree is interpreted as
  one. Its \<open>remove\<close> promises less than a set would (a pattern may stay), but never that a topic
  starts to match; that is all the connection needs.
\<close>

datatype 'p filter_op = Add 'p | Drop 'p

locale topic_filter =
  fixes new :: 'f
    and add :: "'f \<Rightarrow> 'p \<Rightarrow> 'f"
    and drop_pattern :: "'f \<Rightarrow> 'p \<Rightarrow> 'f"
    and matches :: "'f \<Rightarrow> 't \<Rightarrow> bool"
    and inv :: "'f \<Rightarrow> bool"
    and used :: "'f \<Rightarrow> nat"
    and cost :: "'p \<Rightarrow> nat"
    and limit :: nat
    and proper :: "'t \<Rightarrow> bool"
  assumes new_inv: "inv new"
    and new_matches_nothing: "proper t \<Longrightarrow> \<not> matches new t"
    and add_inv: "inv f \<Longrightarrow> used f + cost p < limit \<Longrightarrow>
      inv (add f p) \<and> used (add f p) \<le> used f + cost p"
    and drop_inv: "inv f \<Longrightarrow> inv (drop_pattern f p) \<and> used (drop_pattern f p) \<le> used f"
    and drop_no_gain: "inv f \<Longrightarrow> used f < limit \<Longrightarrow> proper t \<Longrightarrow>
      matches (drop_pattern f p) t \<Longrightarrow> matches f t"
begin

lemma step_inv:
  "inv f \<Longrightarrow> used f + (case op of Add p \<Rightarrow> cost p | Drop p \<Rightarrow> 0) < limit \<Longrightarrow>
   inv (case op of Add p \<Rightarrow> add f p | Drop p \<Rightarrow> drop_pattern f p) \<and>
   used (case op of Add p \<Rightarrow> add f p | Drop p \<Rightarrow> drop_pattern f p) \<le>
     used f + (case op of Add p \<Rightarrow> cost p | Drop p \<Rightarrow> 0)"
  using add_inv drop_inv by (cases op) auto

text \<open>A topic that matches in the end was made to match by one of the patterns added.\<close>

lemma match_has_cause:
  assumes "inv f" and "proper t" and "\<not> matches f t"
    and "used f + (\<Sum>op\<leftarrow>ops. case op of Add p \<Rightarrow> cost p | Drop p \<Rightarrow> 0) < limit"
    and "matches (fold (\<lambda>op f. case op of Add p \<Rightarrow> add f p | Drop p \<Rightarrow> drop_pattern f p) ops f) t"
  shows "\<exists>pre p post. ops = pre @ Add p # post \<and>
    \<not> matches (fold (\<lambda>op f. case op of Add p \<Rightarrow> add f p | Drop p \<Rightarrow> drop_pattern f p) pre f) t \<and>
    matches (fold (\<lambda>op f. case op of Add p \<Rightarrow> add f p | Drop p \<Rightarrow> drop_pattern f p) (pre @ [Add p]) f) t"
  using assms(1,3,4,5)
proof (induction ops arbitrary: f)
  case (Cons op ops)
  let ?step = "\<lambda>op f. case op of Add p \<Rightarrow> add f p | Drop p \<Rightarrow> drop_pattern f p"
  have s: "inv (?step op f)"
      "used (?step op f) \<le> used f + (case op of Add p \<Rightarrow> cost p | Drop p \<Rightarrow> 0)"
    using step_inv [of f op] Cons.prems(1,3) by auto
  show ?case
  proof (cases "matches (?step op f) t")
    case True
    have "used f < limit" using Cons.prems(3) by simp
    with True Cons.prems(1,2) assms(2) obtain p where "op = Add p"
      by (cases op) (auto dest: drop_no_gain)
    with True Cons.prems(2) show ?thesis
      by (intro exI [of _ "[]"] exI [of _ p] exI [of _ ops]) simp
  next
    case False
    have "used (?step op f) + (\<Sum>op\<leftarrow>ops. case op of Add p \<Rightarrow> cost p | Drop p \<Rightarrow> 0) < limit"
      using s(2) Cons.prems(3) by simp
    from Cons.IH [OF s(1) False this] Cons.prems(4) obtain pre p post where
      "ops = pre @ Add p # post" "\<not> matches (fold ?step pre (?step op f)) t"
      "matches (fold ?step (pre @ [Add p]) (?step op f)) t"
      by auto
    then show ?thesis
      by (intro exI [of _ "op # pre"] exI [of _ p] exI [of _ post]) simp
  qed
qed simp

end

text \<open>
  A filter whose patterns have a meaning: adding a pattern makes at most the topics match that the
  pattern means. So a topic that matches is meant by a pattern that was added.
\<close>

locale pattern_filter = topic_filter new add drop_pattern matches inv used cost limit proper
  for new :: 'f and add :: "'f \<Rightarrow> 'p \<Rightarrow> 'f" and drop_pattern :: "'f \<Rightarrow> 'p \<Rightarrow> 'f"
    and matches :: "'f \<Rightarrow> 't \<Rightarrow> bool" and inv :: "'f \<Rightarrow> bool" and used :: "'f \<Rightarrow> nat"
    and cost :: "'p \<Rightarrow> nat" and limit :: nat and proper :: "'t \<Rightarrow> bool" +
  fixes means :: "'p \<Rightarrow> 't \<Rightarrow> bool"
  assumes add_gain: "inv f \<Longrightarrow> used f + cost p < limit \<Longrightarrow> proper t \<Longrightarrow>
      matches (add f p) t \<Longrightarrow> matches f t \<or> means p t"
begin

lemma step_gain:
  "inv f \<Longrightarrow> used f + (case op of Add p \<Rightarrow> cost p | Drop p \<Rightarrow> 0) < limit \<Longrightarrow> proper t \<Longrightarrow>
   matches (case op of Add p \<Rightarrow> add f p | Drop p \<Rightarrow> drop_pattern f p) t \<Longrightarrow>
   matches f t \<or> (\<exists>p. op = Add p \<and> means p t)"
  using add_gain drop_no_gain by (cases op) auto

lemma match_meant:
  assumes "inv f" and "proper t"
    and "used f + (\<Sum>op\<leftarrow>ops. case op of Add p \<Rightarrow> cost p | Drop p \<Rightarrow> 0) < limit"
    and "matches (fold (\<lambda>op f. case op of Add p \<Rightarrow> add f p | Drop p \<Rightarrow> drop_pattern f p) ops f) t"
  shows "matches f t \<or> (\<exists>p. Add p \<in> set ops \<and> means p t)"
  using assms(1,3,4)
proof (induction ops arbitrary: f)
  case (Cons op ops)
  let ?step = "\<lambda>op f. case op of Add p \<Rightarrow> add f p | Drop p \<Rightarrow> drop_pattern f p"
  have room: "used f + (case op of Add p \<Rightarrow> cost p | Drop p \<Rightarrow> 0) < limit" using Cons.prems(2) by simp
  have s: "inv (?step op f)"
      "used (?step op f) + (\<Sum>op\<leftarrow>ops. case op of Add p \<Rightarrow> cost p | Drop p \<Rightarrow> 0) < limit"
    using step_inv [OF Cons.prems(1) room] Cons.prems(2) by auto
  from Cons.IH [OF s] Cons.prems(3) step_gain [OF Cons.prems(1) room assms(2)]
  show ?case by auto
qed simp

end

section \<open>The glob tree is a filter\<close>

text \<open>\<open>self.subscriptions.remove(&pattern).ok()\<close>: a failed removal keeps the tree.\<close>

definition remove_ok :: "glob_tree \<Rightarrow> rstring \<Rightarrow> glob_tree" where
  "remove_ok t p = (case tree_remove t p of Inl e \<Rightarrow> t | Inr t' \<Rightarrow> t')"

lemma byte_chars_Nil_iff [simp]: "byte_chars s = [] \<longleftrightarrow> s = []"
  using length_as_bytes_ge [of s] by (auto simp: byte_chars_def)

lemma glob_Nil_iff: "glob [] s \<longleftrightarrow> s = []"
  by (cases s) simp_all

lemma remove_ok_no_gain:
  assumes inv: "glob_inv t" and w: "weight (root t) < 2 ^ 64" and s: "s \<noteq> []"
    and m: "tree_check (remove_ok t p) s"
  shows "tree_check t s"
proof (cases "tree_remove t p")
  case (Inr t')
  then have inv': "glob_inv t'" using tree_remove_inv [OF inv] by blast
  have "tree_check t' s" using m Inr by (simp add: remove_ok_def)
  then obtain q where q: "tree_contains t' q" "glob q (byte_chars s)"
    by (auto simp: tree_check_contains [OF inv'])
  then have "q \<noteq> []" using s by (auto simp: glob_Nil_iff)
  moreover obtain n where "remove_at (root t) p = Inr n" "root t' = n"
    using Inr by (auto simp: tree_remove_def split: if_splits sum.splits)
  ultimately have "tree_contains t q"
    using remove_at_no_gain [of "root t" p n q] inv w q(1)
    by (simp add: glob_inv_def tree_contains_def contains_at_iff)
  then show ?thesis using q(2) by (auto simp: tree_check_contains [OF inv])
qed (use m in \<open>simp add: remove_ok_def\<close>)

lemma new_tree_matches_nothing: "s \<noteq> [] \<Longrightarrow> \<not> tree_check glob_tree_new s"
proof -
  have "\<not> tree_contains glob_tree_new p" if "p \<noteq> []" for p
    using that by (cases p) (auto simp: tree_contains_def glob_tree_new_def)
  then show "s \<noteq> [] \<Longrightarrow> ?thesis"
    by (auto simp: tree_check_contains [OF glob_tree_new_inv]) (metis byte_chars_Nil_iff glob_Nil_iff)
qed

interpretation gt: topic_filter glob_tree_new tree_insert remove_ok tree_check glob_inv
  "\<lambda>t. weight (root t)" "\<lambda>p. length p + 1" "2 ^ 64" "\<lambda>s. s \<noteq> []"
proof unfold_locales
  show "glob_inv glob_tree_new" by (rule glob_tree_new_inv)
  show "\<not> tree_check glob_tree_new t" if "t \<noteq> []" for t
    using that by (rule new_tree_matches_nothing)
  show "glob_inv (tree_insert f p) \<and> weight (root (tree_insert f p)) \<le> weight (root f) + (length p + 1)"
    if "glob_inv f" "weight (root f) + (length p + 1) < 2 ^ 64" for f p
    using tree_insert_inv [of f p] that by simp
  show "glob_inv (remove_ok f p) \<and> weight (root (remove_ok f p)) \<le> weight (root f)"
    if "glob_inv f" for f p
    using tree_remove_inv [OF that] that by (auto simp: remove_ok_def split: sum.split)
  show "tree_check f t"
    if "glob_inv f" "weight (root f) < 2 ^ 64" "t \<noteq> []" "tree_check (remove_ok f p) t" for f t p
    using remove_ok_no_gain that by blast
qed

interpretation gp: pattern_filter glob_tree_new tree_insert remove_ok tree_check glob_inv
  "\<lambda>t. weight (root t)" "\<lambda>p. length p + 1" "2 ^ 64" "\<lambda>s. s \<noteq> []" "\<lambda>p s. glob p (byte_chars s)"
proof unfold_locales
  show "tree_check f t \<or> glob p (byte_chars t)"
    if "glob_inv f" "weight (root f) + (length p + 1) < 2 ^ 64" "tree_check (tree_insert f p) t" for f p t
    using tree_insert_check_gain [of f p t] that by simp
qed

section \<open>Property\<close>

text \<open>The set of subscriptions after a history of subscriptions and unsubscriptions.\<close>

definition filter_run :: "rstring filter_op list \<Rightarrow> glob_tree" where
  "filter_run ops =
     fold (\<lambda>op f. case op of Add p \<Rightarrow> tree_insert f p | Drop p \<Rightarrow> remove_ok f p) ops glob_tree_new"

text \<open>
  C20: a filter matches only what was asked for. After any history of insertions, of fewer than
  \<open>2^64\<close> characters (plus one per pattern), and removals, in any order and whatever the removals left behind, a non-empty string that the tree matches, byte by byte, is
  in the language of a pattern that was inserted.
\<close>
theorem every_match_was_inserted:
  assumes "(\<Sum>op\<leftarrow>ops. case op of Add p \<Rightarrow> length p + 1 | Drop p \<Rightarrow> 0) < 2 ^ 64" and "s \<noteq> []"
    and "tree_check (filter_run ops) s"
  shows "\<exists>p. Add p \<in> set ops \<and> byte_chars s \<in> glob_lang p"
proof -
  have "weight (root glob_tree_new) = 0" by (simp add: glob_tree_new_def)
  then have "weight (root glob_tree_new) +
      (\<Sum>op\<leftarrow>ops. case op of Add p \<Rightarrow> length p + 1 | Drop p \<Rightarrow> 0) < 2 ^ 64"
    using assms(1) by (simp only: add_0)
  from gp.match_meant [OF gt.new_inv assms(2) this] assms(3) new_tree_matches_nothing [OF assms(2)]
  show ?thesis by (auto simp: filter_run_def glob_iff_lang)
qed

theorem every_match_was_inserted_witness:
  "\<exists>p. Add p \<in> set [Add (str ''f*''), Add (str ''bar''), Drop (str ''bar'')] \<and>
     byte_chars (str ''foo'') \<in> glob_lang p"
proof (rule every_match_was_inserted)
  show "tree_check (filter_run [Add (str ''f*''), Add (str ''bar''), Drop (str ''bar'')]) (str ''foo'')"
    by code_simp
qed (simp_all add: str_def)

end
