(* ===== verification/Connection.thy ===== *)
theory Connection
  imports Bus_Correct Interface Topic_Filter
begin

text \<open>
  \<open>ConnectionHandler\<close> of \<open>lbroker/src/server.rs\<close>: the state of one client connection and every
  operation on it, down to one iteration of its \<open>select!\<close> loop.
  A handler is its own record together with the bus all handlers share. What it sends to the
  adapter and to the metrics is a list of outputs; what it receives is the branch of the \<open>select!\<close>
  taken, with the result of the call when that lies outside the model. The log messages of the code
  other than \<open>cmd.log()\<close> are left out.
\<close>

section \<open>State\<close>

record ('s, 'h) conn =
  topic_streams :: 's
  topic_events :: 'h
  subscriptions :: glob_tree

type_synonym ('m, 'w, 'v, 's, 'h) handler = "('s, 'h) conn \<times> ('m, 'w, 'v, 'h) bus"

text \<open>
  What the code takes from \<open>rmpv\<close> and \<open>rmp_serde\<close>: the debug form of a value, and the bytes of a
  message or the text of the error.
\<close>

record 'a externals =
  value_debug :: "'a \<Rightarrow> rstring"
  message_bytes :: "'a message \<Rightarrow> rstring + bytes"

text \<open>
  \<open>Try_send\<close> is \<open>adapter_sender.try_send\<close>, whose failure is ignored; \<open>Send_bytes\<close> is
  \<open>adapter_sender.send\<close>; the others are calls of the three metrics' mutators (with the argument of \<open>add\<close>
  and \<open>subtract\<close>) and of \<open>cmd.log()\<close>.
\<close>

datatype conn_output =
    Connection_add i64 | Connection_subtract i64 | Command_increment | Sent_increment
  | Log_command "(rstring \<times> rstring) list"
  | Try_send bytes
  | Send_bytes bytes

section \<open>Operations\<close>

definition conn_new ::
  "('m, 'w, 'v, 's, 'h) runtime \<Rightarrow> ('m, 'w, 'v, 'h) bus \<Rightarrow> ('m, 'w, 'v, 's, 'h) handler" where
  "conn_new R bus =
     (let (topic_events, bus) = subscribe_to_topic_events R bus
      in (\<lparr>topic_streams = sm_new (rt_streams R), topic_events = topic_events,
           subscriptions = glob_tree_new\<rparr>, bus))"

fun conn_subscribe_to_topic ::
  "('m, 'w, 'v, 's, 'h) runtime \<Rightarrow> rstring \<Rightarrow> ('m, 'w, 'v, 's, 'h) handler \<Rightarrow>
   conn_output list \<times> ('m, 'w, 'v, 's, 'h) handler" where
  "conn_subscribe_to_topic R topic_name (self, bus) =
     (if sm_contains_key (rt_streams R) (topic_streams self) topic_name then ([], self, bus)
      else
        (case subscribe_to_topic R topic_name bus of
           (Some (receiver, last_msg), bus) \<Rightarrow>
             (case last_msg of
                Some msg \<Rightarrow>
                  ([Try_send msg],
                   self\<lparr>topic_streams :=
                     sm_insert (rt_streams R) (topic_streams self) topic_name receiver\<rparr>, bus)
              | None \<Rightarrow>
                  ([],
                   self\<lparr>topic_streams :=
                     sm_insert (rt_streams R) (topic_streams self) topic_name receiver\<rparr>, bus))
         | (None, bus) \<Rightarrow> ([], self, bus)))"

text \<open>The loop of \<open>handle_subscribe\<close> over the topics of the bus.\<close>

fun subscribe_matching ::
  "('m, 'w, 'v, 's, 'h) runtime \<Rightarrow> rstring list \<Rightarrow> ('m, 'w, 'v, 's, 'h) handler \<Rightarrow>
   conn_output list \<times> ('m, 'w, 'v, 's, 'h) handler" where
  "subscribe_matching R [] s = ([], s)"
| "subscribe_matching R (topic_name # names) s =
     (let (out, s) =
        (if tree_check (subscriptions (fst s)) topic_name then conn_subscribe_to_topic R topic_name s
         else ([], s));
        (out', s) = subscribe_matching R names s
      in (out @ out', s))"

fun handle_subscribe ::
  "('m, 'w, 'v, 's, 'h) runtime \<Rightarrow> rstring \<Rightarrow> ('m, 'w, 'v, 's, 'h) handler \<Rightarrow>
   conn_output list \<times> ('m, 'w, 'v, 's, 'h) handler" where
  "handle_subscribe R pattern (self, bus) =
     (let self = self\<lparr>subscriptions := tree_insert (subscriptions self) pattern\<rparr>
      in subscribe_matching R (list_topics R bus) (self, bus))"

text \<open>The loop of \<open>handle_unsubscribe\<close> over the topics subscribed to.\<close>

fun drop_unmatched ::
  "('m, 'w, 'v, 's, 'h) runtime \<Rightarrow> rstring list \<Rightarrow> ('s, 'h) conn \<Rightarrow> ('s, 'h) conn" where
  "drop_unmatched R [] self = self"
| "drop_unmatched R (name # names) self =
     drop_unmatched R names
       (if \<not> tree_check (subscriptions self) name
        then self\<lparr>topic_streams := sm_remove (rt_streams R) (topic_streams self) name\<rparr>
        else self)"

definition handle_unsubscribe ::
  "('m, 'w, 'v, 's, 'h) runtime \<Rightarrow> rstring \<Rightarrow> ('s, 'h) conn \<Rightarrow> ('s, 'h) conn" where
  "handle_unsubscribe R pattern self =
     (let self = self\<lparr>subscriptions := remove_ok (subscriptions self) pattern\<rparr>
      in drop_unmatched R (sm_keys (rt_streams R) (topic_streams self)) self)"

definition handle_publish ::
  "('m, 'w, 'v, 's, 'h) runtime \<Rightarrow> 'a externals \<Rightarrow> 'a message \<Rightarrow> ('m, 'w, 'v, 'h) bus \<Rightarrow>
   ('m, 'w, 'v, 'h) bus" where
  "handle_publish R E message bus =
     (case message_bytes E message of
        Inl e \<Rightarrow> bus
      | Inr bytes \<Rightarrow> snd (bus_send R (msg_topic message) bytes bus))"

definition handle_new_topic ::
  "('m, 'w, 'v, 's, 'h) runtime \<Rightarrow> rstring \<Rightarrow> ('m, 'w, 'v, 's, 'h) handler \<Rightarrow>
   conn_output list \<times> ('m, 'w, 'v, 's, 'h) handler" where
  "handle_new_topic R name s =
     (if tree_check (subscriptions (fst s)) name then conn_subscribe_to_topic R name s else ([], s))"

fun handle_topic_event ::
  "('m, 'w, 'v, 's, 'h) runtime \<Rightarrow> topic_event \<Rightarrow> ('m, 'w, 'v, 's, 'h) handler \<Rightarrow>
   conn_output list \<times> ('m, 'w, 'v, 's, 'h) handler" where
  "handle_topic_event R (Created name) s = handle_new_topic R name s"

text \<open>The result says whether the send to the client succeeded (\<open>is_ok()\<close>), an input.\<close>

definition forward_message_to_client :: "bytes \<Rightarrow> bool \<Rightarrow> conn_output list \<times> bool" where
  "forward_message_to_client msg_bytes send_ok = ([Sent_increment, Send_bytes msg_bytes], send_ok)"

fun handle_command ::
  "('m, 'w, 'v, 's, 'h) runtime \<Rightarrow> 'a externals \<Rightarrow> 'a command \<Rightarrow> ('m, 'w, 'v, 's, 'h) handler \<Rightarrow>
   bool \<times> conn_output list \<times> ('m, 'w, 'v, 's, 'h) handler" where
  "handle_command R E (Subscribe pattern) s = (True, handle_subscribe R pattern s)"
| "handle_command R E (Unsubscribe pattern) (self, bus) =
     (True, [], handle_unsubscribe R pattern self, bus)"
| "handle_command R E (Publish message) (self, bus) =
     (True, [], self, handle_publish R E message bus)"

section \<open>The loop\<close>

text \<open>
  The branch of the \<open>select!\<close>: a command or the end of the commands, a poll of the topic events, or
  a poll of one of the streams (with the result of forwarding to the client). A poll of the events
  that gives an error, and one that gives nothing, leave the handler as it is.
\<close>

datatype 'a branch =
    On_command "'a command option"
  | On_topic_event
  | On_stream rstring bool

fun run_iteration ::
  "('m, 'w, 'v, 's, 'h) runtime \<Rightarrow> 'a externals \<Rightarrow> 'a branch \<Rightarrow> ('m, 'w, 'v, 's, 'h) handler \<Rightarrow>
   bool \<times> conn_output list \<times> ('m, 'w, 'v, 's, 'h) handler" where
  "run_iteration R E (On_command (Some cmd)) s =
     (let (go_on, out, s) = handle_command R E cmd s
      in (go_on, Command_increment # Log_command (command_log (value_debug E) cmd) # out, s))"
| "run_iteration R E (On_command None) s = (False, [], s)"
| "run_iteration R E On_topic_event (self, bus) =
     (case bc_recv (rt_events R) (topic_events self) (event_channels bus) of
        (Received event, v) \<Rightarrow>
          (True, handle_topic_event R event (self, bus\<lparr>event_channels := v\<rparr>))
      | (Lagged n, v) \<Rightarrow> (True, [], self, bus\<lparr>event_channels := v\<rparr>)
      | (Not_ready, v) \<Rightarrow> (True, [], self, bus\<lparr>event_channels := v\<rparr>))"
| "run_iteration R E (On_stream topic_name send_ok) (self, bus) =
     (case sm_get (rt_streams R) (topic_streams self) topic_name of
        None \<Rightarrow> (True, [], self, bus)
      | Some receiver \<Rightarrow>
          (case bc_recv (rt_messages R) receiver (message_channels bus) of
             (Received msg_bytes, w) \<Rightarrow>
               (let (out, ok) = forward_message_to_client msg_bytes send_ok
                in (ok, out, self, bus\<lparr>message_channels := w\<rparr>))
           | (Lagged n, w) \<Rightarrow> (True, [], self, bus\<lparr>message_channels := w\<rparr>)
           | (Not_ready, w) \<Rightarrow> (True, [], self, bus\<lparr>message_channels := w\<rparr>)))"

fun run_loop ::
  "('m, 'w, 'v, 's, 'h) runtime \<Rightarrow> 'a externals \<Rightarrow> 'a branch list \<Rightarrow> ('m, 'w, 'v, 's, 'h) handler \<Rightarrow>
   bool \<times> conn_output list \<times> ('m, 'w, 'v, 's, 'h) handler" where
  "run_loop R E [] s = (True, [], s)"
| "run_loop R E (branch # branches) s =
     (let (go_on, out, s) = run_iteration R E branch s in
      if go_on then (let (go_on, out', s) = run_loop R E branches s in (go_on, out @ out', s))
      else (False, out, s))"

text \<open>
  Before the loop \<open>run\<close> counts the connection in; after the loop, when a branch has ended it, it counts
  the connection out.
\<close>

definition run_start :: "conn_output list" where
  "run_start = [Connection_add 1]"

definition run_end :: "bool \<Rightarrow> conn_output list" where
  "run_end go_on = (if go_on then [] else [Connection_subtract 1])"

lemma run_end_simps [simp]: "run_end True = []" "run_end False = [Connection_subtract 1]"
  by (simp_all add: run_end_def)

definition handler_run ::
  "('m, 'w, 'v, 's, 'h) runtime \<Rightarrow> 'a externals \<Rightarrow> 'a branch list \<Rightarrow> ('m, 'w, 'v, 's, 'h) handler \<Rightarrow>
   conn_output list \<times> ('m, 'w, 'v, 's, 'h) handler" where
  "handler_run R E branches s =
     (let (running, out, s) = run_loop R E branches s
      in (run_start @ out @ run_end running, s))"

end
