(* ===== verification/Connection_Correct.thy ===== *)
theory Connection_Correct
  imports Connection
begin

text \<open>
  What one connection does with its subscriptions: which topics it listens to after a command or a
  topic event, what it sends at once, and that every stream it polls is one of the topic it is
  filed under.
\<close>

section \<open>Streams and their wiring\<close>

definition stream_of :: "('m, 'w, 'v, 's, 'h) runtime \<Rightarrow> ('s, 'h) conn \<Rightarrow> rstring \<Rightarrow> 'h option" where
  "stream_of R c t = sm_get (rt_streams R) (topic_streams c) t"

definition wired ::
  "('m, 'w, 'v, 's, 'h) runtime \<Rightarrow> ('w, 'v, 'h) views \<Rightarrow> ('s, 'h) conn \<Rightarrow> ('m, 'w, 'v, 'h) bus \<Rightarrow> bool" where
  "wired R V c b \<longleftrightarrow>
     (\<forall>t rx. stream_of R c t = Some rx \<longrightarrow> receives R V b t rx) \<and>
     listens (ev_view V) (event_channels b) (topic_events c) = Some (topic_events_tx b)"

text \<open>
  How subscribing changes the bus: topics and events stay, receivers in use keep their channel and
  what they have yet to receive, new receivers start empty.
\<close>

definition bus_quiet ::
  "('m, 'w, 'v, 's, 'h) runtime \<Rightarrow> ('w, 'v, 'h) views \<Rightarrow> ('m, 'w, 'v, 'h) bus \<Rightarrow>
   ('m, 'w, 'v, 'h) bus \<Rightarrow> bool" where
  "bus_quiet R V b b' \<longleftrightarrow>
     topic R b' = topic R b \<and> event_channels b' = event_channels b \<and>
     topic_events_tx b' = topic_events_tx b \<and>
     capacity (msg_view V) (message_channels b') = capacity (msg_view V) (message_channels b) \<and>
     (\<forall>rx. listens (msg_view V) (message_channels b) rx \<noteq> None \<longrightarrow>
        listens (msg_view V) (message_channels b') rx = listens (msg_view V) (message_channels b) rx \<and>
        msg_pending V b' rx = msg_pending V b rx \<and> msg_lagging V b' rx = msg_lagging V b rx) \<and>
     (\<forall>rx. listens (msg_view V) (message_channels b) rx = None \<longrightarrow>
        listens (msg_view V) (message_channels b') rx \<noteq> None \<longrightarrow> msg_pending V b' rx = [])"

lemma bus_quiet_refl [simp]: "bus_quiet R V b b"
  by (auto simp: bus_quiet_def)

lemma bus_quiet_trans: "bus_quiet R V a b \<Longrightarrow> bus_quiet R V b c \<Longrightarrow> bus_quiet R V a c"
  unfolding bus_quiet_def by (metis (no_types, lifting))

lemma bus_quietD:
  assumes "bus_quiet R V b b'"
  shows "topic R b' = topic R b" "event_channels b' = event_channels b"
    "topic_events_tx b' = topic_events_tx b" "bus_abs R b' = bus_abs R b"
    "receives R V b t rx \<Longrightarrow> receives R V b' t rx"
    "receives R V b t rx \<Longrightarrow> msg_pending V b' rx = msg_pending V b rx"
    "bus_inv R V b \<Longrightarrow> bus_inv R V b'"
    "listens (msg_view V) (message_channels b) rx = None \<Longrightarrow> receives R V b' t rx \<Longrightarrow>
       msg_pending V b' rx = []"
    "receives R V b t rx \<Longrightarrow> msg_lagging V b' rx = msg_lagging V b rx"
  using assms unfolding bus_quiet_def
  by (auto simp: bus_abs_def receives_def bus_inv_def fun_eq_iff)

lemma subscribe_quiet:
  assumes laws: "runtime_laws R V" and s: "subscribe_to_topic R t b = (r, b')"
  shows "bus_quiet R V b b'"
    and "r = Some (rx, lm) \<Longrightarrow> listens (msg_view V) (message_channels b) rx = None \<and>
      receives R V b' t rx \<and> bus_abs R b t = Some lm"
    and "r = None \<longleftrightarrow> topic R b t = None"
proof -
  show "r = None \<longleftrightarrow> topic R b t = None" using subscribe_none_iff [of R t b] s by simp
  show "bus_quiet R V b b'"
  proof (cases "topic R b t")
    case None
    then show ?thesis using s by (simp add: subscribe_to_topic_def topic_def)
  next
    case (Some td)
    then obtain rx w where "bc_subscribe (rt_messages R) (sender td) (message_channels b) = (rx, w)"
        "b' = b\<lparr>message_channels := w\<rparr>"
      using s by (auto simp: subscribe_to_topic_def topic_def Let_def split: prod.splits)
    then show ?thesis
      using subscribeD [OF runtime_lawsD(3) [OF laws]]
      by (auto simp: bus_quiet_def topic_def fun_eq_iff)
  qed
  show "listens (msg_view V) (message_channels b) rx = None \<and> receives R V b' t rx \<and>
      bus_abs R b t = Some lm" if r: "r = Some (rx, lm)"
  proof -
    obtain td w where td: "topic R b t = Some td"
      and sub: "bc_subscribe (rt_messages R) (sender td) (message_channels b) = (rx, w)"
      and b': "lm = last_message td" "b' = b\<lparr>message_channels := w\<rparr>"
      using s r by (auto simp: subscribe_to_topic_def topic_def Let_def get_last_message_def
          split: option.splits prod.splits)
    have "topic R b' = topic R b" by (simp add: b' topic_def fun_eq_iff)
    then show ?thesis
      using subscribeD [OF runtime_lawsD(3) [OF laws] sub] td
      by (auto simp: receives_def b' bus_abs_def)
  qed
qed

section \<open>Joining topics\<close>

text \<open>What a handler may do when it subscribes to topics: only add streams, each freshly wired.\<close>

definition joins ::
  "('m, 'w, 'v, 's, 'h) runtime \<Rightarrow> ('w, 'v, 'h) views \<Rightarrow> ('m, 'w, 'v, 's, 'h) handler \<Rightarrow>
   ('m, 'w, 'v, 's, 'h) handler \<Rightarrow> bool" where
  "joins R V s s' \<longleftrightarrow>
     bus_quiet R V (snd s) (snd s') \<and>
     topic_events (fst s') = topic_events (fst s) \<and> subscriptions (fst s') = subscriptions (fst s) \<and>
     (\<forall>t rx. stream_of R (fst s) t = Some rx \<longrightarrow> stream_of R (fst s') t = Some rx) \<and>
     (\<forall>t rx. stream_of R (fst s') t = Some rx \<longrightarrow>
        stream_of R (fst s) t = Some rx \<or>
        stream_of R (fst s) t = None \<and> listens (msg_view V) (message_channels (snd s)) rx = None \<and>
          receives R V (snd s') t rx)"

lemma joins_refl [simp]: "joins R V s s"
  by (simp add: joins_def)

lemma joins_trans:
  assumes 1: "joins R V a b" and 2: "joins R V b c"
  shows "joins R V a c"
proof -
  have q: "bus_quiet R V (snd a) (snd b)" "bus_quiet R V (snd b) (snd c)"
    using 1 2 by (simp_all add: joins_def)
  have old: "listens (msg_view V) (message_channels (snd a)) rx = None"
    if "listens (msg_view V) (message_channels (snd b)) rx = None" for rx
    using q(1) that unfolding bus_quiet_def by metis
  show ?thesis
    unfolding joins_def
  proof (intro conjI allI impI)
    show "bus_quiet R V (snd a) (snd c)" by (rule bus_quiet_trans [OF q])
    fix t rx assume s: "stream_of R (fst c) t = Some rx"
    show "stream_of R (fst a) t = Some rx \<or>
        stream_of R (fst a) t = None \<and> listens (msg_view V) (message_channels (snd a)) rx = None \<and>
          receives R V (snd c) t rx"
    proof (cases "stream_of R (fst b) t = Some rx")
      case True
      then have "stream_of R (fst a) t = Some rx \<or> stream_of R (fst a) t = None \<and>
          listens (msg_view V) (message_channels (snd a)) rx = None \<and> receives R V (snd b) t rx"
        using 1 by (simp add: joins_def)
      then show ?thesis using bus_quietD(5) [OF q(2)] by blast
    next
      case False
      then have n: "stream_of R (fst b) t = None"
          "listens (msg_view V) (message_channels (snd b)) rx = None" "receives R V (snd c) t rx"
        using 2 s unfolding joins_def by blast+
      have "stream_of R (fst a) t = None"
      proof (cases "stream_of R (fst a) t")
        case (Some y)
        then have "stream_of R (fst b) t = Some y" using 1 by (simp add: joins_def)
        with n(1) show ?thesis by simp
      qed
      with n old show ?thesis by blast
    qed
  qed (use 1 2 in \<open>simp_all add: joins_def\<close>)
qed

lemma joins_wired:
  assumes j: "joins R V s s'" and w: "wired R V (fst s) (snd s)"
  shows "wired R V (fst s') (snd s')"
proof -
  note q = bus_quietD [of R V "snd s" "snd s'"]
  have quiet: "bus_quiet R V (snd s) (snd s')" using j by (simp add: joins_def)
  have "receives R V (snd s') t rx" if "stream_of R (fst s') t = Some rx" for t rx
    using j that w q(5) [OF quiet] unfolding joins_def wired_def by blast
  then show ?thesis
    using j w q(2,3) [OF quiet] by (simp add: wired_def joins_def)
qed

text \<open>What is sent at once for a topic: its last message, unless the topic has a stream already.\<close>

definition retained ::
  "('m, 'w, 'v, 's, 'h) runtime \<Rightarrow> ('s, 'h) conn \<Rightarrow> ('m, 'w, 'v, 'h) bus \<Rightarrow> rstring \<Rightarrow>
   conn_output list" where
  "retained R c b t =
     (if stream_of R c t = None
      then (case bus_abs R b t of Some (Some m) \<Rightarrow> [Try_send m] | _ \<Rightarrow> [])
      else [])"

lemma conn_subscribe_effect:
  assumes laws: "runtime_laws R V" and run: "conn_subscribe_to_topic R t (c, b) = (out, (c', b'))"
  shows "joins R V (c, b) (c', b')" and "out = retained R c b t"
    and "stream_of R c' u \<noteq> None \<longleftrightarrow> stream_of R c u \<noteq> None \<or> u = t \<and> topic R b u \<noteq> None"
proof -
  note sm = streammap_lawsD [OF runtime_lawsD(2) [OF laws]]
  have all: "joins R V (c, b) (c', b') \<and> out = retained R c b t \<and>
    (\<forall>u. stream_of R c' u \<noteq> None \<longleftrightarrow> stream_of R c u \<noteq> None \<or> u = t \<and> topic R b u \<noteq> None)"
  proof (cases "stream_of R c t")
    case (Some rx)
    then show ?thesis using run by (auto simp: stream_of_def sm(2) retained_def)
  next
    case None
    obtain r b1 where s: "subscribe_to_topic R t b = (r, b1)" by fastforce
    note q = subscribe_quiet [OF laws s]
    show ?thesis
    proof (cases r)
      case None': None
      then have "b1 = b" "topic R b t = None"
        using s q(3) by (auto simp: subscribe_to_topic_def Let_def split: option.splits prod.splits)
      then show ?thesis
        using run None s None' by (auto simp: stream_of_def sm(2) retained_def bus_abs_def)
    next
      case (Some p)
      then obtain rx lm where r: "r = Some (rx, lm)" by (cases p) auto
      have c': "c' = c\<lparr>topic_streams := sm_insert (rt_streams R) (topic_streams c) t rx\<rparr>"
          "b' = b1" "out = (case lm of Some m \<Rightarrow> [Try_send m] | None \<Rightarrow> [])"
        using run None s r by (auto simp: stream_of_def sm(2) split: option.splits)
      have st: "stream_of R c' u = (if u = t then Some rx else stream_of R c u)" for u
        by (simp add: stream_of_def c' sm(3))
      have fields: "topic_events c' = topic_events c" "subscriptions c' = subscriptions c"
        by (simp_all add: c')
      have "joins R V (c, b) (c', b')"
        using q(1) q(2) [OF r] None unfolding joins_def
        by (auto simp: st fields c'(2) split: if_splits)
      moreover have "topic R b t \<noteq> None" using q(3) r by simp
      ultimately show ?thesis
        using q(2) [OF r] None by (auto simp: st retained_def c'(3) split: option.splits)
    qed
  qed
  then show "joins R V (c, b) (c', b')" "out = retained R c b t"
    "stream_of R c' u \<noteq> None \<longleftrightarrow> stream_of R c u \<noteq> None \<or> u = t \<and> topic R b u \<noteq> None"
    by blast+
qed

lemma subscribe_matching_effect:
  assumes laws: "runtime_laws R V"
  shows "subscribe_matching R ts (c, b) = (out, (c', b')) \<Longrightarrow>
    joins R V (c, b) (c', b') \<and>
    (\<forall>u. stream_of R c' u \<noteq> None \<longleftrightarrow> stream_of R c u \<noteq> None \<or>
       u \<in> set ts \<and> tree_check (subscriptions c) u \<and> topic R b u \<noteq> None) \<and>
    (distinct ts \<longrightarrow>
       out = concat (List.map (retained R c b) (filter (tree_check (subscriptions c)) ts)))"
proof (induction ts arbitrary: c b out)
  case (Cons t ts)
  show ?case
  proof (cases "tree_check (subscriptions c) t")
    case False
    then obtain out' where "subscribe_matching R ts (c, b) = (out', (c', b'))" "out = out'"
      using Cons.prems by (auto simp: Let_def split: prod.splits)
    with Cons.IH [of c b out'] False show ?thesis by auto
  next
    case True
    then obtain o1 o2 c1 b1 where j: "conn_subscribe_to_topic R t (c, b) = (o1, (c1, b1))"
        "subscribe_matching R ts (c1, b1) = (o2, (c', b'))" "out = o1 @ o2"
      using Cons.prems by (auto simp: Let_def split: prod.splits)
    note e = conn_subscribe_effect [OF laws j(1)]
    have subs: "subscriptions c1 = subscriptions c" and tp: "topic R b1 = topic R b"
      and ab: "bus_abs R b1 = bus_abs R b"
      using e(1) bus_quietD(1,4) [of R V b b1] by (simp_all add: joins_def)
    note ih = Cons.IH [OF j(2), unfolded subs tp]
    have ret: "retained R c1 b1 u = retained R c b u" if "u \<noteq> t" for u
    proof -
      have "stream_of R c1 u = None \<longleftrightarrow> stream_of R c u = None" using e(3) [of u] that by blast
      then show ?thesis by (simp add: retained_def ab)
    qed
    have outs: "List.map (retained R c1 b1) (filter (tree_check (subscriptions c)) ts) =
        List.map (retained R c b) (filter (tree_check (subscriptions c)) ts)" if "distinct (t # ts)"
      using that by (intro map_cong refl ret) auto
    have "out = concat (List.map (retained R c b) (filter (tree_check (subscriptions c)) (t # ts)))"
      if "distinct (t # ts)"
      using outs [OF that] ih that e(2) j(3) True by (simp del: map_eq_conv)
    moreover have "stream_of R c' u \<noteq> None \<longleftrightarrow> stream_of R c u \<noteq> None \<or>
        u \<in> set (t # ts) \<and> tree_check (subscriptions c) u \<and> topic R b u \<noteq> None" for u
      using ih e(3) [of u] True by auto
    ultimately show ?thesis using joins_trans [OF e(1)] ih by blast
  qed
qed simp

section \<open>Commands\<close>

lemma handle_subscribe_effect:
  assumes laws: "runtime_laws R V" and run: "handle_subscribe R p (c, b) = (out, (c', b'))"
  shows "joins R V (c\<lparr>subscriptions := tree_insert (subscriptions c) p\<rparr>, b) (c', b')"
    and "subscriptions c' = tree_insert (subscriptions c) p"
    and "stream_of R c' t \<noteq> None \<longleftrightarrow>
      stream_of R c t \<noteq> None \<or> tree_check (tree_insert (subscriptions c) p) t \<and> topic R b t \<noteq> None"
    and "out = concat (List.map (retained R c b)
      (filter (tree_check (tree_insert (subscriptions c) p)) (list_topics R b)))"
proof -
  let ?c = "c\<lparr>subscriptions := tree_insert (subscriptions c) p\<rparr>"
  have run': "subscribe_matching R (list_topics R b) (?c, b) = (out, (c', b'))"
    using run by (simp add: Let_def)
  have st: "stream_of R ?c = stream_of R c" by (simp add: stream_of_def fun_eq_iff)
  have d: "distinct (list_topics R b)"
    using dashmap_lawsD(5) [OF runtime_lawsD(1) [OF laws]] by (simp add: list_topics_def)
  note e = subscribe_matching_effect [OF laws run']
  show j: "joins R V (?c, b) (c', b')" using e by blast
  show "subscriptions c' = tree_insert (subscriptions c) p" using j by (simp add: joins_def)
  show "stream_of R c' t \<noteq> None \<longleftrightarrow>
      stream_of R c t \<noteq> None \<or> tree_check (tree_insert (subscriptions c) p) t \<and> topic R b t \<noteq> None"
    using e list_topics_mem [OF laws, of t b] by (auto simp: st)
  have "retained R ?c b = retained R c b" by (simp add: retained_def st fun_eq_iff)
  then show "out = concat (List.map (retained R c b)
      (filter (tree_check (tree_insert (subscriptions c) p)) (list_topics R b)))"
    using e d by simp
qed

lemma drop_unmatched_effect:
  assumes laws: "runtime_laws R V"
  shows "stream_of R (drop_unmatched R ts c) u =
      (if u \<in> set ts \<and> \<not> tree_check (subscriptions c) u then None else stream_of R c u) \<and>
    subscriptions (drop_unmatched R ts c) = subscriptions c \<and>
    topic_events (drop_unmatched R ts c) = topic_events c"
  by (induction ts arbitrary: c)
    (auto simp: stream_of_def streammap_lawsD(4) [OF runtime_lawsD(2) [OF laws]])

lemma handle_unsubscribe_effect:
  assumes laws: "runtime_laws R V"
  shows "subscriptions (handle_unsubscribe R p c) = remove_ok (subscriptions c) p"
    and "topic_events (handle_unsubscribe R p c) = topic_events c"
    and "stream_of R (handle_unsubscribe R p c) t =
      (if tree_check (remove_ok (subscriptions c) p) t then stream_of R c t else None)"
proof -
  let ?c = "c\<lparr>subscriptions := remove_ok (subscriptions c) p\<rparr>"
  note e = drop_unmatched_effect [OF laws, of "sm_keys (rt_streams R) (topic_streams c)" ?c]
  have keys: "u \<in> set (sm_keys (rt_streams R) (topic_streams c)) \<longleftrightarrow> stream_of R c u \<noteq> None" for u
    by (simp add: stream_of_def streammap_lawsD(5) [OF runtime_lawsD(2) [OF laws]])
  show "subscriptions (handle_unsubscribe R p c) = remove_ok (subscriptions c) p"
    "topic_events (handle_unsubscribe R p c) = topic_events c"
    using e by (auto simp: handle_unsubscribe_def Let_def)
  have "stream_of R ?c t = stream_of R c t" by (simp add: stream_of_def)
  with e [of t] keys [of t] show "stream_of R (handle_unsubscribe R p c) t =
      (if tree_check (remove_ok (subscriptions c) p) t then stream_of R c t else None)"
    by (auto simp: handle_unsubscribe_def Let_def)
qed

lemma wired_subscriptions [simp]: "wired R V (c\<lparr>subscriptions := f\<rparr>) b \<longleftrightarrow> wired R V c b"
  by (simp add: wired_def stream_of_def)

section \<open>Properties\<close>

text \<open>A connection that has just started, on a bus with one topic.\<close>

definition conn0 :: "((rstring \<times> nat) list, nat) conn" where
  "conn0 = \<lparr>topic_streams = [], topic_events = 2, subscriptions = glob_tree_new\<rparr>"

definition bus_conn :: "((rstring \<times> nat topic_data) list, bytes chans, topic_event chans, nat) bus" where
  "bus_conn = bus_sub\<lparr>event_channels :=
     \<lparr>senders = [(1, CHANNEL_BUFFER_SIZE)], receivers = [(2, 1, [])]\<rparr>\<rparr>"

lemma wired_conn0: "wired rt0 views0 conn0 bus_conn"
  by (simp add: wired_def conn0_def bus_conn_def bus_sub_eq stream_of_def rt0_def list_streammap_def
      views0_def list_view_def)

text \<open>
  C18: a subscription takes effect on the topics that exist, completely: afterwards the connection has
  a stream for exactly the topics it had one for and the existing topics that its subscriptions now
  match; it is sent at once the last message of each topic it joined, once, and nothing else; and no
  topic, event or other receiver is affected.
\<close>
theorem handle_subscribe_exact:
  assumes laws: "runtime_laws R V" and w: "wired R V c b"
    and run: "handle_subscribe R p (c, b) = (out, (c', b'))"
  shows "(stream_of R c' t \<noteq> None \<longleftrightarrow>
      stream_of R c t \<noteq> None \<or> tree_check (tree_insert (subscriptions c) p) t \<and> bus_abs R b t \<noteq> None) \<and>
    out = concat (List.map (retained R c b)
      (filter (tree_check (tree_insert (subscriptions c) p)) (list_topics R b))) \<and>
    bus_quiet R V b b' \<and> wired R V c' b'"
proof -
  note e = handle_subscribe_effect [OF laws run]
  have "bus_abs R b t \<noteq> None \<longleftrightarrow> topic R b t \<noteq> None" by (simp add: bus_abs_def)
  then show ?thesis
    using e(3) [of t] e(4) e(1) joins_wired [OF e(1)] w by (simp add: joins_def)
qed

theorem handle_subscribe_exact_witness:
  "(stream_of rt0 (fst (snd (handle_subscribe rt0 (str ''*'') (conn0, bus_conn)))) (str ''a'') \<noteq> None \<longleftrightarrow>
      stream_of rt0 conn0 (str ''a'') \<noteq> None \<or>
      tree_check (tree_insert (subscriptions conn0) (str ''*'')) (str ''a'') \<and>
      bus_abs rt0 bus_conn (str ''a'') \<noteq> None) \<and>
   fst (handle_subscribe rt0 (str ''*'') (conn0, bus_conn)) =
     concat (List.map (retained rt0 conn0 bus_conn)
      (filter (tree_check (tree_insert (subscriptions conn0) (str ''*''))) (list_topics rt0 bus_conn))) \<and>
   bus_quiet rt0 views0 bus_conn (snd (snd (handle_subscribe rt0 (str ''*'') (conn0, bus_conn)))) \<and>
   wired rt0 views0 (fst (snd (handle_subscribe rt0 (str ''*'') (conn0, bus_conn))))
     (snd (snd (handle_subscribe rt0 (str ''*'') (conn0, bus_conn))))"
  by (rule handle_subscribe_exact [OF runtime_laws0 wired_conn0]) (simp only: prod.collapse)

text \<open>
  C19: an unsubscription ends exactly the streams that the remaining subscriptions do not match, and
  keeps every other one: whatever the removal left in the set of patterns, a connection is never
  left with a stream that does not match, nor deprived of one that does.
\<close>
theorem handle_unsubscribe_exact:
  assumes "runtime_laws R V"
  shows "stream_of R (handle_unsubscribe R p c) t =
      (if tree_check (subscriptions (handle_unsubscribe R p c)) t then stream_of R c t else None) \<and>
    subscriptions (handle_unsubscribe R p c) = remove_ok (subscriptions c) p \<and>
    topic_events (handle_unsubscribe R p c) = topic_events c"
  by (simp add: handle_unsubscribe_effect [OF assms])

theorem handle_unsubscribe_exact_witness:
  "stream_of rt0 (handle_unsubscribe rt0 (str ''*'') conn0) (str ''a'') =
      (if tree_check (subscriptions (handle_unsubscribe rt0 (str ''*'') conn0)) (str ''a'')
       then stream_of rt0 conn0 (str ''a'') else None) \<and>
   subscriptions (handle_unsubscribe rt0 (str ''*'') conn0) = remove_ok (subscriptions conn0) (str ''*'') \<and>
   topic_events (handle_unsubscribe rt0 (str ''*'') conn0) = topic_events conn0"
  by (rule handle_unsubscribe_exact [OF runtime_laws0])

end
