(* ===== verification/System.thy ===== *)
theory System
  imports Connection_Correct
begin

text \<open>
  The server as a whole: any number of connections on one bus. A step accepts a connection or runs
  one iteration of one handler's loop; the order of the steps is arbitrary. An iteration is one
  step here; \<open>Bus_Threads\<close> and \<open>Subscribe_Threads\<close> interleave the calls on the bus inside it.
\<close>

section \<open>Steps\<close>

record ('m, 'w, 'v, 's, 'h) sys =
  sys_bus :: "('m, 'w, 'v, 'h) bus"
  sys_conns :: "nat \<Rightarrow> ('s, 'h) conn option"

text \<open>\<open>Server::new\<close>: the bus, with the channels' state \<open>w\<close> and \<open>v\<close> before it.\<close>

definition server_new ::
  "('m, 'w, 'v, 's, 'h) runtime \<Rightarrow> 'w \<Rightarrow> 'v \<Rightarrow> ('m, 'w, 'v, 's, 'h) sys" where
  "server_new R w v = \<lparr>sys_bus = bus_new R w v, sys_conns = (\<lambda>_. None)\<rparr>"

datatype 'a action =
    Accept nat "conn_output list"
  | Iterate nat "'a branch" "conn_output list"

text \<open>
  \<open>Server::run\<close> accepts a socket and spawns a handler on a clone of the bus; \<open>ConnectionHandler::run\<close>
  reports the connection to the metric, iterates until a branch ends it, reports the end, and the handler
  is dropped. An action carries all that the handler sends in the step.
\<close>

inductive sys_step ::
  "('m, 'w, 'v, 's, 'h) runtime \<Rightarrow> 'a externals \<Rightarrow> ('m, 'w, 'v, 's, 'h) sys \<Rightarrow> 'a action \<Rightarrow>
   ('m, 'w, 'v, 's, 'h) sys \<Rightarrow> bool" for R E where
  accept: "sys_conns s i = None \<Longrightarrow> conn_new R (sys_bus s) = (c, b) \<Longrightarrow>
     sys_step R E s (Accept i run_start) \<lparr>sys_bus = b, sys_conns = (sys_conns s)(i := Some c)\<rparr>"
| iterate: "sys_conns s i = Some c \<Longrightarrow> run_iteration R E br (c, sys_bus s) = (go_on, out, c', b) \<Longrightarrow>
     sys_step R E s (Iterate i br (out @ run_end go_on))
       \<lparr>sys_bus = b, sys_conns = (sys_conns s)(i := (if go_on then Some c' else None))\<rparr>"

inductive_cases accept_elim: "sys_step R E s (Accept i out) s'"
inductive_cases iterate_elim: "sys_step R E s (Iterate i br out) s'"

text \<open>States reached by steps that satisfy a condition \<open>ok\<close>, with the steps taken.\<close>

inductive reachable ::
  "('m, 'w, 'v, 's, 'h) runtime \<Rightarrow> 'a externals \<Rightarrow>
   (('m, 'w, 'v, 's, 'h) sys \<Rightarrow> 'a action \<Rightarrow> bool) \<Rightarrow> 'w \<Rightarrow> 'v \<Rightarrow> 'a action list \<Rightarrow>
   ('m, 'w, 'v, 's, 'h) sys \<Rightarrow> bool" for R E ok w v where
  start: "reachable R E ok w v [] (server_new R w v)"
| next_step: "reachable R E ok w v acts s \<Longrightarrow> ok s a \<Longrightarrow> sys_step R E s a s' \<Longrightarrow>
     reachable R E ok w v (acts @ [a]) s'"

section \<open>One iteration\<close>

lemma bus_quiet_ext: "bus_quiet R V b b' \<Longrightarrow> bus_ext R V b b'"
  unfolding bus_quiet_def bus_ext_def by auto

lemma bus_ext_wired: "bus_ext R V b b' \<Longrightarrow> wired R V c b \<Longrightarrow> wired R V c b'"
  unfolding wired_def using bus_ext_receives bus_ext_event_receiver by metis

text \<open>
  The messages an action publishes on a topic, and those a handler forwards from a stream.
\<close>

fun publish_of :: "'a externals \<Rightarrow> rstring \<Rightarrow> 'a branch \<Rightarrow> bytes list" where
  "publish_of E t (On_command (Some (Publish m))) =
     (if msg_topic m = t then (case message_bytes E m of Inl e \<Rightarrow> [] | Inr bs \<Rightarrow> [bs]) else [])"
| "publish_of E t (On_command (Some (Subscribe p))) = []"
| "publish_of E t (On_command (Some (Unsubscribe p))) = []"
| "publish_of E t (On_command None) = []"
| "publish_of E t On_topic_event = []"
| "publish_of E t (On_stream u ok) = []"

fun sent :: "conn_output list \<Rightarrow> bytes list" where
  "sent [] = []"
| "sent (Send_bytes m # out) = m # sent out"
| "sent (x # out) = sent out"

lemma sent_append: "sent (xs @ ys) = sent xs @ sent ys"
  by (induction xs rule: sent.induct) auto

lemma sent_start_end [simp]: "sent run_start = []" "sent (run_end go_on) = []" "sent (out @ run_end go_on) = sent out"
  by (simp_all add: run_start_def run_end_def sent_append)

fun forward_of :: "rstring \<Rightarrow> 'a branch \<Rightarrow> conn_output list \<Rightarrow> bytes list" where
  "forward_of t (On_stream u ok) out = (if u = t then sent out else [])"
| "forward_of t (On_command cmd) out = []"
| "forward_of t On_topic_event out = []"

lemma forward_of_end [simp]: "forward_of t br (out @ run_end go_on) = forward_of t br out"
  by (cases br) simp_all

text \<open>What one iteration of a handler may do to the bus and to its own streams.\<close>

definition iteration_effect ::
  "('m, 'w, 'v, 's, 'h) runtime \<Rightarrow> ('w, 'v, 'h) views \<Rightarrow> 'a externals \<Rightarrow> 'a branch \<Rightarrow>
   ('m, 'w, 'v, 's, 'h) handler \<Rightarrow> conn_output list \<Rightarrow> ('m, 'w, 'v, 's, 'h) handler \<Rightarrow> bool" where
  "iteration_effect R V E br s out s' \<longleftrightarrow>
     bus_inv R V (snd s') \<and> bus_ext R V (snd s) (snd s') \<and>
     topic_events (fst s') = topic_events (fst s) \<and>
     (\<forall>t rx. stream_of R (fst s') t = Some rx \<longrightarrow> stream_of R (fst s) t = Some rx \<or>
        listens (msg_view V) (message_channels (snd s)) rx = None \<and> receives R V (snd s') t rx \<and>
          msg_pending V (snd s') rx = [] \<and> forward_of t br out = []) \<and>
     (\<forall>t rx. receives R V (snd s) t rx \<longrightarrow> stream_of R (fst s) t \<noteq> Some rx \<longrightarrow>
        subseq (msg_pending V (snd s') rx) (msg_pending V (snd s) rx @ publish_of E t br)) \<and>
     (\<forall>t rx. receives R V (snd s) t rx \<longrightarrow> stream_of R (fst s) t = Some rx \<longrightarrow>
        subseq (forward_of t br out @ msg_pending V (snd s') rx)
          (msg_pending V (snd s) rx @ publish_of E t br)) \<and>
     (\<forall>t. stream_of R (fst s) t = None \<longrightarrow> forward_of t br out = [])"

lemma iteration_effectI_joins:
  assumes inv: "bus_inv R V b" and w: "wired R V c b" and j: "joins R V (c, b) (c', b')"
    and none: "\<And>t. forward_of t br out = []" "\<And>t. publish_of E t br = []"
  shows "iteration_effect R V E br (c, b) out (c', b')"
proof -
  have q: "bus_quiet R V b b'" using j by (simp add: joins_def)
  note qd = bus_quietD [OF q]
  show ?thesis
    unfolding iteration_effect_def fst_conv snd_conv none
  proof (intro conjI allI impI)
    show "bus_inv R V b'" by (rule qd(7) [OF inv])
    show "bus_ext R V b b'" by (rule bus_quiet_ext [OF q])
    show "topic_events c' = topic_events c" using j by (simp add: joins_def)
    show "stream_of R c t = Some rx \<or>
        listens (msg_view V) (message_channels b) rx = None \<and> receives R V b' t rx \<and>
          msg_pending V b' rx = [] \<and> [] = []" if "stream_of R c' t = Some rx" for t rx
      using j that qd(8) unfolding joins_def by fastforce
  qed (simp_all add: qd(6))
qed

lemma iteration_effect_subscriptions:
  "iteration_effect R V E br (c\<lparr>subscriptions := f\<rparr>, b) out s' \<longleftrightarrow>
   iteration_effect R V E br (c, b) out s'"
  by (simp add: iteration_effect_def stream_of_def)

text \<open>Polling the topic events takes one event at most and touches nothing else.\<close>

lemma event_poll_effect:
  assumes laws: "runtime_laws R V"
    and poll: "bc_recv (rt_events R) rx (event_channels b) = (r, v)"
  shows "bus_ext R V b (b\<lparr>event_channels := v\<rparr>)"
    and "topic R (b\<lparr>event_channels := v\<rparr>) = topic R b"
    and "receives R V (b\<lparr>event_channels := v\<rparr>) = receives R V b"
    and "bus_inv R V b \<Longrightarrow> bus_inv R V (b\<lparr>event_channels := v\<rparr>)"
    and "ev_pending V b rx =
      (case r of Received x \<Rightarrow> [x] | _ \<Rightarrow> []) @ ev_pending V (b\<lparr>event_channels := v\<rparr>) rx"
    and "rx' \<noteq> rx \<Longrightarrow> ev_pending V (b\<lparr>event_channels := v\<rparr>) rx' = ev_pending V b rx'"
proof -
  note l = recvD [OF runtime_lawsD(4) [OF laws] poll]
  show tp: "topic R (b\<lparr>event_channels := v\<rparr>) = topic R b" by (simp add: topic_def fun_eq_iff)
  show "receives R V (b\<lparr>event_channels := v\<rparr>) = receives R V b"
    by (simp add: receives_def tp fun_eq_iff)
  show "bus_ext R V b (b\<lparr>event_channels := v\<rparr>)" by (simp add: bus_ext_def tp l)
  show "bus_inv R V b \<Longrightarrow> bus_inv R V (b\<lparr>event_channels := v\<rparr>)" by (simp add: bus_inv_def tp l)
  show "ev_pending V b rx =
      (case r of Received x \<Rightarrow> [x] | _ \<Rightarrow> []) @ ev_pending V (b\<lparr>event_channels := v\<rparr>) rx"
    using l(4) by simp
  show "rx' \<noteq> rx \<Longrightarrow> ev_pending V (b\<lparr>event_channels := v\<rparr>) rx' = ev_pending V b rx'"
    using l(3) by simp
qed

lemma iteration_effect_events:
  assumes "bus_ext R V b (b\<lparr>event_channels := v\<rparr>)"
    and "iteration_effect R V E br (c, b\<lparr>event_channels := v\<rparr>) out s'"
  shows "iteration_effect R V E br (c, b) out s'"
proof -
  have "receives R V (b\<lparr>event_channels := v\<rparr>) = receives R V b"
    by (simp add: receives_def topic_def fun_eq_iff)
  then show ?thesis
    using assms(2) bus_ext_trans [OF assms(1)] by (simp add: iteration_effect_def)
qed

lemma stream_poll_effect:
  assumes laws: "runtime_laws R V" and inv: "bus_inv R V b" and wired: "wired R V c b"
    and st: "stream_of R c u = Some rx"
    and poll: "bc_recv (rt_messages R) rx (message_channels b) = (r, w)"
    and out: "sent out = (case r of Received x \<Rightarrow> [x] | _ \<Rightarrow> [])"
  shows "iteration_effect R V E (On_stream u ok) (c, b) out (c, b\<lparr>message_channels := w\<rparr>)"
proof -
  note l = recvD [OF runtime_lawsD(3) [OF laws] poll]
  let ?b = "b\<lparr>message_channels := w\<rparr>"
  have tp: "topic R ?b = topic R b" by (simp add: topic_def fun_eq_iff)
  have pend: "msg_pending V b rx = sent out @ msg_pending V ?b rx" using l(4) out by simp
  have unique: "t = u" if "receives R V b t rx" for t
    using receives_unique [OF inv that] wired st by (simp add: wired_def)
  have keep: "msg_pending V ?b rx' = msg_pending V b rx'" if "rx' \<noteq> rx" for rx' using l(3) that by simp
  show ?thesis
    unfolding iteration_effect_def fst_conv snd_conv publish_of.simps append_Nil2
  proof (intro conjI allI impI)
    show "bus_inv R V ?b" using inv by (simp add: bus_inv_def tp l)
    show "bus_ext R V b ?b" by (simp add: bus_ext_def tp l)
    fix t rx' assume rc: "receives R V b t rx'"
    show "subseq (msg_pending V ?b rx') (msg_pending V b rx')"
      using keep [of rx'] pend by (cases "rx' = rx") auto
    show "subseq (forward_of t (On_stream u ok) out @ msg_pending V ?b rx') (msg_pending V b rx')"
      if st': "stream_of R c t = Some rx'"
    proof (cases "rx' = rx")
      case True
      with unique rc have "t = u" by simp
      with pend True show ?thesis by simp
    next
      case False
      with st st' have "u \<noteq> t" by auto
      with keep [OF False] show ?thesis by simp
    qed
  next
    fix t assume "stream_of R c t = None"
    with st show "forward_of t (On_stream u ok) out = []" by auto
  qed (simp_all)
qed

lemma publish_effect:
  assumes laws: "runtime_laws R V" and inv: "bus_inv R V b"
  shows "iteration_effect R V E (On_command (Some (Publish m))) (c, b) out (c, handle_publish R E m b)"
proof (cases "message_bytes E m")
  case (Inl e)
  then show ?thesis using inv by (auto simp: iteration_effect_def handle_publish_def)
next
  case (Inr bs)
  then have b': "handle_publish R E m b = snd (bus_send R (msg_topic m) bs b)"
    by (simp add: handle_publish_def)
  note e = bus_send_effect [OF laws inv surjective_pairing, where t = "msg_topic m" and m = bs]
  show ?thesis
    unfolding iteration_effect_def b' fst_conv snd_conv
  proof (intro conjI allI impI)
    fix t rx assume rc: "receives R V b t rx"
    show sub: "subseq (msg_pending V (snd (bus_send R (msg_topic m) bs b)) rx)
        (msg_pending V b rx @ publish_of E t (On_command (Some (Publish m))))"
    proof (cases "receives R V b (msg_topic m) rx")
      case True
      with receives_unique [OF inv rc] have "msg_topic m = t" by simp
      with e(6) [OF True] Inr show ?thesis by (simp add: suffix_imp_subseq)
    next
      case False
      then show ?thesis by (simp only: e(7) [OF False]) (intro prefix_imp_subseq, simp)
    qed
    show "subseq (forward_of t (On_command (Some (Publish m))) out @
        msg_pending V (snd (bus_send R (msg_topic m) bs b)) rx)
        (msg_pending V b rx @ publish_of E t (On_command (Some (Publish m))))"
      using sub by simp
  qed (simp_all add: e(2,3))
qed

lemma run_iteration_effect:
  assumes laws: "runtime_laws R V" and inv: "bus_inv R V b" and w: "wired R V c b"
    and run: "run_iteration R E br (c, b) = (go_on, out, (c', b'))"
  shows "iteration_effect R V E br (c, b) out (c', b')"
proof (cases br)
  case (On_command cmd)
  show ?thesis
  proof (cases cmd)
    case None
    then show ?thesis using run On_command inv by (auto simp: iteration_effect_def)
  next
    case (Some cmd')
    show ?thesis
    proof (cases cmd')
      case (Publish m)
      then show ?thesis using run On_command Some publish_effect [OF laws inv] by auto
    next
      case (Subscribe p)
      obtain o' where h: "handle_subscribe R p (c, b) = (o', (c', b'))"
        using run On_command Some Subscribe
        by (auto simp: Let_def simp del: handle_subscribe.simps split: prod.splits)
      have "iteration_effect R V E br (c\<lparr>subscriptions := tree_insert (subscriptions c) p\<rparr>, b) out (c', b')"
        by (rule iteration_effectI_joins [OF inv _ handle_subscribe_effect(1) [OF laws h]])
          (simp_all add: w On_command Some Subscribe)
      then show ?thesis by (simp add: iteration_effect_subscriptions)
    next
      case (Unsubscribe p)
      then have "c' = handle_unsubscribe R p c" "b' = b" using run On_command Some by auto
      then show ?thesis
        using inv w On_command Some Unsubscribe
        by (auto simp: iteration_effect_def handle_unsubscribe_effect [OF laws] split: if_splits)
    qed
  qed
next
  case On_topic_event
  obtain r v where poll: "bc_recv (rt_events R) (topic_events c) (event_channels b) = (r, v)"
    by fastforce
  note ev = event_poll_effect [OF laws poll]
  let ?b = "b\<lparr>event_channels := v\<rparr>"
  have j: "joins R V (c, ?b) (c', b')"
  proof (cases r)
    case (Received e)
    then obtain name where h: "handle_new_topic R name (c, ?b) = (out, (c', b'))"
      using run On_topic_event poll by (cases e) auto
    show ?thesis
    proof (cases "tree_check (subscriptions c) name")
      case True
      with h conn_subscribe_effect(1) [OF laws] show ?thesis
        by (simp add: handle_new_topic_def del: conn_subscribe_to_topic.simps)
    next
      case False
      with h show ?thesis by (simp add: handle_new_topic_def)
    qed
  qed (use run On_topic_event poll in auto)
  have "iteration_effect R V E br (c, ?b) out (c', b')"
    by (rule iteration_effectI_joins [OF ev(4) [OF inv] bus_ext_wired [OF ev(1) w] j])
      (simp_all add: On_topic_event)
  then show ?thesis by (rule iteration_effect_events [OF ev(1)])
next
  case (On_stream u ok)
  show ?thesis
  proof (cases "stream_of R c u")
    case None
    then show ?thesis
      using run On_stream inv by (auto simp: iteration_effect_def stream_of_def)
  next
    case (Some rx)
    obtain r ws where poll: "bc_recv (rt_messages R) rx (message_channels b) = (r, ws)" by fastforce
    have "c' = c" "b' = b\<lparr>message_channels := ws\<rparr>"
        "sent out = (case r of Received x \<Rightarrow> [x] | _ \<Rightarrow> [])"
      using run On_stream Some poll
      by (auto simp: stream_of_def forward_message_to_client_def split: recv_result.splits)
    with stream_poll_effect [OF laws inv w Some poll] On_stream show ?thesis by simp
  qed
qed

end
