(* ===== verification/Mpsc.thy ===== *)
theory Mpsc
  imports Main
begin

text \<open>
  The bounded channels between the server's tasks, \<open>tokio::sync::mpsc\<close>, as a parameter, like the
  libraries of \<open>Runtime\<close>: a record holds the calls, a predicate states what their documentation
  promises, and the last lines give one concrete instance, for the witnesses.
\<close>

section \<open>The calls and their laws\<close>

text \<open>
  \<open>mq_send\<close> is None where the call has to wait, \<open>mq_recv\<close> where there is nothing to receive.
  \<open>mq_contents\<close> and \<open>mq_capacity\<close> are what can be observed of a channel.
\<close>

record ('q, 'a) mpsc =
  mq_channel :: "nat \<Rightarrow> 'q"
  mq_try_send :: "'a \<Rightarrow> 'q \<Rightarrow> bool \<times> 'q"
  mq_send :: "'a \<Rightarrow> 'q \<Rightarrow> 'q option"
  mq_recv :: "'q \<Rightarrow> ('a \<times> 'q) option"
  mq_contents :: "'q \<Rightarrow> 'a list"
  mq_capacity :: "'q \<Rightarrow> nat"

definition put_law :: "('q, 'a) mpsc \<Rightarrow> bool" where
  "put_law C \<longleftrightarrow>
     (\<forall>q m. if length (mq_contents C q) < mq_capacity C q
        then (\<exists>q'. mq_try_send C m q = (True, q') \<and> mq_send C m q = Some q' \<and>
          mq_contents C q' = mq_contents C q @ [m] \<and> mq_capacity C q' = mq_capacity C q)
        else mq_try_send C m q = (False, q) \<and> mq_send C m q = None)"

definition take_law :: "('q, 'a) mpsc \<Rightarrow> bool" where
  "take_law C \<longleftrightarrow>
     (\<forall>q. case mq_contents C q of
        [] \<Rightarrow> mq_recv C q = None
      | m # ms \<Rightarrow> (\<exists>q'. mq_recv C q = Some (m, q') \<and> mq_contents C q' = ms \<and>
          mq_capacity C q' = mq_capacity C q))"

definition mpsc_laws :: "('q, 'a) mpsc \<Rightarrow> bool" where
  "mpsc_laws C \<longleftrightarrow>
     (\<forall>n. mq_contents C (mq_channel C n) = [] \<and> mq_capacity C (mq_channel C n) = n) \<and>
     put_law C \<and> take_law C"

lemma channel_new:
  "mpsc_laws C \<Longrightarrow> mq_contents C (mq_channel C n) = []"
  "mpsc_laws C \<Longrightarrow> mq_capacity C (mq_channel C n) = n"
  by (simp_all add: mpsc_laws_def)

lemma put_room:
  assumes "mpsc_laws C" and "length (mq_contents C q) < mq_capacity C q"
  obtains q' where "mq_try_send C m q = (True, q')" "mq_send C m q = Some q'"
    "mq_contents C q' = mq_contents C q @ [m]" "mq_capacity C q' = mq_capacity C q"
  using assms unfolding mpsc_laws_def put_law_def by meson

lemma put_full:
  assumes "mpsc_laws C" and "\<not> length (mq_contents C q) < mq_capacity C q"
  shows "mq_try_send C m q = (False, q)" and "mq_send C m q = None"
  using assms unfolding mpsc_laws_def put_law_def by meson+

text \<open>A send that does not wait.\<close>

lemma send_some:
  assumes "mpsc_laws C" and "mq_send C x q = Some q'"
  shows "length (mq_contents C q) < mq_capacity C q" "mq_contents C q' = mq_contents C q @ [x]"
    "mq_capacity C q' = mq_capacity C q"
proof -
  show room: "length (mq_contents C q) < mq_capacity C q"
    using put_full(2) [OF assms(1), of q x] assms(2) by fastforce
  show "mq_contents C q' = mq_contents C q @ [x]" "mq_capacity C q' = mq_capacity C q"
    using put_room [OF assms(1) room, of x] assms(2) by (metis option.inject)+
qed

lemma recv_iff:
  assumes "mpsc_laws C"
  shows "mq_recv C q = None \<longleftrightarrow> mq_contents C q = []"
    and "mq_recv C q = Some (m, q') \<Longrightarrow>
      mq_contents C q = m # mq_contents C q' \<and> mq_capacity C q' = mq_capacity C q"
proof -
  have l: "case mq_contents C q of [] \<Rightarrow> mq_recv C q = None
      | m # ms \<Rightarrow> (\<exists>q'. mq_recv C q = Some (m, q') \<and> mq_contents C q' = ms \<and>
          mq_capacity C q' = mq_capacity C q)"
    using assms unfolding mpsc_laws_def take_law_def by blast
  show "mq_recv C q = None \<longleftrightarrow> mq_contents C q = []" using l by (cases "mq_contents C q") auto
  show "mq_recv C q = Some (m, q') \<Longrightarrow>
      mq_contents C q = m # mq_contents C q' \<and> mq_capacity C q' = mq_capacity C q"
    using l by (cases "mq_contents C q") auto
qed

text \<open>One instance: a list with its capacity.\<close>

definition list_mpsc :: "(nat \<times> 'a list, 'a) mpsc" where
  "list_mpsc =
     \<lparr>mq_channel = (\<lambda>n. (n, [])),
      mq_try_send = (\<lambda>m (n, q). if length q < n then (True, n, q @ [m]) else (False, n, q)),
      mq_send = (\<lambda>m (n, q). if length q < n then Some (n, q @ [m]) else None),
      mq_recv = (\<lambda>(n, q). case q of [] \<Rightarrow> None | m # ms \<Rightarrow> Some (m, n, ms)),
      mq_contents = snd, mq_capacity = fst\<rparr>"

lemma list_mpsc_laws: "mpsc_laws list_mpsc"
  by (auto simp: mpsc_laws_def put_law_def take_law_def list_mpsc_def split: list.splits)

end
