(* ===== verification/Outbox.thy ===== *)
theory Outbox
  imports System Tcp_Adapter Mpsc
begin

text \<open>
  The channel between a connection's handler and its write task (\<open>TcpAdapter::spawn_write_loop\<close>,
  \<open>lbroker/src/server.rs\<close>): the handler puts retained messages into it with \<open>try_send\<close>, which gives
  up when it is full, and messages from its streams with \<open>send\<close>, which waits; the write task takes
  them out.
\<close>

section \<open>Handler and write task\<close>

text \<open>
  What the handler has yet to perform of its outputs, in order, the channel, and what the write task
  has received (with it, the iterations of \<open>write_loop\<close> on messages).
\<close>

record 'q outbox =
  todo :: "conn_output list"
  queue :: 'q
  taken :: "bytes list"

definition outbox_new :: "('q, bytes) mpsc \<Rightarrow> conn_output list \<Rightarrow> 'q outbox" where
  "outbox_new C out = \<lparr>todo = out, queue = mq_channel C CHANNEL_BUFFER_SIZE, taken = []\<rparr>"

text \<open>The handler's next output: None while it waits.\<close>

fun perform :: "('q, bytes) mpsc \<Rightarrow> conn_output \<Rightarrow> 'q \<Rightarrow> 'q option" where
  "perform C (Try_send m) q = Some (snd (mq_try_send C m q))"
| "perform C (Send_bytes m) q = mq_send C m q"
| "perform C (Connection_add n) q = Some q"
| "perform C (Connection_subtract n) q = Some q"
| "perform C Command_increment q = Some q"
| "perform C Sent_increment q = Some q"
| "perform C (Log_command l) q = Some q"

inductive outbox_step :: "('q, bytes) mpsc \<Rightarrow> 'q outbox \<Rightarrow> 'q outbox \<Rightarrow> bool" for C where
  put: "perform C x q = Some q' \<Longrightarrow>
    outbox_step C \<lparr>todo = x # out, queue = q, taken = ms\<rparr> \<lparr>todo = out, queue = q', taken = ms\<rparr>"
| take: "mq_recv C q = Some (m, q') \<Longrightarrow>
    outbox_step C \<lparr>todo = out, queue = q, taken = ms\<rparr> \<lparr>todo = out, queue = q', taken = ms @ [m]\<rparr>"

inductive outbox_run :: "('q, bytes) mpsc \<Rightarrow> conn_output list \<Rightarrow> nat \<Rightarrow> 'q outbox \<Rightarrow> bool" for C out where
  run_start: "outbox_run C out 0 (outbox_new C out)"
| run_step: "outbox_run C out n s \<Longrightarrow> outbox_step C s s' \<Longrightarrow> outbox_run C out (Suc n) s'"

text \<open>The messages of the outputs, of both kinds.\<close>

fun carried :: "conn_output list \<Rightarrow> bytes list" where
  "carried [] = []"
| "carried (Send_bytes m # out) = m # carried out"
| "carried (Try_send m # out) = m # carried out"
| "carried (x # out) = carried out"

lemma carried_append: "carried (xs @ ys) = carried xs @ carried ys"
  by (induction xs rule: carried.induct) auto

lemma carried_start_end [simp]: "carried run_start = []" "carried (run_end go_on) = []" "carried (out @ run_end go_on) = carried out"
  by (simp_all add: run_start_def run_end_def carried_append)

lemma carried_Cons: "carried (x # xs) = carried [x] @ carried xs"
  using carried_append [of "[x]" xs] by simp

lemma perform_effect:
  assumes laws: "mpsc_laws C" and p: "perform C x q = Some q'"
  shows "mq_capacity C q' = mq_capacity C q"
    and "mq_contents C q' = mq_contents C q @ carried [x] \<or>
      mq_contents C q' = mq_contents C q \<and> mq_capacity C q \<le> length (mq_contents C q) \<and> sent [x] = []"
proof -
  have all: "mq_capacity C q' = mq_capacity C q \<and>
    (mq_contents C q' = mq_contents C q @ carried [x] \<or>
      mq_contents C q' = mq_contents C q \<and> mq_capacity C q \<le> length (mq_contents C q) \<and> sent [x] = [])"
  proof (cases "length (mq_contents C q) < mq_capacity C q")
    case True
    show ?thesis
    proof (cases "carried [x] = []")
      case True
      with p show ?thesis by (cases x) auto
    next
      case False
      then obtain m where x: "x = Try_send m \<or> x = Send_bytes m" by (cases x) auto
      obtain q1 where "mq_try_send C m q = (True, q1)" "mq_send C m q = Some q1"
          "mq_contents C q1 = mq_contents C q @ [m]" "mq_capacity C q1 = mq_capacity C q"
        using put_room [OF laws True] by metis
      with p x show ?thesis by auto
    qed
  next
    case False
    with p put_full [OF laws False] show ?thesis by (cases x) auto
  qed
  then show "mq_capacity C q' = mq_capacity C q"
    "mq_contents C q' = mq_contents C q @ carried [x] \<or>
      mq_contents C q' = mq_contents C q \<and> mq_capacity C q \<le> length (mq_contents C q) \<and> sent [x] = []"
    by blast+
qed

text \<open>What is through the channel or in it, in the order in which it was put.\<close>

definition through :: "('q, bytes) mpsc \<Rightarrow> 'q outbox \<Rightarrow> bytes list" where
  "through C s = taken s @ mq_contents C (queue s)"

definition outbox_inv :: "('q, bytes) mpsc \<Rightarrow> conn_output list \<Rightarrow> 'q outbox \<Rightarrow> bool" where
  "outbox_inv C out s \<longleftrightarrow> mq_capacity C (queue s) = CHANNEL_BUFFER_SIZE \<and>
     (\<exists>dn. out = dn @ todo s \<and> subseq (through C s) (carried dn) \<and> subseq (sent dn) (through C s) \<and>
       (through C s = carried dn \<or> CHANNEL_BUFFER_SIZE < length (carried dn)))"

lemma sent_carried: "subseq (sent out) (carried out)"
  by (induction out rule: carried.induct) auto

lemma outbox_step_inv:
  assumes laws: "mpsc_laws C" and inv: "outbox_inv C out s" and step: "outbox_step C s s'"
  shows "outbox_inv C out s'"
  using step
proof cases
  case (take q m q' rest ms)
  note r = recv_iff(2) [OF laws take(3)]
  with take have "through C s' = through C s" "todo s' = todo s"
      "mq_capacity C (queue s') = mq_capacity C (queue s)"
    by (simp_all add: through_def)
  with inv show ?thesis by (simp add: outbox_inv_def)
next
  case (put x q q' rest ms)
  note e = perform_effect [OF laws put(3)]
  obtain dn where dn: "out = dn @ x # rest" "subseq (through C s) (carried dn)"
      "subseq (sent dn) (through C s)" "mq_capacity C q = CHANNEL_BUFFER_SIZE"
      "through C s = carried dn \<or> CHANNEL_BUFFER_SIZE < length (carried dn)"
    using inv by (auto simp: outbox_inv_def put(1))
  have fields: "todo s' = rest" "queue s' = q'" by (simp_all add: put(2))
  have "subseq (through C s') (carried (dn @ [x])) \<and> subseq (sent (dn @ [x])) (through C s') \<and>
      (through C s' = carried (dn @ [x]) \<or> CHANNEL_BUFFER_SIZE < length (carried (dn @ [x])))"
    using e(2)
  proof
    assume "mq_contents C q' = mq_contents C q @ carried [x]"
    then have "through C s' = through C s @ carried [x]" by (simp add: through_def put(1,2))
    with dn show ?thesis
      by (auto simp: carried_append sent_append intro: list_emb_append_mono sent_carried)
  next
    assume full: "mq_contents C q' = mq_contents C q \<and> mq_capacity C q \<le> length (mq_contents C q) \<and>
      sent [x] = []"
    then have same: "through C s' = through C s" by (simp add: through_def put(1,2))
    have "CHANNEL_BUFFER_SIZE \<le> length (carried dn)"
      using list_emb_length [OF dn(2)] full dn(4) by (simp add: through_def put(1))
    then have over: "CHANNEL_BUFFER_SIZE < length (carried (dn @ [x]))" if "carried [x] \<noteq> []"
      using that by (cases "carried [x]") (simp_all add: carried_append)
    have "subseq (through C s) (carried (dn @ [x]))"
      unfolding carried_append by (rule subseq_order.order_trans [OF dn(2)]) (simp add: prefix_imp_subseq)
    moreover have "through C s = carried (dn @ [x]) \<or> CHANNEL_BUFFER_SIZE < length (carried (dn @ [x]))"
    proof (cases "carried [x] = []")
      case True
      with dn(5) show ?thesis by (simp add: carried_append)
    next
      case False
      with over show ?thesis by blast
    qed
    ultimately show ?thesis using dn(3) full by (simp add: same sent_append)
  qed
  moreover have "mq_capacity C q' = CHANNEL_BUFFER_SIZE" using e(1) dn(4) by simp
  ultimately show ?thesis
    unfolding outbox_inv_def fields using dn(1) by (intro conjI exI [of _ "dn @ [x]"]) simp_all
qed

lemma outbox_run_inv:
  assumes laws: "mpsc_laws C" and run: "outbox_run C out n s"
  shows "outbox_inv C out s"
  using run
proof induction
  case run_start
  then show ?case by (simp add: outbox_inv_def outbox_new_def through_def channel_new [OF laws])
next
  case (run_step n s s')
  then show ?case using outbox_step_inv [OF laws] by blast
qed

section \<open>Progress\<close>

lemma perform_room:
  assumes laws: "mpsc_laws C" and room: "length (mq_contents C q) < mq_capacity C q"
  shows "\<exists>q'. perform C x q = Some q'"
proof (cases x)
  case (Send_bytes m)
  with put_room [OF laws room, of m] show ?thesis by auto
qed simp_all

lemma outbox_stuck:
  assumes laws: "mpsc_laws C" and inv: "outbox_inv C out s" and stuck: "\<And>s'. \<not> outbox_step C s s'"
  shows "todo s = [] \<and> mq_contents C (queue s) = []"
proof -
  obtain xs q ms where s: "s = \<lparr>todo = xs, queue = q, taken = ms\<rparr>" by (cases s)
  have "mq_recv C q = None"
  proof (cases "mq_recv C q")
    case (Some r)
    obtain m q' where "r = (m, q')" by (cases r)
    with outbox_step.take [of C q m q' xs ms] Some stuck show ?thesis by (simp add: s)
  qed
  then have empty: "mq_contents C q = []" by (simp add: recv_iff(1) [OF laws])
  have room: "length (mq_contents C q) < mq_capacity C q"
    using inv empty by (simp add: outbox_inv_def s)
  have "xs = []"
  proof (cases xs)
    case (Cons x out')
    obtain q' where "perform C x q = Some q'" using perform_room [OF laws room] by blast
    from outbox_step.put [OF this, of out' ms] Cons stuck show ?thesis by (simp add: s)
  qed simp
  with empty show ?thesis by (simp add: s)
qed

lemma outbox_step_measure:
  assumes laws: "mpsc_laws C" and step: "outbox_step C s s'"
  shows "2 * length (todo s') + length (mq_contents C (queue s')) <
    2 * length (todo s) + length (mq_contents C (queue s))"
  using step
proof cases
  case (put x q q' out ms)
  have "length (carried [x]) \<le> 1" by (cases x) auto
  with perform_effect(2) [OF laws put(3)] show ?thesis by (auto simp: put(1,2))
next
  case (take q m q' out ms)
  with recv_iff(2) [OF laws take(3)] show ?thesis by simp
qed

lemma outbox_run_bound:
  assumes laws: "mpsc_laws C" and run: "outbox_run C out n s"
  shows "n + 2 * length (todo s) + length (mq_contents C (queue s)) \<le> 2 * length out"
  using run
proof induction
  case run_start
  then show ?case by (simp add: outbox_new_def channel_new [OF laws])
next
  case (run_step n s s')
  then show ?case using outbox_step_measure [OF laws run_step.hyps(2)] by simp
qed

section \<open>Properties\<close>

text \<open>A run in which the handler sends a retained message and one of a stream.\<close>

definition out_rs :: "conn_output list" where
  "out_rs = [Try_send [1], Sent_increment, Send_bytes [2]]"

definition box :: "conn_output list \<Rightarrow> bytes list \<Rightarrow> bytes list \<Rightarrow> (nat \<times> bytes list) outbox" where
  "box out q ms = \<lparr>todo = out, queue = (CHANNEL_BUFFER_SIZE, q), taken = ms\<rparr>"

lemma box_put:
  "perform list_mpsc x (CHANNEL_BUFFER_SIZE, q) = Some (CHANNEL_BUFFER_SIZE, q') \<Longrightarrow>
   outbox_step list_mpsc (box (x # out) q ms) (box out q' ms)"
  using outbox_step.put [of list_mpsc x "(CHANNEL_BUFFER_SIZE, q)"] by (simp add: box_def)

lemma box_take: "outbox_step list_mpsc (box out (m # q) ms) (box out q (ms @ [m]))"
  using outbox_step.take [of list_mpsc "(CHANNEL_BUFFER_SIZE, m # q)" m "(CHANNEL_BUFFER_SIZE, q)"]
  by (simp add: box_def list_mpsc_def)

lemma box_puts:
  "outbox_run list_mpsc full n (box out q ms) \<Longrightarrow> length q + length (carried out) \<le> CHANNEL_BUFFER_SIZE \<Longrightarrow>
   outbox_run list_mpsc full (n + length out) (box [] (q @ carried out) ms)"
proof (induction out arbitrary: n q)
  case (Cons x out)
  have len: "length q + length (carried [x]) + length (carried out) \<le> CHANNEL_BUFFER_SIZE"
    using Cons.prems(2) by (subst (asm) carried_Cons) simp
  have "perform list_mpsc x (CHANNEL_BUFFER_SIZE, q) = Some (CHANNEL_BUFFER_SIZE, q @ carried [x])"
    using len by (cases x) (auto simp: list_mpsc_def)
  from Cons.IH [OF run_step [OF Cons.prems(1) box_put [OF this]]] len
  show ?case by (subst carried_Cons) simp
qed simp

lemma box_takes:
  "outbox_run list_mpsc full n (box [] q ms) \<Longrightarrow> outbox_run list_mpsc full (n + length q) (box [] [] (ms @ q))"
proof (induction q arbitrary: n ms)
  case (Cons m q)
  from Cons.IH [OF run_step [OF Cons.prems box_take]] show ?case by simp
qed simp

lemma box_run:
  assumes "length (carried out) \<le> CHANNEL_BUFFER_SIZE" and "n = length out + length (carried out)"
  shows "outbox_run list_mpsc out n (box [] [] (carried out))"
proof -
  have "outbox_run list_mpsc out 0 (box out [] [])"
    using run_start [of list_mpsc out] by (simp add: outbox_new_def box_def list_mpsc_def)
  from box_takes [OF box_puts [OF this]] assms show ?thesis by simp
qed

lemma out_rs_run: "outbox_run list_mpsc out_rs 5 (box [] [] [[1], [2]])"
  using box_run [of out_rs 5] by (simp add: out_rs_def CHANNEL_BUFFER_SIZE_def)

lemma box_stuck: "\<not> outbox_step list_mpsc (box [] [] ms) s'"
  by (auto simp: box_def list_mpsc_def elim: outbox_step.cases)

text \<open>
  Nothing forwarded is dropped. However the handler and the write task interleave, what went
  through the channel to the write task or is in it is in the order in which the handler sent it and
  each once, contains every message forwarded from a stream, and is everything sent, unless more
  messages were sent than the channel holds.
\<close>
theorem nothing_forwarded_is_dropped:
  assumes "mpsc_laws C" and "outbox_run C out n s"
  shows "\<exists>dn. out = dn @ todo s \<and>
    subseq (taken s @ mq_contents C (queue s)) (carried dn) \<and>
    subseq (sent dn) (taken s @ mq_contents C (queue s)) \<and>
    (taken s @ mq_contents C (queue s) = carried dn \<or> CHANNEL_BUFFER_SIZE < length (carried dn))"
  using outbox_run_inv [OF assms] by (auto simp: outbox_inv_def through_def)

theorem nothing_forwarded_is_dropped_witness:
  "\<exists>dn. out_rs = dn @ todo (box [] [] [[1], [2]]) \<and>
    subseq (taken (box [] [] [[1], [2]]) @ mq_contents list_mpsc (queue (box [] [] [[1], [2]]))) (carried dn) \<and>
    subseq (sent dn) (taken (box [] [] [[1], [2]]) @ mq_contents list_mpsc (queue (box [] [] [[1], [2]]))) \<and>
    (taken (box [] [] [[1], [2]]) @ mq_contents list_mpsc (queue (box [] [] [[1], [2]])) = carried dn \<or>
      CHANNEL_BUFFER_SIZE < length (carried dn))"
  by (rule nothing_forwarded_is_dropped [OF list_mpsc_laws out_rs_run])

text \<open>
  C27: the channel drains. Handler and write task together make at most two steps for each output of
  the handler, and they are stuck only when the handler has performed all its outputs and the write
  task has received every message forwarded from a stream, in order; and every message at all, if
  there were not more than the channel holds.
\<close>
theorem outbox_drains:
  assumes laws: "mpsc_laws C" and run: "outbox_run C out n s" and stuck: "\<And>s'. \<not> outbox_step C s s'"
  shows "todo s = [] \<and> subseq (sent out) (taken s) \<and> subseq (taken s) (carried out) \<and>
    (taken s = carried out \<or> CHANNEL_BUFFER_SIZE < length (carried out)) \<and> n \<le> 2 * length out"
proof -
  note inv = outbox_run_inv [OF laws run]
  from outbox_stuck [OF laws inv stuck] have "todo s = []" "mq_contents C (queue s) = []" by simp_all
  with inv outbox_run_bound [OF laws run] show ?thesis by (auto simp: outbox_inv_def through_def)
qed

theorem outbox_drains_witness:
  "todo (box [] [] [[1], [2]]) = [] \<and> subseq (sent out_rs) (taken (box [] [] [[1], [2]])) \<and>
   subseq (taken (box [] [] [[1], [2]])) (carried out_rs) \<and>
   (taken (box [] [] [[1], [2]]) = carried out_rs \<or> CHANNEL_BUFFER_SIZE < length (carried out_rs)) \<and>
   5 \<le> 2 * length out_rs"
  by (rule outbox_drains [OF list_mpsc_laws out_rs_run box_stuck])

end
