(* ===== verification/Pipeline.thy ===== *)
theory Pipeline
  imports Client Outbox
begin

text \<open>
  The way of a command from the client that calls for it to the handler that executes it, and of a
  message from the handler to the client: channels, tasks, socket and decoder composed, at any
  moment, with whatever is still under way.
\<close>

section \<open>A bounded channel with its history\<close>

text \<open>What has been sent over a channel, the channel, and what has been received from it.\<close>

inductive pipe_run :: "('q, 'a) mpsc \<Rightarrow> 'a list \<Rightarrow> 'q \<Rightarrow> 'a list \<Rightarrow> bool" for C where
  pipe_new: "pipe_run C [] (mq_channel C CHANNEL_BUFFER_SIZE) []"
| pipe_send: "pipe_run C xs q ys \<Longrightarrow> mq_send C x q = Some q' \<Longrightarrow> pipe_run C (xs @ [x]) q' ys"
| pipe_recv: "pipe_run C xs q ys \<Longrightarrow> mq_recv C q = Some (y, q') \<Longrightarrow> pipe_run C xs q' (ys @ [y])"

text \<open>First in, first out, nothing lost, and never more in the channel than its capacity.\<close>

lemma pipe_run_fifo:
  assumes laws: "mpsc_laws C" and run: "pipe_run C xs q ys"
  shows "xs = ys @ mq_contents C q \<and> mq_capacity C q = CHANNEL_BUFFER_SIZE \<and>
    length (mq_contents C q) \<le> CHANNEL_BUFFER_SIZE"
  using run
proof induction
  case pipe_new
  then show ?case by (simp add: channel_new [OF laws])
next
  case (pipe_send xs q ys x q')
  with send_some [OF laws pipe_send.hyps(2)] show ?case by simp
next
  case (pipe_recv xs q ys y q')
  with recv_iff(2) [OF laws pipe_recv.hyps(2)] show ?case by simp
qed

section \<open>A connection that is cut off at any byte\<close>

lemma feeds_append:
  "feeds from_read buf (cs @ ds) zs b \<Longrightarrow>
   \<exists>ys b' vs. feeds from_read buf cs ys b' \<and> feeds from_read b' ds vs b \<and> zs = ys @ vs"
proof (induction cs arbitrary: buf zs)
  case Nil
  then show ?case by (intro exI [of _ "[]"] exI [of _ buf] exI [of _ zs]) (simp add: feeds.eof)
next
  case (Cons c cs)
  then obtain us b1 vs where 1: "frames from_read (buf @ c) us b1" "feeds from_read b1 (cs @ ds) vs b" "zs = us @ vs"
    by (auto elim: feeds_Cons)
  from Cons.IH [OF 1(2)] obtain ys b' ws where "feeds from_read b1 cs ys b'" "feeds from_read b' ds ws b" "vs = ys @ ws"
    by blast
  with 1(1,3) show ?case by (intro exI [of _ "us @ ys"] exI [of _ b'] exI [of _ ws]) (simp add: feeds.chunk)
qed

lemma feeds_prefix:
  assumes laws: "rmp_reads_back from_read serialize" "rmp_wants_more from_read serialize"
    and ok: "\<forall>x\<in>set xs. serializable serialize x" and pre: "prefix (concat cs) (stream serialize xs)"
    and fed: "feeds from_read [] cs ys rest"
  shows "prefix ys xs" and "concat cs = stream serialize xs \<Longrightarrow> ys = xs"
proof -
  obtain r where r: "stream serialize xs = concat (cs @ [r])" using pre by (auto simp: prefix_def)
  have "feeds from_read [] (cs @ [r]) xs []" using feeds_stream_iff [OF laws ok r [symmetric]] by blast
  from feeds_append [OF this] feeds_deterministic [OF fed] show "prefix ys xs" by (fastforce simp: prefix_def)
  show "ys = xs" if "concat cs = stream serialize xs" using feeds_stream_iff [OF laws ok that] fed by blast
qed

section \<open>From the client's calls to the handler\<close>

text \<open>
  \<open>upstream C D from_read serialize calls handled\<close>: the client (and its clones) made the calls, in
  this order, over the channel \<open>C\<close>; its write task took some of them out and sent a part; some of
  those bytes arrived at the server, in any chunks; its read task passed on some of what was decoded,
  over the channel \<open>D\<close>; and the handler received \<open>handled\<close>.
\<close>

inductive upstream ::
  "('q, 'a command) mpsc \<Rightarrow> ('p, 'a command) mpsc \<Rightarrow> (bytes \<Rightarrow> (rmp_error + 'a command) \<times> bytes) \<Rightarrow>
   ('a command \<Rightarrow> rstring + bytes) \<Rightarrow> 'a command list \<Rightarrow> 'a command list \<Rightarrow> bool"
  for C D from_read serialize where
  on_the_way: "pipe_run C calls q (List.map fst results) \<Longrightarrow>
     client_write_task results = (cmds, e) \<Longrightarrow> prefix (concat cs) (stream serialize cmds) \<Longrightarrow>
     feeds from_read [] cs xs rest \<Longrightarrow> prefix passed (read_loop (List.map Inr xs)) \<Longrightarrow>
     pipe_run D passed q' handled \<Longrightarrow> upstream C D from_read serialize calls handled"

lemma read_loop_Inr: "read_loop (List.map Inr cmds) = cmds"
  by (induction cmds) simp_all

lemma client_read_task_Inr: "client_read_task (List.map Inr ms) = (ms, None)"
  by (induction ms) simp_all

lemma client_write_task_prefix:
  "client_write_task rs = (cmds, e) \<Longrightarrow> prefix cmds (List.map fst rs) \<and> (e = None \<longleftrightarrow> cmds = List.map fst rs)"
  by (induction rs arbitrary: cmds rule: client_write_task.induct) (auto split: if_splits prod.splits)

lemma upstream_split:
  assumes laws: "mpsc_laws C" "mpsc_laws D"
    "rmp_reads_back from_read serialize" "rmp_wants_more from_read serialize"
    and calls: "pipe_run C calls q (List.map fst results)" and task: "client_write_task results = (cmds, e)"
    and ok: "\<forall>c\<in>set calls. serializable serialize c"
    and bytes: "prefix (concat cs) (stream serialize cmds)" "feeds from_read [] cs xs rest"
    and passed: "prefix passed (read_loop (List.map Inr xs))" and handled: "pipe_run D passed q' handled"
  shows "\<exists>way. calls = handled @ mq_contents D q' @ way @ mq_contents C q \<and>
    (e = None \<and> concat cs = stream serialize cmds \<and> passed = read_loop (List.map Inr xs) \<longrightarrow> way = [])"
proof -
  note c = pipe_run_fifo [OF laws(1) calls] and d = pipe_run_fifo [OF laws(2) handled]
  note w = client_write_task_prefix [OF task]
  have "\<forall>c\<in>set cmds. serializable serialize c"
    using ok c w set_mono_prefix [of cmds "List.map fst results"] by auto
  note f = feeds_prefix [OF laws(3,4) this bytes]
  have p: "prefix passed xs" using passed by (simp add: read_loop_Inr)
  obtain u1 u2 u3 where u: "List.map fst results = cmds @ u1" "cmds = xs @ u2" "xs = passed @ u3"
    using w f(1) p unfolding prefix_def by blast
  have "calls = handled @ mq_contents D q' @ (u3 @ u2 @ u1) @ mq_contents C q"
    using c d by (simp only: u append.assoc)
  moreover have "u3 @ u2 @ u1 = []"
    if "e = None" "concat cs = stream serialize cmds" "passed = read_loop (List.map Inr xs)"
  proof -
    have "u1 = []" using w that(1) u(1) by (metis append_self_conv)
    moreover have "u2 = []" using f(2) [OF that(2)] u(2) by (metis append_self_conv)
    moreover have "u3 = []" using that(3) u(3) by (metis append_self_conv read_loop_Inr)
    ultimately show ?thesis by simp
  qed
  ultimately show ?thesis by blast
qed

lemma upstream_prefix:
  assumes laws: "mpsc_laws C" "mpsc_laws D"
    "rmp_reads_back from_read serialize" "rmp_wants_more from_read serialize"
    and ok: "\<forall>c\<in>set calls. serializable serialize c" and up: "upstream C D from_read serialize calls handled"
  shows "prefix handled calls"
  using up
proof cases
  case (on_the_way q results cmds e cs xs rest passed q')
  then show ?thesis
    using upstream_split [OF laws on_the_way(1,2) ok on_the_way(3,4,5,6)] by (auto simp: prefix_def)
qed

section \<open>From the handler to the client's \<open>recv\<close>\<close>

text \<open>
  \<open>downstream C D from_read serialize out recvd\<close>: the handler performed some of its outputs, over the
  channel \<open>C\<close>; the write task wrote some of what it took out; some of those bytes arrived at the
  client, in any chunks; the client's read task passed on some of what was decoded, over the channel
  \<open>D\<close>; and \<open>recv\<close> has returned the messages \<open>recvd\<close>.
\<close>

inductive downstream ::
  "('q, bytes) mpsc \<Rightarrow> ('p, 'a message) mpsc \<Rightarrow> (bytes \<Rightarrow> (rmp_error + 'a message) \<times> bytes) \<Rightarrow>
   ('a message \<Rightarrow> rstring + bytes) \<Rightarrow> conn_output list \<Rightarrow> 'a message list \<Rightarrow> bool"
  for C D from_read serialize where
  on_the_way_back: "outbox_run C out n s \<Longrightarrow> write_loop cfg its = (ops, go_on) \<Longrightarrow>
     prefix (received its) (taken s) \<Longrightarrow> prefix (concat cs) (concat (written ops)) \<Longrightarrow>
     feeds from_read [] cs xs rest \<Longrightarrow> prefix passed (fst (client_read_task (List.map Inr xs))) \<Longrightarrow>
     pipe_run D passed q recvd \<Longrightarrow> downstream C D from_read serialize out recvd"

text \<open>
  What the client has received are messages that the handler sent, in the order in which it sent them,
  if it only sent encoded messages.
\<close>

lemma downstream_subseq:
  assumes laws: "mpsc_laws C" "mpsc_laws D"
    "rmp_reads_back from_read serialize" "rmp_wants_more from_read serialize"
    and enc: "\<forall>x\<in>set (carried out). \<exists>m. serialize m = Inr x"
    and down: "downstream C D from_read serialize out recvd"
  shows "subseq (List.map serialize recvd) (List.map Inr (carried out))"
  using down
proof cases
  case (on_the_way_back n s cfg its ops go_on cs xs rest passed q)
  note inv = outbox_run_inv [OF laws(1) on_the_way_back(1)]
  then obtain dn where dn: "out = dn @ todo s" "subseq (taken s @ mq_contents C (queue s)) (carried dn)"
    by (auto simp: outbox_inv_def through_def)
  have "subseq (taken s) (taken s @ mq_contents C (queue s))"
    by (intro prefix_imp_subseq prefixI) (rule refl)
  with dn(2) have "subseq (taken s) (carried dn)" by (rule subseq_order.trans [rotated])
  then have sub: "subseq (taken s) (carried out)" by (simp add: dn(1) carried_append subseq_rev_drop_many)
  then have "\<forall>x\<in>set (taken s). \<exists>m. serialize m = Inr x" using enc subseq_set by metis
  then obtain ms where ms: "taken s = List.map (\<lambda>m. projr (serialize m)) ms"
      "\<forall>m\<in>set ms. serializable serialize m"
    using encoded_list [OF laws(3,4)] by blast
  have "prefix (written ops) (taken s)"
    using write_loop_prefix [of cfg its] on_the_way_back(2,3) by auto
  then have "prefix (concat (written ops)) (stream serialize ms)" by (auto simp: prefix_def stream_def ms(1))
  with on_the_way_back(4) have "prefix (concat cs) (stream serialize ms)" by (rule prefix_order.trans)
  from feeds_prefix(1) [OF laws(3,4) ms(2) this on_the_way_back(5)]
  have "prefix passed ms" using on_the_way_back(6) by (auto simp: client_read_task_Inr)
  moreover have "prefix recvd passed" using pipe_run_fifo [OF laws(2) on_the_way_back(7)] by (auto simp: prefix_def)
  ultimately obtain rest' where split: "ms = recvd @ rest'" by (auto simp: prefix_def)
  have "List.map Inr (taken s) = List.map serialize ms"
    using ms(2) by (auto simp: ms(1) serializable_def)
  then have "prefix (List.map serialize recvd) (List.map Inr (taken s))" by (simp add: split)
  then show ?thesis using sub by (meson prefix_imp_subseq subseq_map subseq_order.trans)
qed

section \<open>Properties\<close>

text \<open>
  C29: no command is lost, repeated, reordered or altered on its way. At any moment, the calls that a
  client and its clones made are, in order: the commands the handler received, those in the server's
  channel, those on the way between the two channels, and those in the client's channel. Each channel
  holds at most 100000 of them, and there are none between the channels once the bytes sent have
  arrived, in whatever chunks, and been passed on.
\<close>
theorem commands_handled_in_order:
  assumes laws: "mpsc_laws C" "mpsc_laws D"
    "rmp_reads_back from_read serialize" "rmp_wants_more from_read serialize"
    and calls: "pipe_run C calls q (List.map fst results)" and task: "client_write_task results = (cmds, e)"
    and ok: "\<forall>c\<in>set calls. serializable serialize c"
    and bytes: "prefix (concat cs) (stream serialize cmds)" "feeds from_read [] cs xs rest"
    and passed: "prefix passed (read_loop (List.map Inr xs))" and handled: "pipe_run D passed q' handled"
  shows "length (mq_contents C q) \<le> CHANNEL_BUFFER_SIZE \<and> length (mq_contents D q') \<le> CHANNEL_BUFFER_SIZE \<and>
    (\<exists>way. calls = handled @ mq_contents D q' @ way @ mq_contents C q \<and>
      (e = None \<and> concat cs = stream serialize cmds \<and> passed = read_loop (List.map Inr xs) \<longrightarrow> way = []))"
  using pipe_run_fifo [OF laws(1) calls] pipe_run_fifo [OF laws(2) handled]
    upstream_split [OF laws calls task ok bytes passed handled]
  by blast

text \<open>
  Three publications: the first has been handled, the second has been sent but for its last byte, the
  third waits in the client's channel.
\<close>

lemma pipe_sends: "length xs \<le> CHANNEL_BUFFER_SIZE \<Longrightarrow> pipe_run list_mpsc xs (CHANNEL_BUFFER_SIZE, xs) []"
proof (induction xs rule: rev_induct)
  case Nil
  then show ?case using pipe_new [of list_mpsc] by (simp add: list_mpsc_def)
next
  case (snoc x xs)
  then show ?case using pipe_send [of list_mpsc xs "(CHANNEL_BUFFER_SIZE, xs)" "[]" x]
    by (simp add: list_mpsc_def)
qed

lemma pipe_recvs:
  "pipe_run list_mpsc xs (n, ys @ zs) ws \<Longrightarrow> pipe_run list_mpsc xs (n, zs) (ws @ ys)"
proof (induction ys arbitrary: ws)
  case (Cons y ys)
  then have "pipe_run list_mpsc xs (n, ys @ zs) (ws @ [y])"
    using pipe_recv [of list_mpsc xs "(n, (y # ys) @ zs)" ws y "(n, ys @ zs)"] by (simp add: list_mpsc_def)
  from Cons.IH [OF this] show ?case by simp
qed simp

lemma list_pipe:
  assumes "length (ys @ zs) \<le> CHANNEL_BUFFER_SIZE"
  shows "pipe_run list_mpsc (ys @ zs) (CHANNEL_BUFFER_SIZE, zs) ys"
  using pipe_recvs [OF pipe_sends [OF assms]] by simp

definition pub :: "byte \<Rightarrow> byte command" where
  "pub n = Publish \<lparr>msg_topic = str ''a'', msg_value = n\<rparr>"

definition unpub :: "byte command \<Rightarrow> byte option" where
  "unpub cmd = (case cmd of
     Publish m \<Rightarrow> if msg_topic m = str ''a'' then Some (msg_value m) else None | _ \<Rightarrow> None)"

lemma unpub: "unpub c = Some n \<Longrightarrow> pub n = c"
  by (auto simp: unpub_def pub_def split: command.splits if_splits)

lemma feeds_toy_cut: "feeds (via_read pub) [] [[1], [7, 1]] [pub 7] [1]"
proof -
  have "decode (via_read pub) [1] = (Inr None, [1])" "decode (via_read pub) [1, 7, 1] = (Inr (Some (pub 7)), [1])"
    by (simp_all add: decode_def via_read_def)
  then have "frames (via_read pub) ([] @ [1]) [] [1]" "frames (via_read pub) ([1] @ [7, 1]) [pub 7] [1]"
    by (auto intro: frames.intros)
  from feeds.chunk [OF this(1) feeds.chunk [OF this(2) feeds.eof]] show ?thesis by simp
qed

theorem commands_handled_in_order_witness:
  "length [pub 9] \<le> CHANNEL_BUFFER_SIZE \<and> length ([] :: byte command list) \<le> CHANNEL_BUFFER_SIZE \<and>
   (\<exists>way. [pub 7, pub 8, pub 9] = [pub 7] @ [] @ way @ [pub 9])"
proof -
  have p1: "pipe_run list_mpsc [pub 7, pub 8, pub 9] (CHANNEL_BUFFER_SIZE, [pub 9])
      (List.map fst [(pub 7, True), (pub 8, True)])"
    using list_pipe [of "[pub 7, pub 8]" "[pub 9]"] by (simp add: CHANNEL_BUFFER_SIZE_def)
  have p2: "pipe_run list_mpsc [pub 7] (CHANNEL_BUFFER_SIZE, []) [pub 7]"
    using list_pipe [of "[pub 7]" "[]"] by (simp add: CHANNEL_BUFFER_SIZE_def)
  have "length (mq_contents list_mpsc (CHANNEL_BUFFER_SIZE, [pub 9])) \<le> CHANNEL_BUFFER_SIZE \<and>
      length (mq_contents list_mpsc (CHANNEL_BUFFER_SIZE, [] :: byte command list)) \<le> CHANNEL_BUFFER_SIZE \<and>
      (\<exists>way. [pub 7, pub 8, pub 9] =
        [pub 7] @ mq_contents list_mpsc (CHANNEL_BUFFER_SIZE, []) @ way @
        mq_contents list_mpsc (CHANNEL_BUFFER_SIZE, [pub 9]) \<and>
        (None = (None :: client_error option) \<and> concat [[1], [7, 1]] = stream (via_write unpub) [pub 7, pub 8] \<and>
          [pub 7] = read_loop (List.map Inr [pub 7]) \<longrightarrow> way = []))"
    by (rule commands_handled_in_order [OF list_mpsc_laws list_mpsc_laws
          via_reads_back [of unpub, OF unpub] via_wants_more p1 _ _ _ feeds_toy_cut _ p2])
      (simp_all add: serializable_def via_write_def unpub_def pub_def toy_write_def)
  then show ?thesis by (auto simp: list_mpsc_def)
qed

end
