(* ===== verification/System_Correct.thy ===== *)
theory System_Correct
  imports System
begin

text \<open>
  The guarantees of the whole server, for every order of steps: receivers stay wired to their topic
  and belong to one connection, messages are delivered in order and at most once, and a connection
  has a stream, or a pending creation event, for every topic its subscriptions match.
\<close>

section \<open>The wiring of the server\<close>

definition sys_inv ::
  "('m, 'w, 'v, 's, 'h) runtime \<Rightarrow> ('w, 'v, 'h) views \<Rightarrow> ('m, 'w, 'v, 's, 'h) sys \<Rightarrow> bool" where
  "sys_inv R V s \<longleftrightarrow>
     bus_inv R V (sys_bus s) \<and>
     (\<forall>i c. sys_conns s i = Some c \<longrightarrow> wired R V c (sys_bus s)) \<and>
     (\<forall>i j c d. sys_conns s i = Some c \<longrightarrow> sys_conns s j = Some d \<longrightarrow> i \<noteq> j \<longrightarrow>
        topic_events c \<noteq> topic_events d \<and>
        (\<forall>t u rx. stream_of R c t = Some rx \<longrightarrow> stream_of R d u \<noteq> Some rx))"

lemma sys_invD:
  assumes "sys_inv R V s"
  shows "bus_inv R V (sys_bus s)"
    and "sys_conns s i = Some c \<Longrightarrow> wired R V c (sys_bus s)"
    and "sys_conns s i = Some c \<Longrightarrow> sys_conns s j = Some d \<Longrightarrow> i \<noteq> j \<Longrightarrow>
      topic_events c \<noteq> topic_events d"
    and "sys_conns s i = Some c \<Longrightarrow> sys_conns s j = Some d \<Longrightarrow> i \<noteq> j \<Longrightarrow>
      stream_of R c t = Some rx \<Longrightarrow> stream_of R d u \<noteq> Some rx"
  using assms unfolding sys_inv_def by blast+

lemma server_new_inv:
  assumes "runtime_laws R V"
  shows "sys_inv R V (server_new R w v)" and "topic R (sys_bus (server_new R w v)) t = None"
  using bus_new_effect [OF assms] by (simp_all add: sys_inv_def server_new_def)

text \<open>A connection put in place of another, or of none, when its receivers are its own.\<close>

lemma sys_inv_update:
  assumes inv: "sys_inv R V s" and b: "bus_inv R V b" "bus_ext R V (sys_bus s) b"
    and c': "\<And>d. c = Some d \<Longrightarrow> wired R V d b"
    and ev: "\<And>d j e. c = Some d \<Longrightarrow> sys_conns s j = Some e \<Longrightarrow> j \<noteq> i \<Longrightarrow>
      topic_events d \<noteq> topic_events e"
    and st: "\<And>d j e t u rx. c = Some d \<Longrightarrow> sys_conns s j = Some e \<Longrightarrow> j \<noteq> i \<Longrightarrow>
      stream_of R d t = Some rx \<Longrightarrow> stream_of R e u \<noteq> Some rx"
  shows "sys_inv R V \<lparr>sys_bus = b, sys_conns = (sys_conns s)(i := c)\<rparr>"
proof -
  have w: "wired R V d b" if "sys_conns s j = Some d" for j d
    using bus_ext_wired [OF b(2)] sys_invD(2) [OF inv that] by blast
  have other: "topic_events d \<noteq> topic_events e \<and>
      (\<forall>t u rx. stream_of R d t = Some rx \<longrightarrow> stream_of R e u \<noteq> Some rx)"
    if "((sys_conns s)(i := c)) k = Some d" "((sys_conns s)(i := c)) j = Some e" "k \<noteq> j" for k j d e
    using that ev st sys_invD(3,4) [OF inv] by (auto split: if_splits) (metis+)
  show ?thesis
    unfolding sys_inv_def using b(1) w c' other by (auto split: if_splits)
qed

lemma accept_effect:
  assumes laws: "runtime_laws R V" and inv: "bus_inv R V b" and new: "conn_new R b = (c, b')"
  shows "bus_inv R V b'" "bus_ext R V b b'" "wired R V c b'" "stream_of R c t = None"
    "listens (ev_view V) (event_channels b) (topic_events c) = None"
    "message_channels b' = message_channels b" "topic R b' = topic R b"
    "ev_pending V b' = (ev_pending V b)(topic_events c := [])" "subscriptions c = glob_tree_new"
proof -
  obtain rx v where s: "bc_subscribe (rt_events R) (topic_events_tx b) (event_channels b) = (rx, v)"
      "c = \<lparr>topic_streams = sm_new (rt_streams R), topic_events = rx, subscriptions = glob_tree_new\<rparr>"
      "b' = b\<lparr>event_channels := v\<rparr>"
    using new by (auto simp: conn_new_def subscribe_to_topic_events_def Let_def split: prod.splits)
  note l = subscribeD [OF runtime_lawsD(4) [OF laws] s(1)]
  show tp: "topic R b' = topic R b" by (simp add: s(3) topic_def fun_eq_iff)
  show st: "stream_of R c t = None" for t
    by (simp add: s(2) stream_of_def streammap_lawsD(1) [OF runtime_lawsD(2) [OF laws]])
  show "bus_inv R V b'" using inv by (simp add: bus_inv_def tp) (simp add: s(3) l)
  show "bus_ext R V b b'" by (simp add: bus_ext_def tp) (simp add: s(3) l)
  show "wired R V c b'" by (simp add: wired_def st) (simp add: s(2,3) l)
  show "listens (ev_view V) (event_channels b) (topic_events c) = None" by (simp add: s(2) l)
  show "message_channels b' = message_channels b" by (simp add: s(3))
  show "ev_pending V b' = (ev_pending V b)(topic_events c := [])" by (simp add: s(2,3) l fun_eq_iff)
  show "subscriptions c = glob_tree_new" by (simp add: s(2))
qed

lemma iteration_wired:
  assumes "iteration_effect R V E br (c, b) out (c', b')" and "wired R V c b"
  shows "wired R V c' b'"
  using assms bus_ext_receives bus_ext_event_receiver
  unfolding iteration_effect_def wired_def fst_conv snd_conv by metis

lemma sys_step_inv:
  assumes laws: "runtime_laws R V" and inv: "sys_inv R V s" and step: "sys_step R E s a s'"
  shows "sys_inv R V s'"
  using step
proof cases
  case (accept i c b)
  note e = accept_effect [OF laws sys_invD(1) [OF inv] accept(4)]
  have "topic_events c \<noteq> topic_events d" if "sys_conns s j = Some d" for j d
    using sys_invD(2) [OF inv that] e(5) by (auto simp: wired_def)
  then show ?thesis
    unfolding accept(2) by (intro sys_inv_update [OF inv e(1,2)]) (auto simp: e)
next
  case (iterate i c br go_on out c' b)
  have w: "wired R V c (sys_bus s)" by (rule sys_invD(2) [OF inv iterate(3)])
  have e: "iteration_effect R V E br (c, sys_bus s) out (c', b)"
    by (rule run_iteration_effect [OF laws sys_invD(1) [OF inv] w iterate(4)])
  then have e1: "bus_inv R V b" "bus_ext R V (sys_bus s) b" "topic_events c' = topic_events c"
    by (simp_all add: iteration_effect_def)
  have fresh: "stream_of R d u \<noteq> Some rx"
    if "stream_of R c' t = Some rx" "sys_conns s j = Some d" "j \<noteq> i" for t rx j d u
  proof (cases "stream_of R c t = Some rx")
    case True
    then show ?thesis using sys_invD(4) [OF inv iterate(3) that(2)] that(3) by blast
  next
    case False
    with e that(1) have "listens (msg_view V) (message_channels (sys_bus s)) rx = None"
      unfolding iteration_effect_def by auto
    then show ?thesis using sys_invD(2) [OF inv that(2)] by (fastforce simp: wired_def receives_def)
  qed
  show ?thesis
    unfolding iterate(2)
  proof (rule sys_inv_update [OF inv e1(1,2)])
    fix d assume d: "(if go_on then Some c' else None) = Some d"
    then show "wired R V d b" using iteration_wired [OF e w] by (auto split: if_splits)
    show "topic_events d \<noteq> topic_events f" if "sys_conns s j = Some f" "j \<noteq> i" for j f
      using d sys_invD(3) [OF inv iterate(3) that(1)] that(2) e1(3) by (auto split: if_splits)
    show "stream_of R f u \<noteq> Some rx"
      if "sys_conns s j = Some f" "j \<noteq> i" "stream_of R d t = Some rx" for j f t u rx
      using fresh [of t rx j f u] that d by (auto split: if_splits)
  qed
qed

lemma reachable_inv:
  assumes "runtime_laws R V" and "reachable R E ok w v acts s"
  shows "sys_inv R V s"
  using assms(2)
  by (induction rule: reachable.induct) (use server_new_inv(1) [OF assms(1)] sys_step_inv [OF assms(1)] in auto)

section \<open>Order of delivery\<close>

text \<open>
  In a sequence of steps: the messages published on a topic, by any connection, and the messages a
  connection forwarded to its client from its stream of a topic.
\<close>

fun published :: "'a externals \<Rightarrow> rstring \<Rightarrow> 'a action list \<Rightarrow> bytes list" where
  "published E t [] = []"
| "published E t (Accept i out # acts) = published E t acts"
| "published E t (Iterate i br out # acts) = publish_of E t br @ published E t acts"

fun forwarded :: "nat \<Rightarrow> rstring \<Rightarrow> 'a action list \<Rightarrow> bytes list" where
  "forwarded i t [] = []"
| "forwarded i t (Accept j out # acts) = forwarded i t acts"
| "forwarded i t (Iterate j br out # acts) =
     (if j = i then forward_of t br out else []) @ forwarded i t acts"

lemma published_append: "published E t (xs @ ys) = published E t xs @ published E t ys"
  by (induction xs rule: published.induct) auto

lemma forwarded_append: "forwarded i t (xs @ ys) = forwarded i t xs @ forwarded i t ys"
  by (induction xs rule: forwarded.induct) auto

text \<open>What is forwarded so far, with what is in the stream, is in order among what was published.\<close>

definition ordered ::
  "('m, 'w, 'v, 's, 'h) runtime \<Rightarrow> ('w, 'v, 'h) views \<Rightarrow> 'a externals \<Rightarrow> 'a action list \<Rightarrow>
   ('m, 'w, 'v, 's, 'h) sys \<Rightarrow> bool" where
  "ordered R V E acts s \<longleftrightarrow>
     (\<forall>i t. subseq (forwarded i t acts) (published E t acts)) \<and>
     (\<forall>i t c rx. sys_conns s i = Some c \<longrightarrow> stream_of R c t = Some rx \<longrightarrow>
        subseq (forwarded i t acts @ msg_pending V (sys_bus s) rx) (published E t acts))"

lemma subseq_step:
  assumes "subseq (f @ p) q" and "subseq (g @ p') (p @ q')"
  shows "subseq (f @ g @ p') (q @ q')"
proof -
  have "subseq (f @ g @ p') (f @ p @ q')" by (rule list_emb_append_mono [OF subseq_order.refl assms(2)])
  also have "subseq (f @ p @ q') (q @ q')"
    using list_emb_append_mono [OF assms(1) subseq_order.refl [of q']] by simp
  finally show ?thesis .
qed

lemma ordered_step:
  assumes laws: "runtime_laws R V" and inv: "sys_inv R V s" and ord: "ordered R V E acts s"
    and step: "sys_step R E s a s'"
  shows "ordered R V E (acts @ [a]) s'"
  using step
proof cases
  case (accept i c b)
  note e = accept_effect [OF laws sys_invD(1) [OF inv] accept(4)]
  show ?thesis
    using ord e(4,6) unfolding ordered_def accept(1,2) published_append forwarded_append
    by (auto split: if_splits)
next
  case (iterate i c br go_on out c' b)
  have w: "wired R V d (sys_bus s)" if "sys_conns s j = Some d" for j d by (rule sys_invD(2) [OF inv that])
  have e: "iteration_effect R V E br (c, sys_bus s) out (c', b)"
    by (rule run_iteration_effect [OF laws sys_invD(1) [OF inv] w [OF iterate(3)] iterate(4)])
  let ?f = "\<lambda>j t. if j = i then forward_of t br out else []"
  have pend: "subseq (forwarded j t acts @ ?f j t @ msg_pending V b rx)
      (published E t acts @ publish_of E t br)"
    if d: "sys_conns s j = Some d" "stream_of R d t = Some rx" for j d t rx
  proof (rule subseq_step)
    show "subseq (forwarded j t acts @ msg_pending V (sys_bus s) rx) (published E t acts)"
      using ord d unfolding ordered_def by blast
    have rc: "receives R V (sys_bus s) t rx" using w [OF d(1)] d(2) by (simp add: wired_def)
    show "subseq (?f j t @ msg_pending V b rx) (msg_pending V (sys_bus s) rx @ publish_of E t br)"
    proof (cases "j = i")
      case True
      then show ?thesis using e rc d iterate(3) by (simp add: iteration_effect_def)
    next
      case False
      then have "stream_of R c t \<noteq> Some rx" using sys_invD(4) [OF inv d(1) iterate(3) False d(2)] by simp
      with False e rc show ?thesis by (simp add: iteration_effect_def)
    qed
  qed
  have fwd: "subseq (forwarded j t acts @ ?f j t) (published E t acts @ publish_of E t br)" for j t
  proof (cases "j = i \<and> stream_of R c t \<noteq> None")
    case True
    then obtain rx where rx: "j = i" "stream_of R c t = Some rx" by auto
    then have "subseq (forwarded j t acts @ ?f j t @ msg_pending V b rx)
        (published E t acts @ publish_of E t br)"
      using pend [of i c t rx] iterate(3) by simp
    moreover have "subseq (forwarded j t acts @ ?f j t) (forwarded j t acts @ ?f j t @ msg_pending V b rx)"
      by (intro prefix_imp_subseq) simp
    ultimately show ?thesis by (rule subseq_order.trans [rotated])
  next
    case False
    then have none: "?f j t = []" using e by (auto simp: iteration_effect_def)
    have sub: "subseq (forwarded j t acts) (published E t acts)" using ord by (simp add: ordered_def)
    show ?thesis
      unfolding none append_Nil2
      by (rule subseq_order.trans [OF sub]) (intro prefix_imp_subseq, simp)
  qed
  have new: "subseq (forwarded i t acts @ ?f i t @ msg_pending V b rx)
      (published E t acts @ publish_of E t br)" if "stream_of R c' t = Some rx" for t rx
  proof (cases "stream_of R c t = Some rx")
    case True
    then show ?thesis using pend [OF iterate(3)] by simp
  next
    case False
    with e that have "msg_pending V b rx = []" unfolding iteration_effect_def by auto
    with fwd [of i t] show ?thesis by simp
  qed
  have all: "subseq ((forwarded j t acts @ ?f j t) @ msg_pending V b rx)
      (published E t acts @ publish_of E t br)"
    if "((sys_conns s)(i := (if go_on then Some c' else None))) j = Some d" "stream_of R d t = Some rx"
    for j d t rx
    using that new [of t rx] pend [of j d t rx] by (cases "j = i") (auto split: if_splits)
  have f1: "forwarded j t [Iterate i br (out @ run_end go_on)] = ?f j t" for j t by simp
  have p1: "published E t [Iterate i br (out @ run_end go_on)] = publish_of E t br" for t by simp
  show ?thesis
    unfolding ordered_def iterate(1,2) published_append forwarded_append f1 p1 sys.simps
    using fwd all by blast
qed

lemma reachable_ordered:
  assumes laws: "runtime_laws R V" and "reachable R E ok w v acts s"
  shows "ordered R V E acts s"
  using assms(2)
proof induction
  case start
  then show ?case by (simp add: ordered_def server_new_def)
next
  case (next_step acts s a s')
  show ?case
    by (rule ordered_step [OF laws reachable_inv [OF laws next_step(1)] next_step.IH next_step(3)])
qed

section \<open>No matching topic is missed\<close>

text \<open>
  A topic that a connection's subscriptions match is one it has a stream for, or one whose creation
  event it has yet to receive.
\<close>

definition covered ::
  "('m, 'w, 'v, 's, 'h) runtime \<Rightarrow> ('w, 'v, 'h) views \<Rightarrow> ('s, 'h) conn \<Rightarrow> ('m, 'w, 'v, 'h) bus \<Rightarrow> bool" where
  "covered R V c b \<longleftrightarrow>
     (\<forall>t. t \<noteq> [] \<longrightarrow> topic R b t \<noteq> None \<longrightarrow> tree_check (subscriptions c) t \<longrightarrow>
        stream_of R c t \<noteq> None \<or> Created t \<in> set (ev_pending V b (topic_events c)))"

definition filter_ok :: "('s, 'h) conn \<Rightarrow> bool" where
  "filter_ok c \<longleftrightarrow> glob_inv (subscriptions c) \<and> weight (root (subscriptions c)) < 2 ^ 64"

text \<open>
  The bounds within which the server loses nothing: before every step each connection has room for
  one more topic event, and the patterns of a connection stay below the range of the tree's counts.
\<close>

definition within ::
  "('m, 'w, 'v, 's, 'h) runtime \<Rightarrow> ('w, 'v, 'h) views \<Rightarrow> ('m, 'w, 'v, 's, 'h) sys \<Rightarrow> 'a action \<Rightarrow> bool" where
  "within R V s a \<longleftrightarrow>
     (\<forall>i c. sys_conns s i = Some c \<longrightarrow>
        length (ev_pending V (sys_bus s) (topic_events c)) < CHANNEL_BUFFER_SIZE) \<and>
     (case a of
        Iterate i (On_command (Some (Subscribe p))) out \<Rightarrow>
          (\<forall>c. sys_conns s i = Some c \<longrightarrow> weight (root (subscriptions c)) + (length p + 1) < 2 ^ 64)
      | _ \<Rightarrow> True)"

text \<open>An iteration loses no pending event of another connection, and announces what it creates.\<close>

definition announces ::
  "('m, 'w, 'v, 's, 'h) runtime \<Rightarrow> ('w, 'v, 'h) views \<Rightarrow> 'h \<Rightarrow> ('m, 'w, 'v, 'h) bus \<Rightarrow>
   ('m, 'w, 'v, 'h) bus \<Rightarrow> bool" where
  "announces R V rx b b' \<longleftrightarrow>
     set (ev_pending V b rx) \<subseteq> set (ev_pending V b' rx) \<and>
     (\<forall>t. topic R b' t \<noteq> None \<longrightarrow> topic R b t \<noteq> None \<or> Created t \<in> set (ev_pending V b' rx))"

lemma announces_covered:
  "announces R V (topic_events c) b b' \<Longrightarrow> covered R V c b \<Longrightarrow> covered R V c b'"
  unfolding announces_def covered_def by blast

lemma announces_quiet: "bus_quiet R V b b' \<Longrightarrow> announces R V rx b b'"
  by (simp add: announces_def bus_quiet_def)

lemma announces_publish:
  assumes laws: "runtime_laws R V" and inv: "bus_inv R V b"
    and rx: "listens (ev_view V) (event_channels b) rx = Some (topic_events_tx b)"
      "length (ev_pending V b rx) < CHANNEL_BUFFER_SIZE"
  shows "announces R V rx b (handle_publish R E m b)"
proof (cases "message_bytes E m")
  case (Inl e)
  then show ?thesis by (simp add: announces_def handle_publish_def)
next
  case (Inr bs)
  note e = bus_send_effect [OF laws inv surjective_pairing, where t = "msg_topic m" and m = bs]
  let ?b = "snd (bus_send R (msg_topic m) bs b)"
  have ev: "ev_pending V ?b rx =
      ev_pending V b rx @ (if topic R b (msg_topic m) = None then [Created (msg_topic m)] else [])"
    using e(8) e(9) [OF _ rx] by auto
  have "topic R b t \<noteq> None" if "topic R ?b t \<noteq> None" "t \<noteq> msg_topic m" for t
  proof -
    have "bus_abs R ?b t = bus_abs R b t" using that(2) by (simp add: e(4))
    then have "map_option last_message (topic R ?b t) = map_option last_message (topic R b t)"
      by (simp add: bus_abs_def)
    with that(1) show ?thesis by (cases "topic R b t") simp_all
  qed
  then have "topic R b t \<noteq> None \<or> Created t \<in> set (ev_pending V ?b rx)" if "topic R ?b t \<noteq> None" for t
    using that ev by (cases "t = msg_topic m") auto
  then show ?thesis using ev Inr by (simp add: announces_def handle_publish_def)
qed

lemma stream_poll_quiet:
  assumes "run_iteration R E (On_stream u ok) (c, b) = (go_on, out, (c', b'))"
  shows "c' = c" and "announces R V rx b b'"
proof -
  obtain w where b': "c' = c" "b' = b\<lparr>message_channels := w\<rparr> \<or> b' = b"
    using assms by (auto simp: forward_message_to_client_def
        split: option.splits prod.splits recv_result.splits)
  then show "c' = c" by simp
  have "topic R b' = topic R b" using b'(2) by (auto simp: topic_def)
  with b'(2) show "announces R V rx b b'" by (auto simp: announces_def)
qed

lemma event_step:
  assumes laws: "runtime_laws R V"
    and run: "run_iteration R E On_topic_event (c, b) = (go_on, out, (c', b'))"
  obtains b1 r where "topic R b1 = topic R b"
    "ev_pending V b (topic_events c) =
      (case r of Received x \<Rightarrow> [x] | _ \<Rightarrow> []) @ ev_pending V b1 (topic_events c)"
    "\<And>rx. rx \<noteq> topic_events c \<Longrightarrow> ev_pending V b1 rx = ev_pending V b rx"
    "\<And>name. r = Received (Created name) \<Longrightarrow> handle_new_topic R name (c, b1) = (out, (c', b'))"
    "(\<And>name. r \<noteq> Received (Created name)) \<Longrightarrow> c' = c \<and> b' = b1"
    "joins R V (c, b1) (c', b')" "message_channels b1 = message_channels b"
    "\<And>rx. ev_lagging V b1 rx \<Longrightarrow> ev_lagging V b rx"
proof -
  obtain r v where poll: "bc_recv (rt_events R) (topic_events c) (event_channels b) = (r, v)"
    by fastforce
  note ev = event_poll_effect [OF laws poll]
  let ?b = "b\<lparr>event_channels := v\<rparr>"
  have h: "handle_new_topic R name (c, ?b) = (out, (c', b'))" if "r = Received (Created name)" for name
    using run poll that by simp
  have k: "c' = c \<and> b' = ?b" if "\<And>name. r \<noteq> Received (Created name)"
  proof (cases r)
    case (Received e)
    with that show ?thesis by (cases e) auto
  qed (use run poll in auto)
  have j: "joins R V (c, ?b) (c', b')"
  proof (cases "\<exists>name. r = Received (Created name)")
    case True
    then obtain name where n: "r = Received (Created name)" by blast
    show ?thesis
      using h [OF n] conn_subscribe_effect(1) [OF laws]
      by (auto simp: handle_new_topic_def simp del: conn_subscribe_to_topic.simps split: if_splits)
  next
    case False
    then show ?thesis using k by simp
  qed
  have lag: "ev_lagging V b rx" if "ev_lagging V ?b rx" for rx
    using recvD(6) [OF runtime_lawsD(4) [OF laws] poll]
      recvD(9) [OF runtime_lawsD(4) [OF laws] poll, where rx' = rx] that
    by (cases "rx = topic_events c") auto
  show ?thesis by (rule that [of ?b r]) (use ev h k j lag in auto)
qed

lemma iteration_announces:
  assumes laws: "runtime_laws R V" and inv: "bus_inv R V b"
    and run: "run_iteration R E br (c, b) = (go_on, out, (c', b'))"
    and rx: "listens (ev_view V) (event_channels b) rx = Some (topic_events_tx b)"
      "length (ev_pending V b rx) < CHANNEL_BUFFER_SIZE"
    and other: "rx \<noteq> topic_events c \<or> br \<noteq> On_topic_event"
  shows "announces R V rx b b'"
proof (cases br)
  case (On_command cmd)
  show ?thesis
  proof (cases cmd)
    case None
    then show ?thesis using run On_command by (auto simp: announces_def)
  next
    case (Some cmd')
    show ?thesis
    proof (cases cmd')
      case (Publish m)
      then show ?thesis using run On_command Some announces_publish [OF laws inv rx] by auto
    next
      case (Subscribe p)
      obtain o' where h: "handle_subscribe R p (c, b) = (o', (c', b'))"
        using run On_command Some Subscribe
        by (auto simp: Let_def simp del: handle_subscribe.simps split: prod.splits)
      have "bus_quiet R V b b'" using handle_subscribe_effect(1) [OF laws h] by (simp add: joins_def)
      then show ?thesis by (rule announces_quiet)
    next
      case (Unsubscribe p)
      then show ?thesis using run On_command Some by (auto simp: announces_def)
    qed
  qed
next
  case On_topic_event
  obtain b1 where "topic R b1 = topic R b" "ev_pending V b1 rx = ev_pending V b rx"
      "joins R V (c, b1) (c', b')"
    using event_step [OF laws run [unfolded On_topic_event]] other On_topic_event by metis
  then show ?thesis by (simp add: joins_def announces_def bus_quiet_def)
next
  case (On_stream u ok)
  show ?thesis by (rule stream_poll_quiet(2) [OF run [unfolded On_stream]])
qed

lemma iteration_covered:
  assumes laws: "runtime_laws R V" and inv: "bus_inv R V b" and w: "wired R V c b"
    and run: "run_iteration R E br (c, b) = (go_on, out, (c', b'))"
    and room: "length (ev_pending V b (topic_events c)) < CHANNEL_BUFFER_SIZE"
    and budget: "\<And>p. br = On_command (Some (Subscribe p)) \<Longrightarrow>
      weight (root (subscriptions c)) + (length p + 1) < 2 ^ 64"
    and cov: "covered R V c b" and ok: "filter_ok c"
  shows "covered R V c' b' \<and> filter_ok c'"
proof (cases "br = On_topic_event")
  case True
  obtain b1 r where e: "topic R b1 = topic R b"
    "ev_pending V b (topic_events c) =
      (case r of Received x \<Rightarrow> [x] | _ \<Rightarrow> []) @ ev_pending V b1 (topic_events c)"
    "\<And>name. r = Received (Created name) \<Longrightarrow> handle_new_topic R name (c, b1) = (out, (c', b'))"
    "joins R V (c, b1) (c', b')"
    using event_step [OF laws run [unfolded True]] by metis
  have same: "topic_events c' = topic_events c" "subscriptions c' = subscriptions c"
      "topic R b' = topic R b" "event_channels b' = event_channels b1"
    using e(1,4) by (auto simp: joins_def bus_quiet_def)
  have keep: "stream_of R c' t \<noteq> None" if "stream_of R c t \<noteq> None" for t
    using e(4) that by (auto simp: joins_def)
  have "stream_of R c' t \<noteq> None \<or> Created t \<in> set (ev_pending V b' (topic_events c'))"
    if t: "t \<noteq> []" "topic R b t \<noteq> None" "tree_check (subscriptions c) t" for t
  proof (cases "r = Received (Created t)")
    case True
    have "conn_subscribe_to_topic R t (c, b1) = (out, (c', b'))"
      using e(3) [OF True] t(3) by (simp add: handle_new_topic_def del: conn_subscribe_to_topic.simps)
    from conn_subscribe_effect(3) [OF laws this, of t] t(2) e(1) show ?thesis by simp
  next
    case False
    have "stream_of R c t \<noteq> None \<or> Created t \<in> set (ev_pending V b (topic_events c))"
      using cov t by (simp add: covered_def)
    then show ?thesis
    proof
      assume "stream_of R c t \<noteq> None"
      then show ?thesis using keep by blast
    next
      assume "Created t \<in> set (ev_pending V b (topic_events c))"
      with False show ?thesis unfolding e(2) same by (auto split: recv_result.splits)
    qed
  qed
  then have "covered R V c' b'" by (simp add: covered_def same(2,3))
  with ok same show ?thesis by (simp add: filter_ok_def)
next
  case False
  have rx: "listens (ev_view V) (event_channels b) (topic_events c) = Some (topic_events_tx b)"
    using w by (simp add: wired_def)
  have ann: "announces R V (topic_events c) b b'"
    by (rule iteration_announces [OF laws inv run rx room]) (simp add: False)
  note cov' = announces_covered [OF ann cov]
  show ?thesis
  proof (cases "c' = c")
    case True
    with cov' ok show ?thesis by simp
  next
    case changed: False
    consider p where "br = On_command (Some (Subscribe p))" | p where "br = On_command (Some (Unsubscribe p))"
    proof (cases br)
      case (On_command cmd)
      then show ?thesis
        using that run changed by (cases cmd; cases "the cmd") auto
    next
      case (On_stream u ok)
      then show ?thesis using run stream_poll_quiet(1) changed by blast
    qed (use False in simp)
    then show ?thesis
    proof cases
      case (1 p)
      obtain o' where h: "handle_subscribe R p (c, b) = (o', (c', b'))"
        using run 1 by (auto simp: Let_def simp del: handle_subscribe.simps split: prod.splits)
      note e = handle_subscribe_effect [OF laws h]
      have tp: "topic R b' = topic R b" using e(1) by (simp add: joins_def bus_quiet_def)
      have "covered R V c' b'" using e(3) by (simp add: covered_def e(2) tp)
      then show ?thesis
        using gt.add_inv [of "subscriptions c" p] budget [OF 1] ok by (simp add: filter_ok_def e(2))
    next
      case (2 p)
      then have u: "c' = handle_unsubscribe R p c" "b' = b" using run by auto
      note e = handle_unsubscribe_effect [OF laws, of p c]
      have "tree_check (subscriptions c) t"
        if "t \<noteq> []" "tree_check (remove_ok (subscriptions c) p) t" for t
        using gt.drop_no_gain that ok by (simp add: filter_ok_def)
      then have "covered R V c' b'" using cov by (simp add: covered_def u e)
      moreover have "filter_ok c'"
        using gt.drop_inv [of "subscriptions c" p] ok by (simp add: filter_ok_def u e)
      ultimately show ?thesis by simp
    qed
  qed
qed

lemma sys_step_covered:
  assumes laws: "runtime_laws R V" and inv: "sys_inv R V s" and within: "within R V s a"
    and step: "sys_step R E s a s'"
    and cov: "\<forall>i c. sys_conns s i = Some c \<longrightarrow> covered R V c (sys_bus s) \<and> filter_ok c"
  shows "\<forall>i c. sys_conns s' i = Some c \<longrightarrow> covered R V c (sys_bus s') \<and> filter_ok c"
  using step
proof cases
  case (accept i c b)
  note e = accept_effect [OF laws sys_invD(1) [OF inv] accept(4)]
  have old: "covered R V d b" if "sys_conns s j = Some d" for j d
  proof -
    have "topic_events d \<noteq> topic_events c"
      using sys_invD(2) [OF inv that] e(5) by (auto simp: wired_def)
    then show ?thesis using cov that e(7,8) by (simp add: covered_def)
  qed
  have "covered R V c b \<and> filter_ok c"
    using gt.new_matches_nothing gt.new_inv by (auto simp: covered_def filter_ok_def e(9) glob_tree_new_def)
  with old cov show ?thesis unfolding accept(2) by auto
next
  case (iterate i c br go_on out c' b)
  have room: "length (ev_pending V (sys_bus s) (topic_events d)) < CHANNEL_BUFFER_SIZE"
    if "sys_conns s j = Some d" for j d
    using within that by (simp add: within_def)
  have budget: "weight (root (subscriptions c)) + (length p + 1) < 2 ^ 64"
    if "br = On_command (Some (Subscribe p))" for p
    using within iterate(3) unfolding within_def iterate(1) that by simp
  have own: "covered R V c' b \<and> filter_ok c'"
    using iteration_covered [OF laws sys_invD(1,2) [OF inv] iterate(4) room budget] iterate(3) cov by blast
  have "covered R V d b" if "sys_conns s j = Some d" "j \<noteq> i" for j d
  proof -
    have "listens (ev_view V) (event_channels (sys_bus s)) (topic_events d) =
        Some (topic_events_tx (sys_bus s))"
      using sys_invD(2) [OF inv that(1)] by (simp add: wired_def)
    from iteration_announces [OF laws sys_invD(1) [OF inv] iterate(4) this room [OF that(1)]]
    have "announces R V (topic_events d) (sys_bus s) b"
      using sys_invD(3) [OF inv that(1) iterate(3)] that(2) by blast
    then show ?thesis using announces_covered cov that(1) by blast
  qed
  then show ?thesis unfolding iterate(2) using own cov by (auto split: if_splits)
qed

lemma reachable_covered:
  assumes laws: "runtime_laws R V" and "reachable R E (within R V) w v acts s"
  shows "\<forall>i c. sys_conns s i = Some c \<longrightarrow> covered R V c (sys_bus s) \<and> filter_ok c"
  using assms(2)
proof induction
  case start
  then show ?case by (simp add: server_new_def)
next
  case (next_step acts s a s')
  show ?case
    by (rule sys_step_covered [OF laws reachable_inv [OF laws next_step(1)] next_step(2,3) next_step.IH])
qed

end
