(* ===== verification/Glob_Removal.thy ===== *)
theory Glob_Removal
  imports Glob_Correct
begin

text \<open>
  The properties of \<open>GlobTree::remove\<close> on trees built by insertions, and the inputs on which the
  tree departs from its documentation.
\<close>

section \<open>Removal\<close>

text \<open>
  \<open>remove\<close> fails with \<open>Err("Not found")\<close> exactly on the patterns the tree does not contain, and
  the \<open>unwrap\<close> in its loop never panics: every node on the path of a contained pattern exists.
\<close>
theorem remove_error_iff:
  "tree_remove t p = Inl e \<longleftrightarrow> e = Not_found \<and> \<not> tree_contains t p"
  by (auto simp: tree_remove_cases)

text \<open>
  C34: inserting a pattern and removing it again restores the tree if and only if some proper non-empty
  prefix of the pattern had no node in the tree before. In every other case, a pattern of one character
  among them, the removal fails or leaves a different tree.
\<close>
theorem insert_remove_roundtrip:
  assumes "glob_inv t"
  shows "tree_remove (tree_insert t p) p = Inr t \<longleftrightarrow>
    (\<exists>q. q \<noteq> [] \<and> strict_prefix q p \<and> subnode (root t) q = None)"
  by (rule tree_remove_insert_iff [OF assms])

theorem insert_remove_roundtrip_witness:
  "tree_remove (tree_insert (tree_of [str ''fo*'', str ''b?r'']) (str ''foot'')) (str ''foot'') =
     Inr (tree_of [str ''fo*'', str ''b?r'']) \<and>
   tree_remove (tree_insert (tree_of [str ''fo*'', str ''b?r'']) (str ''fox'')) (str ''fox'') \<noteq>
     Inr (tree_of [str ''fo*'', str ''b?r''])"
proof
  note iff = insert_remove_roundtrip [OF tree_of_inv [OF fits_fo_star]]
  have none: "subnode (root (tree_of [str ''fo*'', str ''b?r''])) (str ''foo'') = None" by code_simp
  have "str ''foo'' \<noteq> [] \<and> strict_prefix (str ''foo'') (str ''foot'')" by (simp add: str_def strict_prefix_def)
  with none have "\<exists>q. q \<noteq> [] \<and> strict_prefix q (str ''foot'') \<and>
      subnode (root (tree_of [str ''fo*'', str ''b?r''])) q = None" by blast
  then show "tree_remove (tree_insert (tree_of [str ''fo*'', str ''b?r'']) (str ''foot'')) (str ''foot'') =
      Inr (tree_of [str ''fo*'', str ''b?r''])" by (rule iffD2 [OF iff])
  have some: "subnode (root (tree_of [str ''fo*'', str ''b?r''])) (str ''f'') \<noteq> None"
      "subnode (root (tree_of [str ''fo*'', str ''b?r''])) (str ''fo'') \<noteq> None" by code_simp+
  have "q = str ''f'' \<or> q = str ''fo''" if "q \<noteq> []" "strict_prefix q (str ''fox'')" for q
    using that by (auto simp: str_def strict_prefix_def prefix_Cons)
  then have "\<nexists>q. q \<noteq> [] \<and> strict_prefix q (str ''fox'') \<and>
      subnode (root (tree_of [str ''fo*'', str ''b?r''])) q = None"
    using some by metis
  then show "tree_remove (tree_insert (tree_of [str ''fo*'', str ''b?r'']) (str ''fox'')) (str ''fox'') \<noteq>
      Inr (tree_of [str ''fo*'', str ''b?r''])" unfolding iff .
qed

text \<open>
  C32: in a tree built by insertions (in range, \<open>fits\<close>), removing a contained pattern that has a proper
  non-empty prefix of its own (no other inserted pattern shares it) gives exactly the tree of the
  remaining patterns, as if the pattern had never been inserted.
\<close>
theorem remove_exact:
  assumes fits: "fits ps" and mem: "p \<in> set ps" and own: "q \<noteq> []" "strict_prefix q p" "passing ps q = 1"
    and found: "tree_contains (tree_of ps) p"
  shows "tree_remove (tree_of ps) p = Inr (tree_of (remove1 p ps))"
proof -
  have rep: "tree_represents (tree_of ps) (rev ps)" by (rule tree_of_represents [OF fits])
  then obtain n where n: "remove_at (root (tree_of ps)) p = Inr n" "represents 0 n (remove1 p (rev ps))"
    using represents_remove_at [of 0 "root (tree_of ps)" "rev ps" p q] mem own fits_length [OF fits]
    by (auto simp: tree_represents_def)
  have "tree_represents ((tree_of ps)\<lparr>root := n\<rparr>) (remove1 p (rev ps))"
    using n rep remove_at_token [OF n(1)] by (simp add: tree_represents_def)
  then have "(tree_of ps)\<lparr>root := n\<rparr> = tree_of (remove1 p ps)"
    by (rule tree_represents_unique [OF _ tree_of_represents [OF fits_remove1 [OF fits]]]) simp
  then show ?thesis using found n(1) by (simp add: tree_remove_cases)
qed

theorem remove_exact_witness:
  "tree_remove (tree_of [str ''fo*'', str ''b?r'']) (str ''fo*'') =
     Inr (tree_of (remove1 (str ''fo*'') [str ''fo*'', str ''b?r'']))"
proof (rule remove_exact [OF fits_fo_star, of _ "str ''f''"])
  show "tree_contains (tree_of [str ''fo*'', str ''b?r'']) (str ''fo*'')" by code_simp
qed (simp_all add: str_def strict_prefix_def passing_def)

text \<open>
  C33: a removal leaves every other pattern as it was: after one removal from a tree built by
  insertions (in range, \<open>fits\<close>), a non-empty pattern other than the removed one is contained if and only if it was
  before.
\<close>
theorem remove_keeps_others:
  assumes fits: "fits ps" and r: "tree_remove (tree_of ps) p = Inr t'" and q: "q \<noteq> []" "q \<noteq> p"
  shows "tree_contains t' q \<longleftrightarrow> tree_contains (tree_of ps) q"
proof -
  have wf: "wf_node (root (tree_of ps))" using tree_of_inv [OF fits] by (simp add: glob_inv_def)
  note w = tree_of_weight [OF fits]
  have p_mem: "p \<in> set ps"
    using r tree_of_contains_mem [OF fits, of p] by (auto simp: tree_remove_cases split: if_splits)
  obtain n where n: "remove_at (root (tree_of ps)) p = Inr n" "root t' = n"
    using r by (auto simp: tree_remove_def split: if_splits sum.splits)
  have gain: "tree_contains (tree_of ps) q" if "tree_contains t' q"
    using remove_at_no_gain [OF wf w n(1) q(1)] that n(2)
    by (simp add: tree_contains_def contains_at_iff)
  show ?thesis
  proof (cases "q \<in> set ps")
    case True
    have "node_count m \<noteq> 1"
      if m: "r \<noteq> []" "prefix r p" "prefix r q" "subnode (root (tree_of ps)) r = Some m" for r m
    proof
      assume "node_count m = 1"
      then have "passing ps r \<le> 1" using tree_of_subnode_count [OF fits m(1,4)] by simp
      moreover have "mset (filter (prefix r) ps) \<supseteq># {#p, q#}"
        using p_mem True m(2,3) q(2) by (auto simp: subseteq_mset_def count_mset count_list_0_iff
            Suc_le_eq count_pos)
      then have "2 \<le> passing ps r"
        using size_mset_mono by (fastforce simp: passing_def simp flip: size_mset)
      ultimately show False by simp
    qed
    then show ?thesis
      using remove_at_frame [OF wf w n(1) q] n(2) by (simp add: tree_contains_def contains_at_iff)
  next
    case False
    with gain tree_of_contains_mem [OF fits] show ?thesis by blast
  qed
qed

theorem remove_keeps_others_witness:
  "tree_contains (tree_of (remove1 (str ''fo*'') [str ''fo*'', str ''b?r''])) (str ''b?r'') \<longleftrightarrow>
   tree_contains (tree_of [str ''fo*'', str ''b?r'']) (str ''b?r'')"
proof (rule remove_keeps_others [OF fits_fo_star, of "str ''fo*''"])
  show "tree_remove (tree_of [str ''fo*'', str ''b?r'']) (str ''fo*'') =
      Inr (tree_of (remove1 (str ''fo*'') [str ''fo*'', str ''b?r'']))"
    by code_simp
qed (simp_all add: str_def)

section \<open>Where the tree departs from its documentation\<close>

text \<open>
  A removal can succeed and leave its pattern in the tree. When every proper non-empty prefix
  of the pattern is shared with another inserted pattern (a pattern of one character has no such
  prefix at all), \<open>remove\<close> returns \<open>Ok\<close> and the pattern is still contained unless one-character
  extensions outnumber it: the second increment of \<open>insert\<close> is never taken back.
\<close>
theorem remove_ineffective:
  assumes fits: "fits ps" and p: "p \<noteq> []" "tree_contains (tree_of ps) p"
    and shared: "\<forall>q. q \<noteq> [] \<and> strict_prefix q p \<longrightarrow> 2 \<le> passing ps q"
  shows "\<exists>t'. tree_remove (tree_of ps) p = Inr t' \<and>
    (tree_contains t' p \<longleftrightarrow> extending ps p + 1 < 2 * count_list ps p)"
proof -
  have wf: "wf_node (root (tree_of ps))" using tree_of_inv [OF fits] by (simp add: glob_inv_def)
  have rep: "represents 0 (root (tree_of ps)) (rev ps)"
    using tree_of_represents [OF fits] by (simp add: tree_represents_def)
  have mem: "p \<in> set ps" by (rule tree_of_contains_mem [OF fits p(2)])
  then have cnt: "0 < count_list ps p" by (simp add: count_pos)
  obtain m where m: "subnode (root (tree_of ps)) p = Some m"
    using p(2) terminal_at_path by (auto simp: tree_contains_def contains_at_iff)
  have not1: "node_count m' \<noteq> 1"
    if "r \<noteq> []" "prefix r p" "subnode (root (tree_of ps)) r = Some m'" for r m'
  proof -
    have "2 \<le> passing ps r + count_list ps r"
      using that(1,2) shared cnt count_le_passing [of ps p] by (cases "r = p") (auto simp: strict_prefix_def)
    with tree_of_subnode_count(1) [OF fits that(1,3)] show ?thesis by auto
  qed
  have "\<exists>n. remove_at (root (tree_of ps)) p = Inr n \<and> subnode n p = Some (decrement_count m)"
    by (rule remove_at_shared [OF wf p(1) m]) (rule not1)
  then obtain n where n: "remove_at (root (tree_of ps)) p = Inr n"
      "subnode n p = Some (decrement_count m)"
    by blast
  define ds where "ds = descend p (rev ps)"
  have repm: "0 < passing ps p" "represents (passing ps p) m ds"
    using represents_subnode [OF rep p(1)] m by (auto simp: ds_def)
  then have "node_count m \<noteq> 0" using represents_count by fastforce
  then have "represents (passing ps p - 1) (decrement_count m) ds"
    using repm by (simp add: represents_iff [of _ m] represents_iff [of _ "decrement_count m"]
        unat_u64_pred child_represents_def)
  moreover have "2 * length ds < 2 ^ 64"
    using fits_length [OF fits] passing_le [of ps p] by (simp add: ds_def descend_props)
  ultimately have "is_terminal (decrement_count m) \<longleftrightarrow>
      length (filter (\<lambda>p. p \<noteq> []) ds) + extending ds [] < passing ps p - 1 + count_list ds []"
    by (rule represents_terminal)
  also have "\<dots> \<longleftrightarrow> extending ps p + 1 < 2 * count_list ps p"
    using length_split_empty [of ds] repm(1) by (simp add: ds_def descend_props) linarith
  finally have "terminal_at n p \<longleftrightarrow> extending ps p + 1 < 2 * count_list ps p"
    using n(2) by (simp add: terminal_at_def)
  then show ?thesis
    using p(2) n(1) by (simp add: tree_remove_cases tree_contains_def contains_at_iff)
qed

theorem remove_ineffective_witness:
  "\<exists>t'. tree_remove (tree_of [str ''*'']) (str ''*'') = Inr t' \<and>
     (tree_contains t' (str ''*'') \<longleftrightarrow>
        extending [str ''*''] (str ''*'') + 1 < 2 * count_list [str ''*''] (str ''*''))"
proof (rule remove_ineffective)
  show "tree_contains (tree_of [str ''*'']) (str ''*'')" by code_simp
qed (auto simp: fits_def str_def strict_prefix_def prefix_Cons)

text \<open>The tree left by inserting and removing \<open>*\<close>.\<close>

lemma star_removed:
  "\<exists>t'. tree_remove (tree_of [str ''*'']) (str ''*'') = Inr t' \<and>
     (\<forall>s. tree_check t' s \<longleftrightarrow> s \<noteq> [])"
proof (intro exI conjI allI)
  let ?t = "\<lparr>root = Node None [(Chr 42, Node (Some (Chr 42)) [] 1)] 0\<rparr>"
  show "tree_remove (tree_of [str ''*'']) (str ''*'') = Inr ?t" by code_simp
  fix s
  have inv: "glob_inv ?t" by (simp add: glob_inv_def)
  have "tree_contains ?t p \<longleftrightarrow> p = [MULTI_CHARACTER_WILDCARD]" for p
    by (cases p; cases "tl p")
      (auto simp: tree_contains_def is_terminal_def child_count_def MULTI_CHARACTER_WILDCARD_def)
  moreover have "byte_chars s = [] \<longleftrightarrow> s = []"
    using length_as_bytes_ge [of s] by (auto simp: byte_chars_def)
  ultimately show "tree_check ?t s \<longleftrightarrow> s \<noteq> []"
    using tree_check_contains [OF inv, of s] by (simp add: glob_multi_only)
qed

text \<open>
  Subscribing to \<open>*\<close> and unsubscribing again leaves every non-empty topic matched.
\<close>
theorem remove_star_still_matches:
  "\<exists>t'. tree_remove (tree_of [str ''*'']) (str ''*'') = Inr t' \<and>
     (\<forall>s. tree_check t' s \<longleftrightarrow> s \<noteq> [])"
  by (rule star_removed)

text \<open>
  A second removal of a pattern deletes another one. Two patterns \<open>ac\<close> and \<open>ad\<close> share their
  first node; the first removal of \<open>ac\<close> leaves it contained, so the second succeeds too, finds
  count one at the shared node and deletes \<open>ad\<close> with it.
\<close>
theorem second_remove_deletes_other:
  assumes "c \<noteq> d"
  shows "\<exists>t1 t2. tree_remove (tree_of [[a, c], [a, d]]) [a, c] = Inr t1 \<and>
    tree_contains t1 [a, d] \<and> tree_remove t1 [a, c] = Inr t2 \<and> \<not> tree_contains t2 [a, d]"
proof -
  define leaf where "leaf x k = Node (Some x) [] k" for x and k :: u64
  define kids where "kids k = bt_insert d (leaf d 2) [(c, leaf c k)]" for k :: u64
  define tree where "tree k l = \<lparr>root = Node None [(a, Node (Some a) (kids k) l)] 0\<rparr>" for k l :: u64
  note defs = tree_def kids_def leaf_def
  have built: "tree_of [[a, c], [a, d]] = tree 2 2"
    by (simp add: defs tree_of_def glob_tree_new_def tree_insert_def insert_child_def node_new_def
        set_child_def increment_count_def Let_def assms assms [symmetric])
  have get: "bt_get (kids k) c = Some (leaf c k)" "bt_get (kids k) d = Some (leaf d 2)" for k
    using assms by (simp_all add: kids_def bt_get_insert)
  have put: "bt_insert c (leaf c l) (kids k) = kids l" for k l
    using assms by (auto simp: kids_def)
  have cont: "tree_contains (tree k l) [a, c] \<longleftrightarrow> k \<noteq> 0" "tree_contains (tree k l) [a, d]" for k l
    by (simp_all add: tree_def tree_contains_def get)
      (simp_all add: leaf_def is_terminal_def child_count_def word_gt_0)
  have "tree_remove (tree 2 2) [a, c] = Inr (tree 1 1)"
    using put [of 1 2] cont(1) [of 2 2]
    by (simp add: tree_remove_def) (simp add: tree_def get decrement_count_def set_child_def leaf_def)
  moreover have "tree_remove (tree 1 1) [a, c] = Inr \<lparr>root = Node None [] 0\<rparr>"
    using cont(1) [of 1 1] by (simp add: tree_remove_def) (simp add: tree_def del_child_def)
  moreover have "\<not> tree_contains \<lparr>root = Node None [] 0\<rparr> [a, d]"
    by (simp add: tree_contains_def)
  ultimately show ?thesis using built cont(2) [of 1 1] by auto
qed

theorem second_remove_deletes_other_witness:
  "\<exists>t1 t2. tree_remove (tree_of [str ''ac'', str ''ad'']) (str ''ac'') = Inr t1 \<and>
    tree_contains t1 (str ''ad'') \<and> tree_remove t1 (str ''ac'') = Inr t2 \<and>
    \<not> tree_contains t2 (str ''ad'')"
  using second_remove_deletes_other [of "Chr 99" "Chr 100" "Chr 97"] by (simp add: str_def)

text \<open>
  Two one-character extensions of a literal pattern hide it: with \<open>p\<close>, \<open>pc\<close> and \<open>pd\<close>
  inserted, the tree does not match the string \<open>p\<close>.
\<close>
theorem extensions_hide_pattern:
  assumes fits: "fits [p @ [c], p @ [d], p]" and p: "p \<noteq> []" "list_all is_ascii p"
    and lit: "literal (p @ [c, d])"
  shows "\<not> tree_check (tree_of [p @ [c], p @ [d], p]) p"
proof
  let ?ps = "[p @ [c], p @ [d], p]"
  assume "tree_check (tree_of ?ps) p"
  then obtain q where q: "tree_contains (tree_of ?ps) q" "glob q p"
    using tree_check_contains [OF tree_of_inv [OF fits], of p] byte_chars_ascii [OF p(2)] by auto
  have "q \<in> set ?ps" by (rule tree_of_contains_mem [OF fits q(1)])
  then have "literal q" using lit by (auto simp: literal_def)
  with q(2) have "q = p" by (simp add: glob_literal)
  with q(1) show False
    using tree_of_contains [OF fits p(1)] by (simp add: extending_def)
qed

theorem extensions_hide_pattern_witness:
  "\<not> tree_check (tree_of [str ''a'' @ [Chr 98], str ''a'' @ [Chr 99], str ''a'']) (str ''a'')"
  by (rule extensions_hide_pattern)
    (simp_all add: fits_def str_def is_ascii_def literal_def MULTI_CHARACTER_WILDCARD_def
      SINGLE_CHARACTER_WILDCARD_def)

text \<open>
  The empty pattern can never be removed: \<open>remove\<close> of a contained empty pattern returns \<open>Ok\<close>
  and the tree is unchanged, because only nodes below the root are decremented.
\<close>
theorem remove_empty_pattern_noop:
  assumes "tree_contains t []"
  shows "tree_remove t [] = Inr t"
  using assms by (simp add: tree_remove_cases)

theorem remove_empty_pattern_noop_witness: "tree_remove (tree_of [[]]) [] = Inr (tree_of [[]])"
proof (rule remove_empty_pattern_noop)
  show "tree_contains (tree_of [[]]) []" by code_simp
qed

text \<open>
  The matcher compares the bytes of the string with the characters of the pattern, so a pattern
  without \<open>*\<close> never matches a string of its own length that has a character beyond ASCII: not
  the string itself, and \<open>?\<close> does not match such a character.
\<close>
theorem non_ascii_never_matched:
  assumes fits: "fits [p]" and p: "MULTI_CHARACTER_WILDCARD \<notin> set p"
    and s: "length s = length p" "\<not> list_all is_ascii s"
  shows "\<not> tree_check (tree_of [p]) s"
proof
  assume "tree_check (tree_of [p]) s"
  then obtain q where q: "tree_contains (tree_of [p]) q" "glob q (byte_chars s)"
    using tree_check_contains [OF tree_of_inv [OF fits], of s] by auto
  have "q = p" using tree_of_contains_mem [OF fits q(1)] by simp
  with q(2) p have "length (as_bytes s) = length p"
    using glob_no_multi_length by (fastforce simp: byte_chars_def)
  with length_as_bytes_gt [OF s(2)] s(1) show False by simp
qed

theorem non_ascii_never_matched_witness: "\<not> tree_check (tree_of [[Chr 233]]) [Chr 233]"
  by (rule non_ascii_never_matched)
    (simp_all add: fits_def MULTI_CHARACTER_WILDCARD_def is_ascii_def)

text \<open>
  A multi-character wildcard needs at least one character: no string shorter than the pattern
  is matched, so \<open>foo*\<close> does not match \<open>foo\<close>.
\<close>
theorem wildcard_needs_a_character:
  assumes fits: "fits [p]" and s: "list_all is_ascii s" "length s < length p"
  shows "\<not> tree_check (tree_of [p]) s"
proof
  assume "tree_check (tree_of [p]) s"
  then obtain q where q: "tree_contains (tree_of [p]) q" "glob q s"
    using tree_check_contains [OF tree_of_inv [OF fits], of s] byte_chars_ascii [OF s(1)] by auto
  have "q = p" using tree_of_contains_mem [OF fits q(1)] by simp
  with glob_length [OF q(2)] s(2) show False by simp
qed

theorem wildcard_needs_a_character_witness:
  "\<not> tree_check (tree_of [str ''foo*'']) (str ''foo'')"
  by (rule wildcard_needs_a_character) (simp_all add: fits_def str_def is_ascii_def)

end
