(* ===== verification/Server_Claims.thy ===== *)
theory Server_Claims
  imports System_Correct Glob_Removal
begin

text \<open>
  The properties of the server and of a connection's loop, with one run of two clients as their
  common witness.
\<close>

section \<open>A run of two clients\<close>

text \<open>
  Client 0 subscribes to \<open>a\<close>; client 1 connects and publishes on \<open>a\<close>, which creates the topic;
  client 0's handler learns of it and joins; client 1 publishes again and the handler forwards it.
\<close>

definition ext0 :: "unit externals" where
  "ext0 = \<lparr>value_debug = (\<lambda>_. []), message_bytes = (\<lambda>_. Inr [1])\<rparr>"

definition msg_a :: "unit message" where
  "msg_a = \<lparr>msg_topic = str ''a'', msg_value = ()\<rparr>"

definition tree_a :: glob_tree where
  "tree_a = tree_insert glob_tree_new (str ''a'')"

type_synonym sys0 =
  "((rstring \<times> nat topic_data) list, bytes chans, topic_event chans, (rstring \<times> nat) list, nat) sys"

definition conn_a :: "glob_tree \<Rightarrow> (rstring \<times> nat) list \<Rightarrow> ((rstring \<times> nat) list, nat) conn" where
  "conn_a t streams = \<lparr>topic_streams = streams, topic_events = 2, subscriptions = t\<rparr>"

definition conn_b :: "((rstring \<times> nat) list, nat) conn" where
  "conn_b = \<lparr>topic_streams = [], topic_events = 5, subscriptions = glob_tree_new\<rparr>"

definition ev_chans :: "(nat \<times> nat \<times> topic_event list) list \<Rightarrow> topic_event chans" where
  "ev_chans rs = \<lparr>senders = [(1, CHANNEL_BUFFER_SIZE)], receivers = rs\<rparr>"

definition bus_of ::
  "(rstring \<times> nat topic_data) list \<Rightarrow> bytes chans \<Rightarrow> (nat \<times> nat \<times> topic_event list) list \<Rightarrow>
   ((rstring \<times> nat topic_data) list, bytes chans, topic_event chans, nat) bus" where
  "bus_of ts w rs =
     \<lparr>topics = ts, topic_events_tx = 1, message_channels = w, event_channels = ev_chans rs\<rparr>"

definition topic_a :: "(rstring \<times> nat topic_data) list" where
  "topic_a = [(str ''a'', \<lparr>sender = 1, last_message = Some [1]\<rparr>)]"

definition msg_chans :: "(nat \<times> nat \<times> bytes list) list \<Rightarrow> bytes chans" where
  "msg_chans rs = \<lparr>senders = [(1, CHANNEL_BUFFER_SIZE)], receivers = rs\<rparr>"

definition sys_1 :: sys0 where
  "sys_1 = \<lparr>sys_bus = bus_of [] chans_new [(2, 1, [])],
     sys_conns = (sys_conns (server_new rt0 chans_new chans_new))(0 := Some (conn_a glob_tree_new []))\<rparr>"

definition sys_2 :: sys0 where
  "sys_2 = \<lparr>sys_bus = sys_bus sys_1, sys_conns = (sys_conns sys_1)(0 := Some (conn_a tree_a []))\<rparr>"

definition sys_3 :: sys0 where
  "sys_3 = \<lparr>sys_bus = bus_of [] chans_new [(5, 1, []), (2, 1, [])],
     sys_conns = (sys_conns sys_2)(1 := Some conn_b)\<rparr>"

definition sys_4 :: sys0 where
  "sys_4 = \<lparr>sys_bus = bus_of topic_a (msg_chans [])
       [(5, 1, [Created (str ''a'')]), (2, 1, [Created (str ''a'')])],
     sys_conns = (sys_conns sys_3)(1 := Some conn_b)\<rparr>"

definition sys_5 :: sys0 where
  "sys_5 = \<lparr>sys_bus = bus_of topic_a (msg_chans [(2, 1, [])]) [(5, 1, [Created (str ''a'')]), (2, 1, [])],
     sys_conns = (sys_conns sys_4)(0 := Some (conn_a tree_a [(str ''a'', 2)]))\<rparr>"

definition sys_6 :: sys0 where
  "sys_6 = \<lparr>sys_bus = bus_of topic_a (msg_chans [(2, 1, [[1]])]) [(5, 1, [Created (str ''a'')]), (2, 1, [])],
     sys_conns = (sys_conns sys_5)(1 := Some conn_b)\<rparr>"

definition sys_7 :: sys0 where
  "sys_7 = \<lparr>sys_bus = bus_of topic_a (msg_chans [(2, 1, [])]) [(5, 1, [Created (str ''a'')]), (2, 1, [])],
     sys_conns = (sys_conns sys_6)(0 := Some (conn_a tree_a [(str ''a'', 2)]))\<rparr>"

definition out_of :: "unit command \<Rightarrow> conn_output list" where
  "out_of cmd = [Command_increment, Log_command (command_log (\<lambda>_. []) cmd)]"

definition act_1 :: "unit action" where "act_1 = Accept 0 run_start"
definition act_2 :: "unit action" where
  "act_2 = Iterate 0 (On_command (Some (Subscribe (str ''a'')))) (out_of (Subscribe (str ''a'')))"
definition act_3 :: "unit action" where "act_3 = Accept 1 run_start"
definition act_4 :: "unit action" where
  "act_4 = Iterate 1 (On_command (Some (Publish msg_a))) (out_of (Publish msg_a))"
definition act_5 :: "unit action" where "act_5 = Iterate 0 On_topic_event [Try_send [1]]"

definition act_7 :: "unit action" where
  "act_7 = Iterate 0 (On_stream (str ''a'') True) [Sent_increment, Send_bytes [1]]"

lemmas sys_defs = sys_1_def sys_2_def sys_3_def sys_4_def sys_5_def sys_6_def sys_7_def server_new_def conn_a_def conn_b_def
  ev_chans_def bus_of_def topic_a_def msg_chans_def

lemma check_a: "tree_check tree_a (str ''a'')" "\<not> tree_check glob_tree_new (str ''a'')"
  by code_simp+

lemma step_1: "sys_step rt0 ext0 (server_new rt0 chans_new chans_new) act_1 sys_1"
  unfolding act_1_def sys_1_def
  by (rule sys_step.accept) (simp_all add: sys_defs rt0_simps conn_new_def Let_def)

lemma step_2: "sys_step rt0 ext0 sys_1 act_2 sys_2"
proof -
  have "run_iteration rt0 ext0 (On_command (Some (Subscribe (str ''a''))))
      (conn_a glob_tree_new [], sys_bus sys_1) =
      (True, out_of (Subscribe (str ''a'')), conn_a tree_a [], sys_bus sys_1)"
    by (simp add: sys_defs rt0_def list_dashmap_def list_topics_def tree_a_def out_of_def ext0_def)
  from sys_step.iterate [OF _ this, of 0] show ?thesis
    by (simp add: act_2_def sys_2_def) (simp add: sys_defs)
qed

lemma step_3: "sys_step rt0 ext0 sys_2 act_3 sys_3"
  unfolding act_3_def sys_3_def
  by (rule sys_step.accept) (simp_all add: sys_defs rt0_simps conn_new_def Let_def)

lemma step_4: "sys_step rt0 ext0 sys_3 act_4 sys_4"
proof -
  have "run_iteration rt0 ext0 (On_command (Some (Publish msg_a))) (conn_b, sys_bus sys_3) =
      (True, out_of (Publish msg_a), conn_b, sys_bus sys_4)"
    by (simp add: sys_defs rt0_simps handle_publish_def ext0_def msg_a_def out_of_def Let_def)
  from sys_step.iterate [OF _ this, of 1] show ?thesis
    by (simp add: act_4_def) (simp add: sys_4_def sys_3_def)
qed

lemma step_5: "sys_step rt0 ext0 sys_4 act_5 sys_5"
proof -
  have "run_iteration rt0 ext0 On_topic_event (conn_a tree_a [], sys_bus sys_4) =
      (True, [Try_send [1]], conn_a tree_a [(str ''a'', 2)], sys_bus sys_5)"
    by (simp add: sys_defs rt0_simps handle_new_topic_def check_a Let_def)
  from sys_step.iterate [OF _ this, of 0] show ?thesis
    by (simp add: act_5_def) (simp add: sys_5_def, simp add: sys_defs)
qed

lemma step_6: "sys_step rt0 ext0 sys_5 act_4 sys_6"
proof -
  have "run_iteration rt0 ext0 (On_command (Some (Publish msg_a))) (conn_b, sys_bus sys_5) =
      (True, out_of (Publish msg_a), conn_b, sys_bus sys_6)"
    by (simp add: sys_defs rt0_simps handle_publish_def ext0_def msg_a_def out_of_def Let_def)
  from sys_step.iterate [OF _ this, of 1] show ?thesis
    by (simp add: act_4_def) (simp add: sys_6_def, simp add: sys_defs)
qed

lemma step_7: "sys_step rt0 ext0 sys_6 act_7 sys_7"
proof -
  have "run_iteration rt0 ext0 (On_stream (str ''a'') True)
      (conn_a tree_a [(str ''a'', 2)], sys_bus sys_6) =
      (True, [Sent_increment, Send_bytes [1]], conn_a tree_a [(str ''a'', 2)], sys_bus sys_7)"
    by (simp add: sys_defs rt0_simps forward_message_to_client_def)
  from sys_step.iterate [OF _ this, of 0] show ?thesis
    by (simp add: act_7_def) (simp add: sys_7_def, simp add: sys_defs)
qed

lemma weight_new: "weight (root glob_tree_new) + (length (str ''a'') + 1) < 2 ^ 64"
  by (simp add: glob_tree_new_def str_def)

lemma within_run:
  "within rt0 views0 (server_new rt0 chans_new chans_new) act_1"
  "within rt0 views0 sys_1 act_2" "within rt0 views0 sys_2 act_3" "within rt0 views0 sys_3 act_4"
  "within rt0 views0 sys_4 act_5" "within rt0 views0 sys_5 act_4" "within rt0 views0 sys_6 act_7"
  using weight_new
  by (simp_all add: within_def sys_defs views0_def list_view_def act_1_def act_2_def act_3_def act_4_def
      act_5_def act_7_def CHANNEL_BUFFER_SIZE_def)

abbreviation reach0 where
  "reach0 \<equiv> reachable rt0 ext0 (within rt0 views0) chans_new chans_new"

lemma reach0_snoc:
  "reach0 acts s \<Longrightarrow> within rt0 views0 s a \<Longrightarrow> sys_step rt0 ext0 s a s' \<Longrightarrow> reach0 (acts @ [a]) s'"
  by (rule reachable.next_step)

lemma run_3: "reach0 [act_1, act_2, act_3] sys_3"
  using reach0_snoc [OF reach0_snoc [OF reach0_snoc [OF reachable.start within_run(1) step_1]
      within_run(2) step_2] within_run(3) step_3]
  by simp

lemma run_4: "reach0 [act_1, act_2, act_3, act_4] sys_4"
  using reach0_snoc [OF run_3 within_run(4) step_4] by simp

lemma run_7: "reach0 [act_1, act_2, act_3, act_4, act_5, act_4, act_7] sys_7"
  using reach0_snoc [OF reach0_snoc [OF reach0_snoc [OF run_4 within_run(5) step_5]
      within_run(6) step_6] within_run(7) step_7]
  by simp

section \<open>Receiving a creation event\<close>

lemma creation_event_joins:
  assumes laws: "runtime_laws R V"
    and poll: "bc_recv (rt_events R) (topic_events c) (event_channels b) = (Received (Created t), v)"
    and m: "tree_check (subscriptions c) t" and none: "stream_of R c t = None"
    and last: "bus_abs R b t = Some (Some bs)"
  shows "\<exists>c' b' rx. run_iteration R E On_topic_event (c, b) = (True, [Try_send bs], (c', b')) \<and>
    stream_of R c' t = Some rx \<and> receives R V b' t rx \<and> msg_pending V b' rx = []"
proof -
  let ?b = "b\<lparr>event_channels := v\<rparr>"
  note ev = event_poll_effect [OF laws poll]
  obtain out c' b' where j: "conn_subscribe_to_topic R t (c, ?b) = (out, (c', b'))"
    by (metis prod.exhaust)
  have run: "run_iteration R E On_topic_event (c, b) = (True, out, (c', b'))"
    using j m poll by (simp add: handle_new_topic_def del: conn_subscribe_to_topic.simps)
  note e = conn_subscribe_effect [OF laws j]
  have ab: "bus_abs R ?b t = Some (Some bs)" using last ev(2) by (simp add: bus_abs_def)
  have "out = [Try_send bs]" using e(2) none ab by (simp add: retained_def)
  moreover obtain rx where rx: "stream_of R c' t = Some rx"
    using e(3) [of t] ab by (auto simp: bus_abs_def)
  moreover have new: "listens (msg_view V) (message_channels ?b) rx = None" "receives R V b' t rx"
    using e(1) rx none unfolding joins_def by fastforce+
  moreover have "msg_pending V b' rx = []"
    using e(1) bus_quietD(8) [of R V ?b b' rx t] new by (simp add: joins_def)
  ultimately show ?thesis using run by blast
qed

section \<open>Properties\<close>

text \<open>
  C9: at-most-once, in-order delivery. In every run of the server, whatever the order of its steps
  and whether or not receivers fall behind, what a connection's handler forwards from its streams of
  a topic is a subsequence of what all clients together published on that topic: nothing is
  forwarded twice, out of order, altered, or from another topic.
\<close>
theorem delivery_in_order_at_most_once:
  assumes "runtime_laws R V" and "reachable R E ok w v acts s"
  shows "subseq (forwarded i t acts) (published E t acts)"
  using reachable_ordered [OF assms] by (simp add: ordered_def)

theorem delivery_in_order_at_most_once_witness:
  "subseq (forwarded 0 (str ''a'') [act_1, act_2, act_3, act_4, act_5, act_4, act_7])
     (published ext0 (str ''a'') [act_1, act_2, act_3, act_4, act_5, act_4, act_7]) \<and>
   forwarded 0 (str ''a'') [act_1, act_2, act_3, act_4, act_5, act_4, act_7] = [[1]] \<and>
   published ext0 (str ''a'') [act_1, act_2, act_3, act_4, act_5, act_4, act_7] = [[1], [1]]"
  using delivery_in_order_at_most_once [OF runtime_laws0 run_7, of 0 "str ''a''"]
  by (simp add: act_1_def act_2_def act_3_def act_4_def act_5_def act_7_def msg_a_def ext0_def)

text \<open>
  C12: no matching topic is missed. In every run in which no topic event is dropped and the patterns
  stay in range, a connection has, for every existing topic with a name that its subscriptions match, a stream
  that receives from that topic's sender, or it has yet to receive the topic's creation event; once
  it has received all its events, it has the stream.
\<close>
theorem no_matching_topic_missed:
  assumes laws: "runtime_laws R V" and run: "reachable R E (within R V) w v acts s"
    and c: "sys_conns s i = Some c" and t: "t \<noteq> []" "bus_abs R (sys_bus s) t \<noteq> None"
    and m: "tree_check (subscriptions c) t"
  shows "(\<exists>rx. stream_of R c t = Some rx \<and> receives R V (sys_bus s) t rx) \<or>
    Created t \<in> set (ev_pending V (sys_bus s) (topic_events c))"
proof -
  have "topic R (sys_bus s) t \<noteq> None" using t(2) by (simp add: bus_abs_def)
  with reachable_covered [OF laws run] c t(1) m
  have "stream_of R c t \<noteq> None \<or> Created t \<in> set (ev_pending V (sys_bus s) (topic_events c))"
    by (auto simp: covered_def)
  moreover have "wired R V c (sys_bus s)" by (rule sys_invD(2) [OF reachable_inv [OF laws run] c])
  ultimately show ?thesis by (auto simp: wired_def)
qed

theorem no_matching_topic_missed_witness:
  "(\<exists>rx. stream_of rt0 (conn_a tree_a []) (str ''a'') = Some rx \<and>
      receives rt0 views0 (sys_bus sys_4) (str ''a'') rx) \<or>
   Created (str ''a'') \<in> set (ev_pending views0 (sys_bus sys_4) (topic_events (conn_a tree_a [])))"
proof (rule no_matching_topic_missed [OF runtime_laws0 run_4, of 0])
  show "tree_check (subscriptions (conn_a tree_a [])) (str ''a'')" by (simp add: conn_a_def check_a)
qed (simp_all add: sys_defs str_def bus_abs_def topic_def rt0_def list_dashmap_def)

text \<open>
  C14: a publication reaches every connection whose subscriptions match its topic. Within the bounds
  of the property above (no topic event dropped, patterns in range), after the step that publishes it a
  message that can be encoded is the last one of its topic (with a non-empty name), and for every
  connection that matches it is the newest message in the connection's stream of that topic, if that had
  room, or, where there is no stream, the topic's creation event is among those the connection has yet to
  receive.
\<close>
theorem publication_reaches_every_match:
  assumes laws: "runtime_laws R V" and run: "reachable R E (within R V) w v acts s"
    and step: "sys_step R E s (Iterate j (On_command (Some (Publish m))) out) s'"
    and within: "within R V s (Iterate j (On_command (Some (Publish m))) out)"
    and bs: "message_bytes E m = Inr bs"
    and c: "sys_conns s i = Some c" and m: "msg_topic m \<noteq> []" "tree_check (subscriptions c) (msg_topic m)"
    and room: "\<And>rx. stream_of R c (msg_topic m) = Some rx \<Longrightarrow>
      length (msg_pending V (sys_bus s) rx) < CHANNEL_BUFFER_SIZE"
  shows "sys_conns s' i = Some c \<and> bus_abs R (sys_bus s') (msg_topic m) = Some (Some bs) \<and>
    (case stream_of R c (msg_topic m) of
       Some rx \<Rightarrow> msg_pending V (sys_bus s') rx = msg_pending V (sys_bus s) rx @ [bs]
     | None \<Rightarrow> Created (msg_topic m) \<in> set (ev_pending V (sys_bus s') (topic_events c)))"
proof -
  let ?b = "sys_bus s" let ?b' = "snd (bus_send R (msg_topic m) bs (sys_bus s))"
  note inv = reachable_inv [OF laws run]
  have s': "sys_bus s' = ?b'" "sys_conns s' i = Some c"
    using step c bs by (auto elim!: iterate_elim simp: handle_publish_def)
  note e = bus_send_effect [OF laws sys_invD(1) [OF inv] surjective_pairing,
      where t = "msg_topic m" and m = bs]
  have "covered R V c (sys_bus s')"
    using reachable_covered [OF laws reachable.next_step [OF run within step]] s'(2) by blast
  moreover have "bus_abs R ?b' (msg_topic m) = Some (Some bs)" by (simp add: e(4))
  then have "topic R ?b' (msg_topic m) \<noteq> None" by (auto simp: bus_abs_def)
  ultimately have "stream_of R c (msg_topic m) \<noteq> None \<or>
      Created (msg_topic m) \<in> set (ev_pending V (sys_bus s') (topic_events c))"
    using m s'(1) by (simp add: covered_def)
  moreover have "msg_pending V ?b' rx = msg_pending V ?b rx @ [bs]"
    if "stream_of R c (msg_topic m) = Some rx" for rx
    using e(5) [OF _ room [OF that]] sys_invD(2) [OF inv c] that by (simp add: wired_def)
  ultimately show ?thesis using s' e(4) by (auto split: option.split)
qed

theorem publication_reaches_every_match_witness:
  "sys_conns sys_4 0 = Some (conn_a tree_a []) \<and>
   bus_abs rt0 (sys_bus sys_4) (msg_topic msg_a) = Some (Some [1]) \<and>
   (case stream_of rt0 (conn_a tree_a []) (msg_topic msg_a) of
      Some rx \<Rightarrow> msg_pending views0 (sys_bus sys_4) rx = msg_pending views0 (sys_bus sys_3) rx @ [[1]]
    | None \<Rightarrow> Created (msg_topic msg_a) \<in>
        set (ev_pending views0 (sys_bus sys_4) (topic_events (conn_a tree_a []))))"
proof (rule publication_reaches_every_match [OF runtime_laws0 run_3 step_4 [unfolded act_4_def]
      within_run(4) [unfolded act_4_def]])
  show "tree_check (subscriptions (conn_a tree_a [])) (msg_topic msg_a)"
    by (simp add: conn_a_def msg_a_def check_a)
qed (simp_all add: sys_defs ext0_def msg_a_def str_def stream_of_def rt0_def list_streammap_def)

text \<open>
  C17: the creation event brings a connection the topic's message. When the handler receives the event
  of a topic it matches and has no stream for, it sends the topic's last message to the client at
  once and from then on has a stream of the topic, on which nothing is pending yet.
\<close>
theorem creation_event_catches_up:
  assumes laws: "runtime_laws R V"
    and poll: "bc_recv (rt_events R) (topic_events c) (event_channels b) = (Received (Created t), v)"
    and m: "tree_check (subscriptions c) t" and none: "stream_of R c t = None"
    and last: "bus_abs R b t = Some (Some bs)"
  shows "\<exists>c' b' rx. run_iteration R E On_topic_event (c, b) = (True, [Try_send bs], (c', b')) \<and>
    stream_of R c' t = Some rx \<and> receives R V b' t rx \<and> msg_pending V b' rx = []"
  by (rule creation_event_joins [OF assms])

theorem creation_event_catches_up_witness:
  "\<exists>c' b' rx. run_iteration rt0 ext0 On_topic_event (conn_a tree_a [], sys_bus sys_4) =
       (True, [Try_send [1]], (c', b')) \<and>
     stream_of rt0 c' (str ''a'') = Some rx \<and> receives rt0 views0 b' (str ''a'') rx \<and>
     msg_pending views0 b' rx = []"
  by (rule creation_event_catches_up [OF runtime_laws0,
        where v = "ev_chans [(5, 1, [Created (str ''a'')]), (2, 1, [])]"])
    (simp_all add: sys_defs rt0_def list_broadcast_def list_streammap_def list_dashmap_def check_a
      stream_of_def bus_abs_def topic_def)

text \<open>
  C25: the wiring of the server is an invariant: in every run, every stream of every connection is a
  receiver of the topic it is filed under and of no other topic, and no other stream, of this
  connection or of another, is the same receiver.
\<close>
theorem server_wiring:
  assumes laws: "runtime_laws R V" and run: "reachable R E ok w v acts s"
    and c: "sys_conns s i = Some c" "stream_of R c t = Some rx"
    and d: "sys_conns s j = Some d" "stream_of R d u = Some rx'"
  shows "(receives R V (sys_bus s) topic_name rx \<longleftrightarrow> topic_name = t) \<and> (rx = rx' \<longleftrightarrow> i = j \<and> t = u)"
proof -
  note inv = reachable_inv [OF laws run]
  have r: "receives R V (sys_bus s) t rx" "receives R V (sys_bus s) u rx'"
    using sys_invD(2) [OF inv c(1)] sys_invD(2) [OF inv d(1)] c(2) d(2) by (simp_all add: wired_def)
  have only: "receives R V (sys_bus s) t' rx \<longleftrightarrow> t' = t" for t'
    using receives_unique [OF sys_invD(1) [OF inv] _ r(1)] r(1) by blast
  have "rx = rx' \<longleftrightarrow> i = j \<and> t = u"
  proof
    assume eq: "rx = rx'"
    have "i = j"
    proof (rule ccontr)
      assume "i \<noteq> j"
      from sys_invD(4) [OF inv c(1) d(1) this c(2), of u] d(2) eq show False by simp
    qed
    moreover have "u = t" using only [of u] r(2) eq by simp
    ultimately show "i = j \<and> t = u" by simp
  next
    assume "i = j \<and> t = u"
    with c d show "rx = rx'" by simp
  qed
  with only show ?thesis by simp
qed

theorem server_wiring_witness:
  "(receives rt0 views0 (sys_bus sys_7) (str ''b'') 2 \<longleftrightarrow> str ''b'' = str ''a'') \<and>
   (2 = (2 :: nat) \<longleftrightarrow> 0 = (0 :: nat) \<and> str ''a'' = str ''a'')"
  by (rule server_wiring [OF runtime_laws0 run_7, of 0 "conn_a tree_a [(str ''a'', 2)]" _ _ 0
        "conn_a tree_a [(str ''a'', 2)]"])
    (simp_all add: sys_defs stream_of_def rt0_def list_streammap_def)

text \<open>
  Unsubscribing from \<open>*\<close> has no effect. A connection that subscribed to \<open>*\<close> and unsubscribes from
  it keeps every stream of a topic with a non-empty name.
\<close>
theorem unsubscribe_star_keeps_streams:
  assumes laws: "runtime_laws R V" and subs: "subscriptions c = tree_insert glob_tree_new (str ''*'')"
    and t: "t \<noteq> []"
  shows "stream_of R (handle_unsubscribe R (str ''*'') c) t = stream_of R c t"
proof -
  obtain t' where t': "tree_remove (tree_of [str ''*'']) (str ''*'') = Inr t'" "tree_check t' t"
    using star_removed t by blast
  have "subscriptions c = tree_of [str ''*'']" by (simp add: subs tree_of_def)
  then have "remove_ok (subscriptions c) (str ''*'') = t'" by (simp only: remove_ok_def t'(1) sum.case)
  with t'(2) have "tree_check (remove_ok (subscriptions c) (str ''*'')) t" by simp
  then show ?thesis by (simp add: handle_unsubscribe_effect [OF laws])
qed

theorem unsubscribe_star_keeps_streams_witness:
  "stream_of rt0 (handle_unsubscribe rt0 (str ''*'')
       (conn_a (tree_insert glob_tree_new (str ''*'')) [(str ''a'', 2)])) (str ''a'') =
     stream_of rt0 (conn_a (tree_insert glob_tree_new (str ''*'')) [(str ''a'', 2)]) (str ''a'')"
  by (rule unsubscribe_star_keeps_streams [OF runtime_laws0]) (simp_all add: conn_a_def str_def)

section \<open>What the handler reports\<close>

fun commands_of :: "'a branch list \<Rightarrow> nat" where
  "commands_of [] = 0"
| "commands_of (On_command (Some cmd) # brs) = Suc (commands_of brs)"
| "commands_of (br # brs) = commands_of brs"

lemma conn_subscribe_outputs:
  "fst (conn_subscribe_to_topic R t s) = [] \<or> (\<exists>m. fst (conn_subscribe_to_topic R t s) = [Try_send m])"
proof (cases s)
  case (Pair c b)
  obtain r b' where r: "subscribe_to_topic R t b = (r, b')" by (metis prod.exhaust)
  show ?thesis
  proof (cases r)
    case None
    with Pair r show ?thesis by simp
  next
    case (Some p)
    obtain rx lm where "p = (rx, lm)" by (cases p)
    with Pair r Some show ?thesis by (cases lm) simp_all
  qed
qed

lemma subscribe_matching_outputs: "set (fst (subscribe_matching R ts s)) \<subseteq> range Try_send"
proof (induction ts arbitrary: s)
  case (Cons t ts)
  obtain o1 s1 where j: "conn_subscribe_to_topic R t s = (o1, s1)" by (metis prod.exhaust)
  obtain o2 s2 where m: "subscribe_matching R ts s1 = (o2, s2)" by (metis prod.exhaust)
  obtain o3 s3 where n: "subscribe_matching R ts s = (o3, s3)" by (metis prod.exhaust)
  have "set o1 \<subseteq> range Try_send" using conn_subscribe_outputs [of R t s] j by auto
  moreover have "set o2 \<subseteq> range Try_send" "set o3 \<subseteq> range Try_send"
    using Cons [of s1] Cons [of s] m n by simp_all
  ultimately show ?case by (simp add: j m n)
qed simp

text \<open>No operation of the loop touches the connection count.\<close>

lemma iteration_outputs:
  assumes "run_iteration R E br (c, b) = (go_on, out, s')"
  shows "Connection_add n \<notin> set out" and "Connection_subtract n \<notin> set out"
    and "count_list out Sent_increment = length (sent out)"
proof -
  have "set out \<subseteq> range Try_send \<or> (\<exists>m. out = [Sent_increment, Send_bytes m]) \<or>
    (\<exists>l o'. out = Command_increment # Log_command l # o' \<and> set o' \<subseteq> range Try_send)"
  proof (cases br)
    case (On_command cmd)
    show ?thesis
    proof (cases cmd)
      case None
      with assms On_command show ?thesis by simp
    next
      case (Some cmd')
      then show ?thesis
        using assms On_command
          subscribe_matching_outputs [of R "list_topics R b"
            "(c\<lparr>subscriptions := tree_insert (subscriptions c) (case cmd' of Subscribe p \<Rightarrow> p | _ \<Rightarrow> [])\<rparr>, b)"]
        by (cases cmd') (auto simp: Let_def split: prod.splits)
    qed
  next
    case On_topic_event
    obtain r v where poll: "bc_recv (rt_events R) (topic_events c) (event_channels b) = (r, v)"
      by fastforce
    show ?thesis
    proof (cases r)
      case (Received e)
      obtain name where e: "e = Created name" by (cases e)
      have "out = fst (handle_new_topic R name (c, b\<lparr>event_channels := v\<rparr>))"
        using assms On_topic_event poll Received e by (auto simp del: conn_subscribe_to_topic.simps)
      then show ?thesis
        using conn_subscribe_outputs [of R name "(c, b\<lparr>event_channels := v\<rparr>)"]
        by (auto simp: handle_new_topic_def simp del: conn_subscribe_to_topic.simps)
    qed (use assms On_topic_event poll in auto)
  next
    case (On_stream u ok)
    then show ?thesis
      using assms by (auto simp: forward_message_to_client_def
          split: option.splits prod.splits recv_result.splits)
  qed
  moreover have "sent o' = [] \<and> count_list o' Sent_increment = 0"
    if "set o' \<subseteq> range Try_send" for o' :: "conn_output list"
    using that by (induction o') auto
  ultimately show "Connection_add n \<notin> set out" "Connection_subtract n \<notin> set out"
    "count_list out Sent_increment = length (sent out)"
    by auto
qed

lemma loop_outputs:
  "run_loop R E brs s = (running, out, s') \<Longrightarrow>
   Connection_add n \<notin> set out \<and> Connection_subtract n \<notin> set out \<and>
   count_list out Sent_increment = length (sent out)"
proof (induction brs arbitrary: s out)
  case (Cons br brs)
  obtain c b where s: "s = (c, b)" by (cases s)
  obtain go_on o1 s1 where i: "run_iteration R E br (c, b) = (go_on, o1, s1)"
    by (metis prod.exhaust)
  note o = iteration_outputs [OF i]
  show ?case
  proof (cases go_on)
    case False
    with Cons.prems i o show ?thesis by (simp add: s)
  next
    case True
    with Cons.prems i obtain o2 where "run_loop R E brs s1 = (running, o2, s')" "out = o1 @ o2"
      by (auto simp: s Let_def split: prod.splits)
    with Cons.IH [of s1 o2] o show ?thesis by (simp add: sent_append)
  qed
qed simp

text \<open>
  A handler's reports balance. It counts its connection in first and exactly once, counts it out
  exactly once if its loop ended and as the last thing it does, and counts one message as sent for
  each message it sends through a stream.
\<close>
theorem handler_reports_balance:
  "\<exists>out. fst (handler_run R E brs s) =
     [Connection_add 1] @ out @ (if fst (run_loop R E brs s) then [] else [Connection_subtract 1]) \<and>
   (\<forall>n. Connection_add n \<notin> set out \<and> Connection_subtract n \<notin> set out) \<and>
   count_list (fst (handler_run R E brs s)) Sent_increment = length (sent (fst (handler_run R E brs s)))"
proof -
  obtain running out s' where r: "run_loop R E brs s = (running, out, s')" by (metis prod.exhaust)
  then show ?thesis
    using loop_outputs [OF r] by (intro exI [of _ out])
      (auto simp: handler_run_def run_start_def run_end_def sent_append)
qed

end
