(* ===== verification/Delivery.thy ===== *)
theory Delivery
  imports Server_Claims
begin

text \<open>
  Delivery without lag, exactly and eventually: on a stretch of a run on which a stream does not fall
  behind, what its connection forwards, with what is still in the stream, is exactly what was in it
  and was published since; and a stream that is polled often enough has delivered what was in it.
  Likewise for the topic events of a handler.
\<close>

section \<open>One iteration, exactly\<close>

lemma publish_exact:
  assumes laws: "runtime_laws R V" and inv: "bus_inv R V b" and rx: "receives R V b t rx"
    and room: "length (msg_pending V b rx) < CHANNEL_BUFFER_SIZE"
  shows "msg_pending V (handle_publish R E m b) rx =
      msg_pending V b rx @ publish_of E t (On_command (Some (Publish m)))"
    and "msg_lagging V (handle_publish R E m b) rx = msg_lagging V b rx"
proof -
  have all: "msg_pending V (handle_publish R E m b) rx =
      msg_pending V b rx @ publish_of E t (On_command (Some (Publish m))) \<and>
    msg_lagging V (handle_publish R E m b) rx = msg_lagging V b rx"
  proof (cases "message_bytes E m")
    case (Inr bs)
    note e = bus_send_effect [OF laws inv surjective_pairing, where t = "msg_topic m" and m = bs]
    have lag: "msg_lagging V (snd (bus_send R (msg_topic m) bs b)) rx = msg_lagging V b rx"
      by (rule bus_send_lagging [OF laws inv]) (simp add: room)
    show ?thesis
    proof (cases "receives R V b (msg_topic m) rx")
      case True
      then have "msg_topic m = t" by (rule receives_unique [OF inv _ rx])
      with e(5) [OF True room] lag Inr show ?thesis by (simp add: handle_publish_def)
    next
      case False
      with rx have "msg_topic m \<noteq> t" by metis
      with e(7) [OF False] lag Inr show ?thesis by (simp add: handle_publish_def)
    qed
  qed (simp add: handle_publish_def)
  then show "msg_pending V (handle_publish R E m b) rx =
      msg_pending V b rx @ publish_of E t (On_command (Some (Publish m)))"
    "msg_lagging V (handle_publish R E m b) rx = msg_lagging V b rx" by blast+
qed

lemma iteration_exact_other:
  assumes laws: "runtime_laws R V" and inv: "bus_inv R V b"
    and run: "run_iteration R E br (c, b) = (go_on, out, (c', b'))" and rx: "receives R V b t rx"
    and room: "length (msg_pending V b rx) < CHANNEL_BUFFER_SIZE" and br: "\<And>u ok. br \<noteq> On_stream u ok"
  shows "msg_pending V b' rx = msg_pending V b rx @ publish_of E t br \<and> forward_of t br out = [] \<and>
    msg_lagging V b' rx = msg_lagging V b rx"
proof (cases br)
  case (On_command cmd)
  show ?thesis
  proof (cases cmd)
    case None
    with run On_command show ?thesis by simp
  next
    case (Some cmd')
    show ?thesis
    proof (cases cmd')
      case (Publish m)
      with run On_command Some have "b' = handle_publish R E m b" by simp
      with publish_exact [OF laws inv rx room, of E m] On_command Some Publish show ?thesis by simp
    next
      case (Subscribe p)
      obtain o' where "handle_subscribe R p (c, b) = (o', (c', b'))"
        using run On_command Some Subscribe
        by (auto simp: Let_def simp del: handle_subscribe.simps split: prod.splits)
      from handle_subscribe_effect(1) [OF laws this] have "bus_quiet R V b b'" by (simp add: joins_def)
      from bus_quietD(6,9) [OF this rx] On_command Some Subscribe show ?thesis by simp
    next
      case (Unsubscribe p)
      with run On_command Some show ?thesis by simp
    qed
  qed
next
  case On_topic_event
  obtain b1 where b1: "topic R b1 = topic R b" "joins R V (c, b1) (c', b')"
      "message_channels b1 = message_channels b"
    using event_step [OF laws run [unfolded On_topic_event]] by metis
  have "receives R V b1 t rx" using rx by (simp add: receives_def b1)
  moreover have "bus_quiet R V b1 b'" using b1(2) by (simp add: joins_def)
  ultimately have "msg_pending V b' rx = msg_pending V b1 rx" "msg_lagging V b' rx = msg_lagging V b1 rx"
    by (simp_all add: bus_quietD(6,9))
  with On_topic_event b1(3) show ?thesis by simp
qed (use br in simp)

lemma iteration_exact:
  assumes laws: "runtime_laws R V" and inv: "bus_inv R V b" and w: "wired R V c b"
    and run: "run_iteration R E br (c, b) = (go_on, out, (c', b'))" and rx: "receives R V b t rx"
    and room: "length (msg_pending V b rx) < CHANNEL_BUFFER_SIZE"
  shows "(if stream_of R c t = Some rx then forward_of t br out else []) @ msg_pending V b' rx =
      msg_pending V b rx @ publish_of E t br \<and>
    (msg_lagging V b' rx \<longrightarrow> msg_lagging V b rx)"
proof (cases "\<exists>u ok. br = On_stream u ok")
  case False
  from iteration_exact_other [OF laws inv run rx room] False show ?thesis by simp
next
  case True
  then obtain u ok where br: "br = On_stream u ok" by blast
  show ?thesis
  proof (cases "stream_of R c u")
    case None
    with run br have "b' = b" by (simp add: stream_of_def)
    moreover have "u \<noteq> t" if "stream_of R c t = Some rx" using None that by auto
    ultimately show ?thesis using br by simp
  next
    case (Some rx')
    obtain r ws where poll: "bc_recv (rt_messages R) rx' (message_channels b) = (r, ws)" by fastforce
    have b': "b' = b\<lparr>message_channels := ws\<rparr>" "sent out = (case r of Received x \<Rightarrow> [x] | _ \<Rightarrow> [])"
      using run br Some poll
      by (auto simp: stream_of_def forward_message_to_client_def split: recv_result.splits)
    note l = recvD [OF runtime_lawsD(3) [OF laws] poll]
    show ?thesis
    proof (cases "rx' = rx")
      case True
      with w Some have "receives R V b u rx" by (simp add: wired_def)
      then have "u = t" by (rule receives_unique [OF inv _ rx])
      with Some True br l(4,6) b' show ?thesis by simp
    next
      case False
      with Some have "stream_of R c t = Some rx \<Longrightarrow> u \<noteq> t" by auto
      with l(3,9) [OF False [symmetric]] br b'(1) show ?thesis by simp
    qed
  qed
qed

section \<open>A stretch of a run\<close>

text \<open>
  The states reached from a state \<open>s\<close>, each step from a state and with an action that satisfy \<open>ok\<close>.
\<close>

inductive sys_path ::
  "('m, 'w, 'v, 's, 'h) runtime \<Rightarrow> 'a externals \<Rightarrow>
   (('m, 'w, 'v, 's, 'h) sys \<Rightarrow> 'a action \<Rightarrow> bool) \<Rightarrow> ('m, 'w, 'v, 's, 'h) sys \<Rightarrow> 'a action list \<Rightarrow>
   ('m, 'w, 'v, 's, 'h) sys \<Rightarrow> bool" for R E ok s where
  path_here: "sys_path R E ok s [] s"
| path_step: "sys_path R E ok s acts s' \<Longrightarrow> ok s' a \<Longrightarrow> sys_step R E s' a s'' \<Longrightarrow>
     sys_path R E ok s (acts @ [a]) s''"

lemma sys_path_inv:
  assumes "runtime_laws R V" and "sys_inv R V s" and "sys_path R E ok s acts s'"
  shows "sys_inv R V s'"
  using assms(3) by induction (use assms(2) sys_step_inv [OF assms(1)] in auto)

text \<open>
  Connection \<open>i\<close> listens to topic \<open>t\<close> on the receiver \<open>rx\<close>, which has room for one more message.
\<close>

definition keeps ::
  "('m, 'w, 'v, 's, 'h) runtime \<Rightarrow> ('w, 'v, 'h) views \<Rightarrow> nat \<Rightarrow> rstring \<Rightarrow> 'h \<Rightarrow>
   ('m, 'w, 'v, 's, 'h) sys \<Rightarrow> 'a action \<Rightarrow> bool" where
  "keeps R V i t rx s a \<longleftrightarrow>
     (case sys_conns s i of None \<Rightarrow> False | Some c \<Rightarrow> stream_of R c t = Some rx) \<and>
     length (msg_pending V (sys_bus s) rx) < CHANNEL_BUFFER_SIZE"

lemma keepsD:
  assumes "keeps R V i t rx s a"
  obtains c where "sys_conns s i = Some c" "stream_of R c t = Some rx"
    "length (msg_pending V (sys_bus s) rx) < CHANNEL_BUFFER_SIZE"
  using assms by (auto simp: keeps_def split: option.splits)

lemma step_exact:
  assumes laws: "runtime_laws R V" and inv: "sys_inv R V s" and k: "keeps R V i t rx s a"
    and step: "sys_step R E s a s'"
  shows "forwarded i t [a] @ msg_pending V (sys_bus s') rx =
      msg_pending V (sys_bus s) rx @ published E t [a] \<and>
    (msg_lagging V (sys_bus s') rx \<longrightarrow> msg_lagging V (sys_bus s) rx)"
proof -
  obtain c where c: "sys_conns s i = Some c" "stream_of R c t = Some rx"
      "length (msg_pending V (sys_bus s) rx) < CHANNEL_BUFFER_SIZE"
    using keepsD [OF k] by metis
  have rx: "receives R V (sys_bus s) t rx" using sys_invD(2) [OF inv c(1)] c(2) by (simp add: wired_def)
  from step show ?thesis
  proof cases
    case (accept j d b)
    then show ?thesis using accept_effect(6) [OF laws sys_invD(1) [OF inv] accept(4)] by simp
  next
    case (iterate j d br go_on out d' b)
    have own: "stream_of R d t = Some rx \<longleftrightarrow> j = i"
    proof (cases "j = i")
      case False
      from sys_invD(4) [OF inv c(1) iterate(3) _ c(2)] False show ?thesis by auto
    qed (use iterate(3) c in simp)
    from iteration_exact [OF laws sys_invD(1) [OF inv] sys_invD(2) [OF inv iterate(3)] iterate(4) rx c(3)]
    show ?thesis by (simp add: iterate(1,2) own split: if_splits)
  qed
qed

lemma path_exact:
  assumes laws: "runtime_laws R V" and inv: "sys_inv R V s"
    and path: "sys_path R E (keeps R V i t rx) s acts s'"
  shows "forwarded i t acts @ msg_pending V (sys_bus s') rx =
      msg_pending V (sys_bus s) rx @ published E t acts \<and>
    (msg_lagging V (sys_bus s') rx \<longrightarrow> msg_lagging V (sys_bus s) rx)"
  using path
proof induction
  case (path_step acts s' a s'')
  note st = step_exact [OF laws sys_path_inv [OF laws inv path_step.hyps(1)] path_step.hyps(2,3)]
  have "forwarded i t (acts @ [a]) @ msg_pending V (sys_bus s'') rx =
      forwarded i t acts @ msg_pending V (sys_bus s') rx @ published E t [a]"
    by (simp add: forwarded_append st del: forwarded.simps published.simps)
  also have "\<dots> = msg_pending V (sys_bus s) rx @ published E t (acts @ [a])"
    using path_step.IH by (simp add: published_append del: published.simps flip: append_assoc)
  finally show ?case using st path_step.IH by blast
qed simp

section \<open>Polling\<close>

text \<open>How often connection \<open>i\<close> polls its stream of topic \<open>t\<close>.\<close>

fun polls :: "nat \<Rightarrow> rstring \<Rightarrow> 'a action list \<Rightarrow> nat" where
  "polls i t [] = 0"
| "polls i t (Iterate j (On_stream u ok) out # acts) =
     (if j = i \<and> u = t then 1 else 0) + polls i t acts"
| "polls i t (a # acts) = polls i t acts"

lemma polls_append: "polls i t (xs @ ys) = polls i t xs + polls i t ys"
  by (induction i t xs rule: polls.induct) auto

text \<open>A poll of a stream that keeps up forwards a message, unless the stream is empty.\<close>

lemma poll_forwards:
  assumes laws: "runtime_laws R V" and k: "keeps R V i t rx s a" and step: "sys_step R E s a s'"
    and ne: "msg_pending V (sys_bus s) rx \<noteq> []" and calm: "\<not> msg_lagging V (sys_bus s) rx"
  shows "polls i t [a] \<le> length (forwarded i t [a])"
proof (cases "\<exists>ok out. a = Iterate i (On_stream t ok) out")
  case False
  then have "polls i t [a] = 0" by (cases "(i, t, [a])" rule: polls.cases) auto
  then show ?thesis by simp
next
  case True
  then obtain ok out where a: "a = Iterate i (On_stream t ok) out" by blast
  obtain c where c: "sys_conns s i = Some c" "stream_of R c t = Some rx"
    using keepsD [OF k] by metis
  obtain r ws where poll: "bc_recv (rt_messages R) rx (message_channels (sys_bus s)) = (r, ws)"
    by fastforce
  note l = recvD [OF runtime_lawsD(3) [OF laws] poll]
  obtain m where r: "r = Received m" using l(5,7) ne calm by (cases r) auto
  from step a c(1) obtain go_on out' c' b' where
    run: "run_iteration R E (On_stream t ok) (c, sys_bus s) = (go_on, out', (c', b'))"
    and out: "out = out' @ run_end go_on"
    by (auto elim!: iterate_elim simp del: run_iteration.simps)
  have "sent out = [m]"
    using run c(2) poll r by (auto simp: out stream_of_def forward_message_to_client_def)
  then show ?thesis by (simp add: a)
qed

lemma path_polls:
  assumes laws: "runtime_laws R V" and inv: "sys_inv R V s"
    and calm: "\<not> msg_lagging V (sys_bus s) rx" and path: "sys_path R E (keeps R V i t rx) s acts s'"
  shows "prefix (msg_pending V (sys_bus s) rx) (forwarded i t acts) \<or>
    polls i t acts \<le> length (forwarded i t acts)"
  using path
proof induction
  case (path_step acts s' a s'')
  note exact = path_exact [OF laws inv path_step.hyps(1)]
  show ?case
  proof (cases "prefix (msg_pending V (sys_bus s) rx) (forwarded i t acts)")
    case True
    then show ?thesis by (simp add: forwarded_append)
  next
    case False
    then have "msg_pending V (sys_bus s') rx \<noteq> []" using exact by (auto simp: prefix_def)
    from poll_forwards [OF laws path_step.hyps(2,3) this] exact calm path_step.IH False
    show ?thesis by (simp add: forwarded_append polls_append)
  qed
qed simp

lemma polled_prefix:
  assumes laws: "runtime_laws R V" and inv: "sys_inv R V s" and calm: "\<not> msg_lagging V (sys_bus s) rx"
    and path: "sys_path R E (keeps R V i t rx) s acts s'"
    and polled: "length (msg_pending V (sys_bus s) rx) \<le> polls i t acts"
  shows "prefix (msg_pending V (sys_bus s) rx) (forwarded i t acts)"
  using path_polls [OF laws inv calm path]
proof
  assume "polls i t acts \<le> length (forwarded i t acts)"
  with polled have "length (msg_pending V (sys_bus s) rx) \<le> length (forwarded i t acts)" by simp
  moreover have "prefix (forwarded i t acts) (msg_pending V (sys_bus s) rx @ published E t acts)"
    using path_exact [OF laws inv path] by (metis prefixI)
  ultimately show ?thesis by (metis prefixI prefix_length_prefix)
qed

text \<open>What a handler forwards is among its outputs.\<close>

fun outputs :: "nat \<Rightarrow> 'a action list \<Rightarrow> conn_output list" where
  "outputs i [] = []"
| "outputs i (Accept j out # acts) = (if j = i then out else []) @ outputs i acts"
| "outputs i (Iterate j br out # acts) = (if j = i then out else []) @ outputs i acts"

lemma outputs_append: "outputs i (xs @ ys) = outputs i xs @ outputs i ys"
  by (induction xs rule: outputs.induct) simp_all

lemma forwarded_in_outputs: "set (forwarded i t acts) \<subseteq> set (sent (outputs i acts))"
proof (induction acts rule: forwarded.induct)
  case (3 i t j br out acts)
  have "set (forward_of t br out) \<subseteq> set (sent out)" by (cases br) auto
  with 3 show ?case by (auto simp: sent_append)
qed (auto simp: sent_append)

section \<open>Topic events\<close>

text \<open>A poll of the topic events takes the oldest, unless there is none or a loss is reported.\<close>

lemma event_poll:
  assumes laws: "runtime_laws R V"
    and run: "run_iteration R E On_topic_event (c, b) = (go_on, out, (c', b'))"
    and calm: "\<not> lagging (ev_view V) (event_channels b) (topic_events c)"
  shows "go_on \<and> ev_pending V b' (topic_events c') = tl (ev_pending V b (topic_events c)) \<and>
    \<not> lagging (ev_view V) (event_channels b') (topic_events c') \<and>
    subscriptions c' = subscriptions c \<and> bus_abs R b' = bus_abs R b"
proof -
  obtain r v where poll: "bc_recv (rt_events R) (topic_events c) (event_channels b) = (r, v)"
    by fastforce
  note l = recvD [OF runtime_lawsD(4) [OF laws] poll]
  let ?b = "b\<lparr>event_channels := v\<rparr>"
  have eq: "go_on \<and> (if \<exists>e. r = Received e then handle_topic_event R (case r of Received e \<Rightarrow> e) (c, ?b) = (out, (c', b'))
      else c' = c \<and> b' = ?b)"
    using run poll by (cases r) auto
  have j: "joins R V (c, ?b) (c', b')"
  proof (cases r)
    case (Received e)
    obtain name where e: "e = Created name" by (cases e)
    show ?thesis
      using eq Received e conn_subscribe_effect(1) [OF laws]
      by (auto simp: handle_new_topic_def simp del: conn_subscribe_to_topic.simps split: if_splits)
  qed (use eq in auto)
  then have same: "topic_events c' = topic_events c" "subscriptions c' = subscriptions c"
      "event_channels b' = v" "bus_abs R b' = bus_abs R ?b"
    using bus_quietD(2,4) [of R V ?b b'] by (auto simp: joins_def)
  have "ev_pending V b (topic_events c) = [] \<or> (\<exists>e. r = Received e)"
    using l(5,7) calm by (cases r) auto
  then have "ev_pending V b' (topic_events c') = tl (ev_pending V b (topic_events c))"
    using l(4) by (auto simp: same)
  moreover have "bus_abs R ?b = bus_abs R b" by (simp add: bus_abs_def topic_def fun_eq_iff)
  ultimately show ?thesis using eq same l(6) calm by auto
qed

text \<open>Within the bounds no handler is ever to be told that it lost an event.\<close>

lemma publish_events_calm:
  assumes "runtime_laws R V" and "bus_inv R V b"
    and "listens (ev_view V) (event_channels b) rx = Some (topic_events_tx b)"
    and "length (ev_pending V b rx) < CHANNEL_BUFFER_SIZE"
  shows "ev_lagging V (handle_publish R E m b) rx = ev_lagging V b rx"
  using bus_send_ev_lagging [OF assms] by (cases "message_bytes E m") (simp_all add: handle_publish_def)

lemma iteration_events_calm:
  assumes laws: "runtime_laws R V" and inv: "bus_inv R V b"
    and run: "run_iteration R E br (c, b) = (go_on, out, (c', b'))"
    and rx: "listens (ev_view V) (event_channels b) rx = Some (topic_events_tx b)"
      "length (ev_pending V b rx) < CHANNEL_BUFFER_SIZE"
    and lag: "ev_lagging V b' rx"
  shows "ev_lagging V b rx"
proof (cases br)
  case (On_command cmd)
  show ?thesis
  proof (cases cmd)
    case None
    with run On_command lag show ?thesis by simp
  next
    case (Some cmd')
    show ?thesis
    proof (cases cmd')
      case (Publish m)
      with run On_command Some have "b' = handle_publish R E m b" by simp
      with publish_events_calm [OF laws inv rx, of E m] lag show ?thesis by simp
    next
      case (Subscribe p)
      obtain o' where "handle_subscribe R p (c, b) = (o', (c', b'))"
        using run On_command Some Subscribe
        by (auto simp: Let_def simp del: handle_subscribe.simps split: prod.splits)
      from handle_subscribe_effect(1) [OF laws this] have "bus_quiet R V b b'" by (simp add: joins_def)
      with lag show ?thesis by (simp add: bus_quietD(2))
    next
      case (Unsubscribe p)
      with run On_command Some lag show ?thesis by simp
    qed
  qed
next
  case On_topic_event
  obtain b1 where b1: "joins R V (c, b1) (c', b')" "\<And>rx. ev_lagging V b1 rx \<Longrightarrow> ev_lagging V b rx"
    using event_step [OF laws run [unfolded On_topic_event]] by metis
  have "bus_quiet R V b1 b'" using b1(1) by (simp add: joins_def)
  with lag b1(2) show ?thesis by (simp add: bus_quietD(2))
next
  case (On_stream u ok)
  with run have "event_channels b' = event_channels b"
    by (auto simp: forward_message_to_client_def split: option.splits prod.splits recv_result.splits)
  with lag show ?thesis by simp
qed

lemma accept_events_calm:
  assumes laws: "runtime_laws R V" and new: "conn_new R b = (c, b')"
  shows "ev_lagging V b' rx \<longleftrightarrow> rx \<noteq> topic_events c \<and> ev_lagging V b rx"
proof -
  obtain r v where s: "bc_subscribe (rt_events R) (topic_events_tx b) (event_channels b) = (r, v)"
    by fastforce
  from subscribeD(5) [OF runtime_lawsD(4) [OF laws] s] new show ?thesis
    by (auto simp: conn_new_def subscribe_to_topic_events_def s split: if_splits)
qed

lemma reachable_events_calm:
  assumes laws: "runtime_laws R V" and run: "reachable R E (within R V) w v acts s"
  shows "\<forall>i c. sys_conns s i = Some c \<longrightarrow> \<not> ev_lagging V (sys_bus s) (topic_events c)"
  using run
proof induction
  case start
  then show ?case by (simp add: server_new_def)
next
  case (next_step acts s a s')
  note inv = reachable_inv [OF laws next_step.hyps(1)]
  from next_step.hyps(3) show ?case
  proof cases
    case (accept i c b)
    then show ?thesis using next_step.IH by (auto simp: accept_events_calm [OF laws accept(4)])
  next
    case (iterate i c br go_on out c' b)
    have old: "\<not> ev_lagging V b (topic_events d)" if d: "sys_conns s j = Some d" for j d
    proof
      assume "ev_lagging V b (topic_events d)"
      moreover have "listens (ev_view V) (event_channels (sys_bus s)) (topic_events d) =
          Some (topic_events_tx (sys_bus s))"
        using sys_invD(2) [OF inv d] by (simp add: wired_def)
      moreover have "length (ev_pending V (sys_bus s) (topic_events d)) < CHANNEL_BUFFER_SIZE"
        using next_step.hyps(2) d by (simp add: within_def)
      ultimately have "ev_lagging V (sys_bus s) (topic_events d)"
        using iteration_events_calm [OF laws sys_invD(1) [OF inv] iterate(4)] by blast
      with next_step.IH d show False by blast
    qed
    have "topic_events c' = topic_events c"
      using run_iteration_effect [OF laws sys_invD(1,2) [OF inv] iterate(4)] iterate(3)
      by (simp add: iteration_effect_def)
    with old iterate(3) show ?thesis unfolding iterate(2) by (auto split: if_splits)
  qed
qed

lemma tl_pow: "length xs \<le> n \<Longrightarrow> (tl ^^ n) xs = []"
  by (induction n arbitrary: xs) (auto simp: funpow_Suc_right simp del: funpow.simps(2))

lemma events_polled:
  assumes laws: "runtime_laws R V"
  shows "bus_inv R V b \<Longrightarrow> wired R V c b \<Longrightarrow> covered R V c b \<Longrightarrow> filter_ok c \<Longrightarrow>
    length (ev_pending V b (topic_events c)) < CHANNEL_BUFFER_SIZE \<Longrightarrow>
    \<not> lagging (ev_view V) (event_channels b) (topic_events c) \<Longrightarrow>
    run_loop R E (replicate n On_topic_event) (c, b) = (go_on, out, (c', b')) \<Longrightarrow>
    go_on \<and> ev_pending V b' (topic_events c') = (tl ^^ n) (ev_pending V b (topic_events c)) \<and>
    wired R V c' b' \<and> covered R V c' b' \<and> subscriptions c' = subscriptions c \<and>
    bus_abs R b' = bus_abs R b"
proof (induction n arbitrary: c b out)
  case (Suc n)
  obtain g1 o1 c1 b1 where i: "run_iteration R E On_topic_event (c, b) = (g1, o1, (c1, b1))"
    by (metis prod.exhaust)
  note p = event_poll [OF laws i Suc.prems(6)]
  have "\<exists>o2. run_loop R E (replicate n On_topic_event) (c1, b1) = (go_on, o2, (c', b'))"
    using Suc.prems(7) i p by (auto simp: Let_def simp del: run_iteration.simps split: prod.splits)
  then obtain o2 where l: "run_loop R E (replicate n On_topic_event) (c1, b1) = (go_on, o2, (c', b'))"
    by blast
  note e = run_iteration_effect [OF laws Suc.prems(1,2) i]
  have cov: "covered R V c1 b1 \<and> filter_ok c1"
    by (rule iteration_covered [OF laws Suc.prems(1,2) i Suc.prems(5) _ Suc.prems(3,4)]) simp
  have "bus_inv R V b1" using e by (simp add: iteration_effect_def)
  moreover have "length (ev_pending V b1 (topic_events c1)) < CHANNEL_BUFFER_SIZE"
    using p Suc.prems(5) by simp
  ultimately have "go_on \<and>
      ev_pending V b' (topic_events c') = (tl ^^ n) (ev_pending V b1 (topic_events c1)) \<and>
      wired R V c' b' \<and> covered R V c' b' \<and> subscriptions c' = subscriptions c1 \<and>
      bus_abs R b' = bus_abs R b1"
    using Suc.IH [OF _ iteration_wired [OF e Suc.prems(2)] _ _ _ _ l] cov p by blast
  with p show ?case by (simp add: funpow_Suc_right del: funpow.simps(2))
qed simp

section \<open>Properties\<close>

text \<open>
  C10: without lag, delivery is exact. On any stretch of a run of the server on which a connection
  keeps its stream of a topic and the stream does not fall behind, what the handler forwards from it,
  followed by what is still in it, is exactly what was in it followed by what all clients published
  on the topic: no message is lost, repeated or reordered.
\<close>
theorem delivery_exact_without_lag:
  assumes laws: "runtime_laws R V" and run: "reachable R E ok w v acts s"
    and path: "sys_path R E (keeps R V i t rx) s acts' s'"
  shows "forwarded i t acts' @ msg_pending V (sys_bus s') rx =
    msg_pending V (sys_bus s) rx @ published E t acts'"
  using path_exact [OF laws reachable_inv [OF laws run] path] by blast

lemma keeps_run: "keeps rt0 views0 0 (str ''a'') 2 sys_6 act_7"
  by (simp add: keeps_def sys_defs stream_of_def rt0_def list_streammap_def views0_def list_view_def
      CHANNEL_BUFFER_SIZE_def)

lemma run_6: "reach0 [act_1, act_2, act_3, act_4, act_5, act_4] sys_6"
  using reach0_snoc [OF reach0_snoc [OF run_4 within_run(5) step_5] within_run(6) step_6] by simp

lemma path_7: "sys_path rt0 ext0 (keeps rt0 views0 0 (str ''a'') 2) sys_6 [act_7] sys_7"
  using path_step [of rt0 ext0 "keeps rt0 views0 0 (str ''a'') 2", OF path_here keeps_run step_7]
  by simp

theorem delivery_exact_without_lag_witness:
  "forwarded 0 (str ''a'') [act_7] @ msg_pending views0 (sys_bus sys_7) 2 =
     msg_pending views0 (sys_bus sys_6) 2 @ published ext0 (str ''a'') [act_7]"
  by (rule delivery_exact_without_lag [OF runtime_laws0 run_6 path_7])

text \<open>
  C15: a stream that is polled delivers, while it keeps up. Take a stretch of a run at whose start the stream
  has no loss to report, and before each step of which the connection still has the stream and the stream
  has room for one more message (\<open>keeps\<close>); what the other connections do on it is arbitrary. Once the
  handler has polled the stream on it at least as often as there were messages in the stream at the start,
  it has forwarded all of these to the client, in order and before anything published later. (A stream that
  overflows loses its oldest messages.)
\<close>
theorem polled_stream_delivers:
  assumes laws: "runtime_laws R V" and run: "reachable R E ok w v acts s"
    and calm: "\<not> msg_lagging V (sys_bus s) rx"
    and path: "sys_path R E (keeps R V i t rx) s acts' s'"
    and polled: "length (msg_pending V (sys_bus s) rx) \<le> polls i t acts'"
  shows "prefix (msg_pending V (sys_bus s) rx) (forwarded i t acts')"
  by (rule polled_prefix [OF laws reachable_inv [OF laws run] calm path polled])

theorem polled_stream_delivers_witness:
  "prefix (msg_pending views0 (sys_bus sys_6) 2) (forwarded 0 (str ''a'') [act_7]) \<and>
   msg_pending views0 (sys_bus sys_6) 2 = [[1]]"
proof
  show pend: "msg_pending views0 (sys_bus sys_6) 2 = [[1]]"
    by (simp add: sys_defs views0_def list_view_def)
  show "prefix (msg_pending views0 (sys_bus sys_6) 2) (forwarded 0 (str ''a'') [act_7])"
    by (rule polled_stream_delivers [OF runtime_laws0 run_6 _ path_7])
      (simp_all only: pend, simp_all add: act_7_def views0_def list_view_def)
qed

text \<open>
  C16: a handler that polls its topic events catches up, if it lost none. In a state reached within the
  bounds (\<open>within\<close>: before each step so far no connection's channel of topic events was full, and patterns
  stayed in the range of the counts), with room in the handler's own channel of events: if the handler polls
  them as often as there are some, it goes on, has none left, and has a stream of every existing topic with
  a name that its subscriptions match, wired to its topic. (Of a handler that lost an event \<open>Event_Lag\<close>
  shows the opposite.)
\<close>
theorem handler_catches_up:
  assumes laws: "runtime_laws R V" and run: "reachable R E (within R V) w v acts s"
    and c: "sys_conns s i = Some c"
    and room: "length (ev_pending V (sys_bus s) (topic_events c)) < CHANNEL_BUFFER_SIZE"
    and n: "length (ev_pending V (sys_bus s) (topic_events c)) \<le> n"
    and loop: "run_loop R E (replicate n On_topic_event) (c, sys_bus s) = (go_on, out, (c', b'))"
    and t: "t \<noteq> []" "bus_abs R (sys_bus s) t \<noteq> None" "tree_check (subscriptions c) t"
  shows "go_on \<and> ev_pending V b' (topic_events c') = [] \<and>
    (\<exists>rx. stream_of R c' t = Some rx \<and> receives R V b' t rx)"
proof -
  note inv = reachable_inv [OF laws run]
  have cov: "covered R V c (sys_bus s)" "filter_ok c" using reachable_covered [OF laws run] c by blast+
  have calm: "\<not> ev_lagging V (sys_bus s) (topic_events c)"
    using reachable_events_calm [OF laws run] c by blast
  note p = events_polled [OF laws sys_invD(1) [OF inv] sys_invD(2) [OF inv c] cov room calm loop]
  have none: "ev_pending V b' (topic_events c') = []" using p tl_pow [OF n] by simp
  have "bus_abs R b' t \<noteq> None" using p t(2) by simp
  then have "topic R b' t \<noteq> None" by (simp add: bus_abs_def)
  then obtain rx where rx: "stream_of R c' t = Some rx" using p none t by (auto simp: covered_def)
  with p have "receives R V b' t rx" by (simp add: wired_def)
  with rx none p show ?thesis by blast
qed

theorem handler_catches_up_witness:
  "True \<and> ev_pending views0 (sys_bus sys_5) (topic_events (conn_a tree_a [(str ''a'', 2)])) = [] \<and>
   (\<exists>rx. stream_of rt0 (conn_a tree_a [(str ''a'', 2)]) (str ''a'') = Some rx \<and>
      receives rt0 views0 (sys_bus sys_5) (str ''a'') rx)"
proof (rule handler_catches_up [OF runtime_laws0 run_4, where i = 0 and n = 1 and out = "[Try_send [1]]"])
  show "run_loop rt0 ext0 (replicate 1 On_topic_event) (conn_a tree_a [], sys_bus sys_4) =
      (True, [Try_send [1]], (conn_a tree_a [(str ''a'', 2)], sys_bus sys_5))"
    by (simp add: sys_defs rt0_simps handle_new_topic_def check_a Let_def)
  show "tree_check (subscriptions (conn_a tree_a [])) (str ''a'')" by (simp add: conn_a_def check_a)
qed (simp_all add: sys_defs views0_def list_view_def str_def bus_abs_def topic_def rt0_def list_dashmap_def
    CHANNEL_BUFFER_SIZE_def)

end
