(* ===== verification/Provenance.thy ===== *)
theory Provenance
  imports Delivery Outbox
begin

text \<open>
  Where what a handler sends comes from: every message that it hands to its write task, retained or
  from a stream, is the encoding of a message that a client published before.
\<close>

section \<open>One iteration\<close>

lemma carried_concat: "carried (concat xss) = concat (List.map carried xss)"
  by (induction xss) (simp_all add: carried_append)

lemma retained_from_bus:
  "x \<in> set (carried (retained R c b t)) \<Longrightarrow> bus_abs R b t = Some (Some x)"
  by (auto simp: retained_def split: if_splits option.splits)

text \<open>The last message of a topic after an iteration: what the iteration published on it, if anything.\<close>

definition retains :: "bytes option option \<Rightarrow> bytes list \<Rightarrow> bytes option option" where
  "retains old xs = (if xs = [] then old else Some (Some (last xs)))"

lemma retains_Nil [simp]: "retains old [] = old"
  by (simp add: retains_def)

lemma retains_append: "retains old (xs @ ys) = retains (retains old xs) ys"
  by (simp add: retains_def)

lemma iteration_last:
  assumes laws: "runtime_laws R V" and inv: "bus_inv R V b"
    and run: "run_iteration R E br (c, b) = (go_on, out, (c', b'))"
  shows "bus_abs R b' t = retains (bus_abs R b t) (publish_of E t br)"
proof (cases br)
  case (On_command cmd)
  show ?thesis
  proof (cases cmd)
    case None
    with run On_command show ?thesis by simp
  next
    case (Some cmd')
    show ?thesis
    proof (cases cmd')
      case (Publish m)
      with run On_command Some have b': "b' = handle_publish R E m b" by simp
      show ?thesis
      proof (cases "message_bytes E m")
        case (Inl e)
        with b' On_command Some Publish show ?thesis by (simp add: handle_publish_def)
      next
        case (Inr bs)
        then have "b' = snd (bus_send R (msg_topic m) bs b)" by (simp add: b' handle_publish_def)
        then have eq: "bus_abs R b' = (bus_abs R b)(msg_topic m \<mapsto> Some bs)"
          by (simp only: bus_send_effect(4) [OF laws inv surjective_pairing])
        have pub: "publish_of E t br = (if msg_topic m = t then [bs] else [])"
          by (simp add: On_command Some Publish Inr)
        show ?thesis unfolding eq pub by (simp add: retains_def)
      qed
    next
      case (Subscribe p)
      obtain o' where "handle_subscribe R p (c, b) = (o', (c', b'))"
        using run On_command Some Subscribe
        by (auto simp: Let_def simp del: handle_subscribe.simps split: prod.splits)
      from handle_subscribe_effect(1) [OF laws this] have "bus_quiet R V b b'" by (simp add: joins_def)
      with On_command Some Subscribe show ?thesis by (simp add: bus_quietD(4))
    next
      case (Unsubscribe p)
      with run On_command Some show ?thesis by simp
    qed
  qed
next
  case On_topic_event
  obtain b1 where b1: "topic R b1 = topic R b" "joins R V (c, b1) (c', b')"
    using event_step [OF laws run [unfolded On_topic_event]] by metis
  have "bus_quiet R V b1 b'" using b1(2) by (simp add: joins_def)
  with On_topic_event b1(1) show ?thesis by (simp add: bus_quietD(4)) (simp add: bus_abs_def)
next
  case (On_stream u ok)
  with run have "topics b' = topics b"
    by (auto simp: forward_message_to_client_def split: option.splits prod.splits recv_result.splits)
  with On_stream show ?thesis by (simp add: bus_abs_def topic_def)
qed

text \<open>What an iteration sends was the last message of a topic, or in a stream.\<close>

lemma iteration_carried:
  assumes laws: "runtime_laws R V" and run: "run_iteration R E br (c, b) = (go_on, out, (c', b'))"
    and x: "x \<in> set (carried out)"
  shows "(\<exists>t. bus_abs R b t = Some (Some x)) \<or>
    (\<exists>t rx. stream_of R c t = Some rx \<and> x \<in> set (msg_pending V b rx))"
proof (cases br)
  case (On_command cmd)
  show ?thesis
  proof (cases cmd)
    case None
    with run On_command x show ?thesis by simp
  next
    case (Some cmd')
    show ?thesis
    proof (cases cmd')
      case (Publish m)
      with run On_command Some x show ?thesis by auto
    next
      case (Subscribe p)
      obtain o' where o': "handle_subscribe R p (c, b) = (o', (c', b'))" "carried out = carried o'"
        using run On_command Some Subscribe
        by (auto simp: Let_def simp del: handle_subscribe.simps split: prod.splits)
      with x obtain t where "x \<in> set (carried (retained R c b t))"
        unfolding handle_subscribe_effect(4) [OF laws o'(1)] carried_concat by auto
      then show ?thesis using retained_from_bus by blast
    next
      case (Unsubscribe p)
      with run On_command Some x show ?thesis by auto
    qed
  qed
next
  case On_topic_event
  obtain r v where poll: "bc_recv (rt_events R) (topic_events c) (event_channels b) = (r, v)"
    by fastforce
  let ?b = "b\<lparr>event_channels := v\<rparr>"
  have abs: "bus_abs R ?b = bus_abs R b" by (simp add: bus_abs_def topic_def fun_eq_iff)
  show ?thesis
  proof (cases r)
    case (Received e)
    obtain name where e: "e = Created name" by (cases e)
    show ?thesis
    proof (cases "tree_check (subscriptions c) name")
      case True
      then have "conn_subscribe_to_topic R name (c, ?b) = (out, (c', b'))"
        using run On_topic_event poll Received e
        by (simp add: handle_new_topic_def del: conn_subscribe_to_topic.simps)
      from conn_subscribe_effect(2) [OF laws this] x
      have "bus_abs R ?b name = Some (Some x)" using retained_from_bus by metis
      then show ?thesis unfolding abs by blast
    next
      case False
      with run On_topic_event poll Received e x show ?thesis by (simp add: handle_new_topic_def)
    qed
  qed (use run On_topic_event poll x in auto)
next
  case (On_stream u ok)
  show ?thesis
  proof (cases "stream_of R c u")
    case None
    with run On_stream x show ?thesis by (auto simp: stream_of_def)
  next
    case (Some rx)
    obtain r w where poll: "bc_recv (rt_messages R) rx (message_channels b) = (r, w)" by fastforce
    then obtain m where "r = Received m" "carried out = [m]"
      using run On_stream Some x
      by (cases r) (auto simp: stream_of_def forward_message_to_client_def)
    with recvD(4) [OF runtime_lawsD(3) [OF laws] poll] x have "x \<in> set (msg_pending V b rx)" by simp
    with Some show ?thesis by blast
  qed
qed

section \<open>Runs\<close>

text \<open>The outputs of the connection \<open>i\<close> that was accepted last.\<close>

fun add_output :: "nat \<Rightarrow> 'a action \<Rightarrow> conn_output list \<Rightarrow> conn_output list" where
  "add_output i (Accept j out') out = (if j = i then out' else out)"
| "add_output i (Iterate j br out') out = (if j = i then out @ out' else out)"

definition conn_outputs :: "nat \<Rightarrow> 'a action list \<Rightarrow> conn_output list" where
  "conn_outputs i acts = fold (add_output i) acts []"

lemma conn_outputs_Nil [simp]: "conn_outputs i [] = []"
  by (simp add: conn_outputs_def)

lemma conn_outputs_snoc: "conn_outputs i (acts @ [a]) = add_output i a (conn_outputs i acts)"
  by (simp add: conn_outputs_def)

definition provenance ::
  "('m, 'w, 'v, 's, 'h) runtime \<Rightarrow> 'a externals \<Rightarrow> 'a action list \<Rightarrow> ('m, 'w, 'v, 's, 'h) sys \<Rightarrow> bool" where
  "provenance R E acts s \<longleftrightarrow>
     (\<forall>t. bus_abs R (sys_bus s) t = retains None (published E t acts)) \<and>
     (\<forall>i x. x \<in> set (carried (conn_outputs i acts)) \<longrightarrow> (\<exists>t. x \<in> set (published E t acts)))"

lemma provenance_step:
  assumes laws: "runtime_laws R V" and inv: "sys_inv R V s" and ord: "ordered R V E acts s"
    and prov: "provenance R E acts s" and step: "sys_step R E s a s'"
  shows "provenance R E (acts @ [a]) s'"
  using step
proof cases
  case (accept i c b)
  have "bus_abs R b = bus_abs R (sys_bus s)"
    using accept_effect(7) [OF laws sys_invD(1) [OF inv] accept(4)] by (simp add: bus_abs_def fun_eq_iff)
  with prov show ?thesis
    by (simp add: accept(1,2) provenance_def published_append conn_outputs_snoc)
next
  case (iterate i c br go_on out c' b)
  note last = iteration_last [OF laws sys_invD(1) [OF inv] iterate(4)]
  have sent: "\<exists>t. x \<in> set (published E t acts)" if x: "x \<in> set (carried out)" for x
    using iteration_carried [OF laws iterate(4) x]
  proof
    assume "\<exists>t. bus_abs R (sys_bus s) t = Some (Some x)"
    then obtain t where "retains None (published E t acts) = Some (Some x)"
      using prov by (auto simp: provenance_def)
    then have "x \<in> set (published E t acts)" by (auto simp: retains_def split: if_splits)
    then show ?thesis ..
  next
    assume "\<exists>t rx. stream_of R c t = Some rx \<and> x \<in> set (msg_pending V (sys_bus s) rx)"
    then obtain t rx where "stream_of R c t = Some rx" "x \<in> set (msg_pending V (sys_bus s) rx)" by blast
    moreover from this(1) iterate(3) ord
    have "subseq (forwarded i t acts @ msg_pending V (sys_bus s) rx) (published E t acts)"
      by (auto simp: ordered_def)
    ultimately show ?thesis using subseq_set [of _ "published E t acts" x] by fastforce
  qed
  have "bus_abs R b t = retains None (published E t (acts @ [a]))" for t
    using last [of t] prov by (simp add: iterate(1) provenance_def published_append retains_append)
  moreover have "\<exists>t. x \<in> set (published E t (acts @ [a]))"
    if x: "x \<in> set (carried (conn_outputs j (acts @ [a])))" for j x
  proof -
    have "x \<in> set (carried (conn_outputs j acts)) \<or> x \<in> set (carried out)"
      using x by (auto simp: iterate(1) conn_outputs_snoc carried_append split: if_splits)
    moreover have "\<exists>t. x \<in> set (published E t acts)" if "x \<in> set (carried (conn_outputs j acts))"
      using prov that unfolding provenance_def by blast
    ultimately obtain t where "x \<in> set (published E t acts)" using sent by blast
    then have "x \<in> set (published E t (acts @ [a]))" by (simp add: published_append)
    then show ?thesis ..
  qed
  ultimately show ?thesis by (simp add: provenance_def iterate(2))
qed

lemma reachable_provenance:
  assumes laws: "runtime_laws R V" and run: "reachable R E ok w v acts s"
  shows "provenance R E acts s"
  using run
proof induction
  case start
  then show ?case by (simp add: provenance_def bus_abs_def server_new_inv(2) [OF laws])
next
  case (next_step acts s a s')
  show ?case
    by (rule provenance_step [OF laws reachable_inv [OF laws next_step.hyps(1)]
          reachable_ordered [OF laws next_step.hyps(1)] next_step.IH next_step.hyps(3)])
qed

text \<open>A run and a stretch that follows it are one run; the connection of a kept stream is not replaced.\<close>

lemma reachable_mono:
  assumes "reachable R E ok w v acts s" and "\<And>s a. ok s a \<Longrightarrow> ok' s a"
  shows "reachable R E ok' w v acts s"
  using assms(1) by induction (auto intro: reachable.intros assms(2))

lemma reachable_any: "reachable R E ok w v acts s \<Longrightarrow> reachable R E (\<lambda>_ _. True) w v acts s"
  by (erule reachable_mono) simp

lemma reachable_path:
  assumes "reachable R E ok w v acts s" and "sys_path R E ok' s acts' s'"
  shows "reachable R E (\<lambda>_ _. True) w v (acts @ acts') s'"
  using assms(2)
proof induction
  case path_here
  then show ?case using reachable_any [OF assms(1)] by simp
next
  case (path_step acts' s' a s'')
  from reachable.next_step [OF path_step.IH _ path_step.hyps(3)] show ?case by simp
qed

lemma path_outputs:
  assumes "sys_path R E (keeps R V i t rx) s acts s'"
  shows "conn_outputs i (pre @ acts) = conn_outputs i pre @ outputs i acts"
  using assms
proof induction
  case (path_step acts s' a s'')
  from path_step.hyps(3) have "add_output i a xs = xs @ outputs i [a]" for xs
  proof cases
    case (accept j c b)
    with path_step.hyps(2) have "j \<noteq> i" by (auto simp: keeps_def)
    with accept(1) show ?thesis by simp
  qed simp
  with path_step.IH conn_outputs_snoc [of i "pre @ acts" a] show ?case by (simp add: outputs_append)
qed simp

lemma publish_encoded:
  assumes "x \<in> set (publish_of E t br)"
  obtains m where "message_bytes E m = Inr x"
proof -
  obtain cmd where br: "br = On_command (Some cmd)"
    using assms by (cases br) (auto split: option.splits, metis option.exhaust publish_of.simps(4) empty_iff list.set(1))
  show ?thesis
  proof (cases cmd)
    case (Publish m)
    show ?thesis
    proof (cases "message_bytes E m")
      case (Inl e)
      then have False using assms by (cases "msg_topic m = t") (simp_all add: br Publish)
      then show ?thesis ..
    next
      case (Inr bs)
      then have "x = bs" using assms by (cases "msg_topic m = t") (simp_all add: br Publish)
      with Inr show ?thesis using that by simp
    qed
  qed (use assms br in simp_all)
qed

lemma published_encoded: "x \<in> set (published E t acts) \<Longrightarrow> \<exists>m. message_bytes E m = Inr x"
proof (induction acts)
  case (Cons a acts)
  show ?case
  proof (cases a)
    case (Accept i)
    with Cons show ?thesis by simp
  next
    case (Iterate i br out)
    with Cons.prems have "x \<in> set (publish_of E t br) \<or> x \<in> set (published E t acts)" by simp
    then show ?thesis using publish_encoded Cons.IH by metis
  qed
qed simp

section \<open>Properties\<close>

text \<open>
  C11: the server retains the last message and invents nothing. In every run, the bus holds for each
  topic exactly the message published last on it, and no topic on which nothing was published; and
  every message a connection's handler sends, retained or from a stream, was published by a client.
\<close>
theorem retained_is_last_published:
  assumes "runtime_laws R V" and "reachable R E ok w v acts s"
  shows "bus_abs R (sys_bus s) t =
      (if published E t acts = [] then None else Some (Some (last (published E t acts)))) \<and>
    set (carried (conn_outputs i acts)) \<subseteq> (\<Union>t. set (published E t acts))"
  using reachable_provenance [OF assms] unfolding provenance_def retains_def by blast

theorem retained_is_last_published_witness:
  "bus_abs rt0 (sys_bus sys_7) (str ''a'') =
      (if published ext0 (str ''a'') [act_1, act_2, act_3, act_4, act_5, act_4, act_7] = [] then None
       else Some (Some (last (published ext0 (str ''a'') [act_1, act_2, act_3, act_4, act_5, act_4, act_7])))) \<and>
   set (carried (conn_outputs 0 [act_1, act_2, act_3, act_4, act_5, act_4, act_7])) \<subseteq>
     (\<Union>t. set (published ext0 t [act_1, act_2, act_3, act_4, act_5, act_4, act_7]))"
  by (rule retained_is_last_published [OF runtime_laws0 run_7])

end
