(* ===== verification/Entitlement.thy ===== *)
theory Entitlement
  imports Provenance
begin

text \<open>
  A client gets only what it asked for: every message its handler sends was published on a topic
  that some pattern matches which the client subscribed to before, on the same connection. This holds
  without a condition on the streams; the patterns of a connection have to stay below the range of
  the tree's counts.
\<close>

section \<open>The iterations that change a connection\<close>

lemma iteration_cases:
  assumes laws: "runtime_laws R V" and run: "run_iteration R E br (c, b) = (go_on, out, (c', b'))"
  obtains
    (same) "c' = c" "\<And>p. br \<noteq> On_command (Some (Subscribe p))"
      "\<And>p. br \<noteq> On_command (Some (Unsubscribe p))" "(\<And>t ok. br \<noteq> On_stream t ok) \<Longrightarrow> carried out = []"
  | (subscribe) p o' where "br = On_command (Some (Subscribe p))"
      "handle_subscribe R p (c, b) = (o', (c', b'))" "carried out = carried o'" "go_on"
  | (unsubscribe) p where "br = On_command (Some (Unsubscribe p))" "c' = handle_unsubscribe R p c"
      "b' = b" "carried out = []" "go_on"
  | (join) name b1 where "br = On_topic_event" "topic R b1 = topic R b"
      "message_channels b1 = message_channels b" "tree_check (subscriptions c) name"
      "conn_subscribe_to_topic R name (c, b1) = (out, (c', b'))" "go_on"
proof (cases br)
  case (On_command cmd)
  show ?thesis
  proof (cases cmd)
    case None
    with On_command run show ?thesis by (intro same) auto
  next
    case (Some cmd')
    show ?thesis
    proof (cases cmd')
      case (Publish m)
      with On_command Some run show ?thesis by (intro same) auto
    next
      case (Subscribe p)
      obtain o' where "handle_subscribe R p (c, b) = (o', (c', b'))" "carried out = carried o'" "go_on"
        using run On_command Some Subscribe
        by (auto simp: Let_def simp del: handle_subscribe.simps split: prod.splits)
      with On_command Some Subscribe show ?thesis by (intro subscribe) simp_all
    next
      case (Unsubscribe p)
      with On_command Some run show ?thesis by (intro unsubscribe) auto
    qed
  qed
next
  case On_topic_event
  obtain r v where poll: "bc_recv (rt_events R) (topic_events c) (event_channels b) = (r, v)"
    by fastforce
  let ?b = "b\<lparr>event_channels := v\<rparr>"
  show ?thesis
  proof (cases r)
    case (Received e)
    obtain name where e: "e = Created name" by (cases e)
    show ?thesis
    proof (cases "tree_check (subscriptions c) name")
      case True
      have "conn_subscribe_to_topic R name (c, ?b) = (out, (c', b'))" "go_on"
        using run On_topic_event poll Received e True
        by (simp_all add: handle_new_topic_def del: conn_subscribe_to_topic.simps)
      with On_topic_event True show ?thesis
        by (intro join [of ?b]) (simp_all add: topic_def fun_eq_iff)
    next
      case False
      with run On_topic_event poll Received e show ?thesis
        by (intro same) (auto simp: handle_new_topic_def)
    qed
  qed (use run On_topic_event poll in \<open>auto intro: same\<close>)
next
  case (On_stream u ok)
  with run stream_poll_quiet(1) [of R E u ok] show ?thesis by (intro same) auto
qed

text \<open>What an iteration sends: last messages of topics with a stream afterwards, or what was in a stream.\<close>

lemma iteration_carried_topic:
  assumes laws: "runtime_laws R V" and run: "run_iteration R E br (c, b) = (go_on, out, (c', b'))"
    and x: "x \<in> set (carried out)"
  shows "(\<exists>t. bus_abs R b t = Some (Some x) \<and> stream_of R c' t \<noteq> None) \<or>
    (\<exists>t rx. stream_of R c t = Some rx \<and> x \<in> set (msg_pending V b rx))"
  using laws run
proof (cases rule: iteration_cases)
  case same
  then obtain u ok where br: "br = On_stream u ok" using x by (cases br) fastforce+
  show ?thesis
  proof (cases "stream_of R c u")
    case None
    with run br x show ?thesis by (auto simp: stream_of_def)
  next
    case (Some rx)
    obtain r w where poll: "bc_recv (rt_messages R) rx (message_channels b) = (r, w)" by fastforce
    then obtain m where "r = Received m" "carried out = [m]"
      using run br Some x
      by (cases r) (auto simp: stream_of_def forward_message_to_client_def)
    with recvD(4) [OF runtime_lawsD(3) [OF laws] poll] x have "x \<in> set (msg_pending V b rx)" by simp
    with Some show ?thesis by blast
  qed
next
  case (subscribe p o')
  note e = handle_subscribe_effect [OF laws subscribe(2)]
  have "x \<in> set (carried o')" using x subscribe(3) by simp
  then obtain t where t: "tree_check (tree_insert (subscriptions c) p) t" "t \<in> set (list_topics R b)"
      "x \<in> set (carried (retained R c b t))"
    unfolding e(4) carried_concat by auto
  have "stream_of R c' t \<noteq> None"
    using e(3) [of t] t(1,2) list_topics_mem [OF laws, of t b] by blast
  with retained_from_bus [OF t(3)] show ?thesis by blast
next
  case unsubscribe
  with x show ?thesis by simp
next
  case (join name b1)
  note e = conn_subscribe_effect [OF laws join(5)]
  have abs: "bus_abs R b1 = bus_abs R b" by (simp add: bus_abs_def join(2) fun_eq_iff)
  from x e(2) have "bus_abs R b name = Some (Some x)" using retained_from_bus abs by metis
  moreover from this have "topic R b1 name \<noteq> None" by (auto simp: bus_abs_def join(2))
  ultimately show ?thesis using e(3) [of name] by blast
qed

section \<open>Backed connections\<close>

text \<open>
  The patterns that the connection \<open>i\<close> accepted last subscribed to so far, and the topics they match;
  a pattern is compared with the bytes of the topic's name, as the tree does.
\<close>

fun add_pattern :: "nat \<Rightarrow> 'a action \<Rightarrow> rstring list \<Rightarrow> rstring list" where
  "add_pattern i (Accept j out) ps = (if j = i then [] else ps)"
| "add_pattern i (Iterate j (On_command (Some (Subscribe p))) out) ps = (if j = i then ps @ [p] else ps)"
| "add_pattern i a ps = ps"

definition patterns_of :: "nat \<Rightarrow> 'a action list \<Rightarrow> rstring list" where
  "patterns_of i acts = fold (add_pattern i) acts []"

definition asked :: "rstring list \<Rightarrow> rstring \<Rightarrow> bool" where
  "asked ps t \<longleftrightarrow> (\<exists>p\<in>set ps. byte_chars t \<in> glob_lang p)"

lemma patterns_of_Nil [simp]: "patterns_of i [] = []"
  by (simp add: patterns_of_def)

lemma patterns_of_snoc: "patterns_of i (acts @ [a]) = add_pattern i a (patterns_of i acts)"
  by (simp add: patterns_of_def)

lemma asked_snoc: "asked (ps @ [p]) t \<longleftrightarrow> asked ps t \<or> glob p (byte_chars t)"
  by (auto simp: asked_def glob_iff_lang)

text \<open>The empty topic is matched by the empty pattern only, which is the count of the root.\<close>

lemma check_empty_topic:
  assumes "glob_inv f" and "tree_check f []"
  shows "node_count (root f) \<noteq> 0"
proof
  assume "node_count (root f) = 0"
  then have "\<not> is_terminal (root f)" by (simp add: is_terminal_def)
  with assms show False
    by (auto simp: tree_check_contains tree_contains_def contains_at_iff byte_chars_def)
qed

definition backed :: "('m, 'w, 'v, 's, 'h) runtime \<Rightarrow> rstring list \<Rightarrow> ('s, 'h) conn \<Rightarrow> bool" where
  "backed R ps c \<longleftrightarrow>
     filter_ok c \<and> (node_count (root (subscriptions c)) = 0 \<or> [] \<in> set ps) \<and>
     (\<forall>t. tree_check (subscriptions c) t \<or> stream_of R c t \<noteq> None \<longrightarrow> asked ps t)"

lemma backedI:
  assumes "filter_ok c" and "node_count (root (subscriptions c)) = 0 \<or> [] \<in> set ps"
    and "\<And>t. t \<noteq> [] \<Longrightarrow> tree_check (subscriptions c) t \<Longrightarrow> asked ps t"
    and "\<And>t. stream_of R c t \<noteq> None \<Longrightarrow> \<not> tree_check (subscriptions c) t \<Longrightarrow> asked ps t"
  shows "backed R ps c"
proof -
  have "asked ps t" if "tree_check (subscriptions c) t" for t
  proof (cases "t = []")
    case True
    with that assms(1) have "node_count (root (subscriptions c)) \<noteq> 0"
      using check_empty_topic by (simp add: filter_ok_def)
    with assms(2) True show ?thesis by (force simp: asked_def byte_chars_def)
  qed (use assms(3) that in simp)
  with assms show ?thesis unfolding backed_def by blast
qed

lemma backed_subscribe:
  assumes laws: "runtime_laws R V" and b: "backed R ps c"
    and budget: "weight (root (subscriptions c)) + (length p + 1) < 2 ^ 64"
    and run: "handle_subscribe R p (c, bus) = (out, (c', bus'))"
  shows "backed R (ps @ [p]) c'"
proof (rule backedI)
  note e = handle_subscribe_effect [OF laws run]
  have ok: "glob_inv (subscriptions c)" "weight (root (subscriptions c)) < 2 ^ 64"
    using b by (simp_all add: backed_def filter_ok_def)
  show "filter_ok c'" using gt.add_inv [OF ok(1) budget] budget by (simp add: filter_ok_def e(2))
  show "node_count (root (subscriptions c')) = 0 \<or> [] \<in> set (ps @ [p])"
    using b insert_at_nonempty_count [of p "root (subscriptions c)"]
    by (cases "p = []") (simp_all add: backed_def e(2) tree_insert_def)
  show "asked (ps @ [p]) t" if "t \<noteq> []" "tree_check (subscriptions c') t" for t
    using gp.add_gain [OF ok(1) budget that(1)] that(2) b by (auto simp: e(2) asked_snoc backed_def)
  show "asked (ps @ [p]) t" if "stream_of R c' t \<noteq> None" "\<not> tree_check (subscriptions c') t" for t
    using that e(3) [of t] b by (auto simp: e(2) asked_snoc backed_def)
qed

lemma backed_unsubscribe:
  assumes laws: "runtime_laws R V" and b: "backed R ps c"
  shows "backed R ps (handle_unsubscribe R p c)"
proof (rule backedI)
  note e = handle_unsubscribe_effect [OF laws, of p c]
  have ok: "glob_inv (subscriptions c)" "weight (root (subscriptions c)) < 2 ^ 64"
    using b by (simp_all add: backed_def filter_ok_def)
  show "filter_ok (handle_unsubscribe R p c)"
    using gt.drop_inv [OF ok(1), of p] ok(2) by (simp add: filter_ok_def e)
  have "node_count (root (remove_ok (subscriptions c) p)) = node_count (root (subscriptions c))"
  proof (cases "tree_remove (subscriptions c) p")
    case (Inr f)
    then obtain n where "remove_at (root (subscriptions c)) p = Inr n" "root f = n"
      by (auto simp: tree_remove_def split: if_splits sum.splits)
    with remove_at_wf_weight [of "root (subscriptions c)" p n] ok(1) Inr show ?thesis
      by (simp add: remove_ok_def glob_inv_def)
  qed (simp add: remove_ok_def)
  with b show "node_count (root (subscriptions (handle_unsubscribe R p c))) = 0 \<or> [] \<in> set ps"
    by (simp add: backed_def e)
  show "asked ps t" if "t \<noteq> []" "tree_check (subscriptions (handle_unsubscribe R p c)) t" for t
    using gt.drop_no_gain [OF ok] that b by (simp add: e backed_def)
  show "asked ps t" if "stream_of R (handle_unsubscribe R p c) t \<noteq> None"
      "\<not> tree_check (subscriptions (handle_unsubscribe R p c)) t" for t
    using that by (simp add: e)
qed

lemma backed_iteration:
  assumes laws: "runtime_laws R V" and b: "backed R (patterns_of i acts) c"
    and budget: "\<And>p. br = On_command (Some (Subscribe p)) \<Longrightarrow>
      weight (root (subscriptions c)) + (length p + 1) < 2 ^ 64"
    and run: "run_iteration R E br (c, bus) = (go_on, out, (c', bus'))"
  shows "backed R (patterns_of i (acts @ [Iterate i br out'])) c'"
  using laws run
proof (cases rule: iteration_cases)
  case same
  have "add_pattern i (Iterate i br out') ps = ps" for ps
    using same(2) by (cases "(i, Iterate i br out', ps)" rule: add_pattern.cases) auto
  with b same(1) show ?thesis by (simp add: patterns_of_snoc)
next
  case (subscribe p o')
  from backed_subscribe [OF laws b budget [OF subscribe(1)] subscribe(2)]
  show ?thesis by (simp add: patterns_of_snoc subscribe(1))
next
  case (unsubscribe p)
  with backed_unsubscribe [OF laws b] show ?thesis by (simp add: patterns_of_snoc)
next
  case (join name b1)
  note e = conn_subscribe_effect [OF laws join(5)]
  have s: "subscriptions c' = subscriptions c" using e(1) by (simp add: joins_def)
  have "backed R (patterns_of i acts) c'"
    using b e(3) join(4) by (auto simp: backed_def filter_ok_def s)
  then show ?thesis by (simp add: patterns_of_snoc join(1))
qed

section \<open>Runs\<close>

text \<open>Before a subscription, the patterns of the connection stay below the range of the counts.\<close>

definition budgeted :: "('m, 'w, 'v, 's, 'h) sys \<Rightarrow> 'a action \<Rightarrow> bool" where
  "budgeted s a \<longleftrightarrow>
     (case a of
        Iterate i (On_command (Some (Subscribe p))) out \<Rightarrow>
          (\<forall>c. sys_conns s i = Some c \<longrightarrow> weight (root (subscriptions c)) + (length p + 1) < 2 ^ 64)
      | _ \<Rightarrow> True)"

lemma within_budgeted: "within R V s a \<Longrightarrow> budgeted s a"
  by (simp add: within_def budgeted_def)

definition entitled ::
  "('m, 'w, 'v, 's, 'h) runtime \<Rightarrow> 'a externals \<Rightarrow> 'a action list \<Rightarrow> ('m, 'w, 'v, 's, 'h) sys \<Rightarrow> bool" where
  "entitled R E acts s \<longleftrightarrow>
     (\<forall>i c. sys_conns s i = Some c \<longrightarrow> backed R (patterns_of i acts) c) \<and>
     (\<forall>i x. x \<in> set (carried (conn_outputs i acts)) \<longrightarrow>
        (\<exists>t. x \<in> set (published E t acts) \<and> asked (patterns_of i acts) t))"

lemma patterns_grow: "(\<And>out. a \<noteq> Accept i out) \<Longrightarrow> asked ps t \<Longrightarrow> asked (add_pattern i a ps) t"
  by (cases "(i, a, ps)" rule: add_pattern.cases) (auto simp: asked_snoc)

lemma new_backed:
  assumes laws: "runtime_laws R V" and inv: "bus_inv R V b" and new: "conn_new R b = (c, b')"
  shows "backed R ps c"
proof (rule backedI)
  note e = accept_effect [OF laws inv new]
  show "filter_ok c" "node_count (root (subscriptions c)) = 0 \<or> [] \<in> set ps"
    using glob_tree_new_inv by (simp_all add: filter_ok_def e(9) glob_tree_new_def)
  show "asked ps t" if "t \<noteq> []" "tree_check (subscriptions c) t" for t
    using that new_tree_matches_nothing [of t] by (simp add: e(9))
  show "asked ps t" if "stream_of R c t \<noteq> None" for t using that by (simp add: e(4))
qed

lemma entitled_step:
  assumes laws: "runtime_laws R V" and inv: "sys_inv R V s" and ord: "ordered R V E acts s"
    and prov: "provenance R E acts s" and ent: "entitled R E acts s" and bud: "budgeted s a"
    and step: "sys_step R E s a s'"
  shows "entitled R E (acts @ [a]) s'"
  using step
proof cases
  case (accept i c b)
  have "backed R (patterns_of i (acts @ [a])) c" by (rule new_backed [OF laws sys_invD(1) [OF inv] accept(4)])
  then show ?thesis
    using ent by (auto simp: accept(1,2) entitled_def patterns_of_snoc conn_outputs_snoc published_append)
next
  case (iterate i c br go_on out c' b)
  have budget: "weight (root (subscriptions c)) + (length p + 1) < 2 ^ 64"
    if "br = On_command (Some (Subscribe p))" for p
    using bud iterate(3) by (simp add: budgeted_def iterate(1) that)
  have old: "backed R (patterns_of i acts) c" using ent iterate(3) by (simp add: entitled_def)
  have own: "backed R (patterns_of i (acts @ [a])) c'"
    unfolding iterate(1) by (rule backed_iteration [OF laws old budget iterate(4)])
  have other: "patterns_of j (acts @ [a]) = patterns_of j acts" if "j \<noteq> i" for j
    using that by (cases "(j, a, patterns_of j acts)" rule: add_pattern.cases)
      (simp_all add: patterns_of_snoc iterate(1))
  have grow: "asked (patterns_of j (acts @ [a])) t" if "asked (patterns_of j acts) t" for j t
    unfolding patterns_of_snoc by (rule patterns_grow [OF _ that]) (simp add: iterate(1))
  have sent: "\<exists>t. x \<in> set (published E t acts) \<and> asked (patterns_of i (acts @ [a])) t"
    if x: "x \<in> set (carried out)" for x
    using iteration_carried_topic [OF laws iterate(4) x]
  proof (elim disjE exE conjE)
    fix t assume t: "bus_abs R (sys_bus s) t = Some (Some x)" "stream_of R c' t \<noteq> None"
    from t(1) prov have "retains None (published E t acts) = Some (Some x)" by (auto simp: provenance_def)
    then have "x \<in> set (published E t acts)" by (auto simp: retains_def split: if_splits)
    with own t(2) show ?thesis unfolding backed_def by blast
  next
    fix t rx assume t: "stream_of R c t = Some rx" "x \<in> set (msg_pending V (sys_bus s) rx)"
    with iterate(3) ord
    have "subseq (forwarded i t acts @ msg_pending V (sys_bus s) rx) (published E t acts)"
      by (auto simp: ordered_def)
    with t(2) have "x \<in> set (published E t acts)" using subseq_set [of _ "published E t acts" x] by fastforce
    moreover have "asked (patterns_of i acts) t" using old t(1) by (simp add: backed_def)
    ultimately show ?thesis using grow by blast
  qed
  have "\<exists>t. x \<in> set (published E t (acts @ [a])) \<and> asked (patterns_of j (acts @ [a])) t"
    if x: "x \<in> set (carried (conn_outputs j (acts @ [a])))" for j x
  proof -
    have "x \<in> set (carried (conn_outputs j acts)) \<or> j = i \<and> x \<in> set (carried out)"
      using x by (auto simp: iterate(1) conn_outputs_snoc carried_append split: if_splits)
    moreover have "\<exists>t. x \<in> set (published E t acts) \<and> asked (patterns_of j acts) t"
      if "x \<in> set (carried (conn_outputs j acts))"
      using ent that unfolding entitled_def by blast
    ultimately obtain t where "x \<in> set (published E t acts)" "asked (patterns_of j (acts @ [a])) t"
      using sent grow by blast
    then show ?thesis by (intro exI [of _ t]) (simp add: published_append)
  qed
  then show ?thesis using own ent other by (auto simp: entitled_def iterate(2))
qed

lemma reachable_entitled:
  assumes laws: "runtime_laws R V" and run: "reachable R E budgeted w v acts s"
  shows "entitled R E acts s"
  using run
proof induction
  case start
  then show ?case by (simp add: entitled_def server_new_def)
next
  case (next_step acts s a s')
  show ?case
    by (rule entitled_step [OF laws reachable_inv [OF laws next_step.hyps(1)]
          reachable_ordered [OF laws next_step.hyps(1)] reachable_provenance [OF laws next_step.hyps(1)]
          next_step.IH next_step.hyps(2,3)])
qed

section \<open>Properties\<close>

text \<open>
  C5: a client gets only what it asked for. In every run in which the patterns stay in range,
  whatever is lost, every message that the handler of a connection sends, retained or from a stream,
  was published on a topic that some pattern matches which this connection subscribed to; the topics
  a connection has streams for, and those its subscriptions match, are such topics.
\<close>
theorem only_subscribed:
  assumes laws: "runtime_laws R V" and run: "reachable R E budgeted w v acts s"
  shows "(\<forall>x\<in>set (carried (conn_outputs i acts)).
      \<exists>t. x \<in> set (published E t acts) \<and> (\<exists>p\<in>set (patterns_of i acts). byte_chars t \<in> glob_lang p)) \<and>
    (\<forall>c t. sys_conns s i = Some c \<longrightarrow> tree_check (subscriptions c) t \<or> stream_of R c t \<noteq> None \<longrightarrow>
      (\<exists>p\<in>set (patterns_of i acts). byte_chars t \<in> glob_lang p))"
  using reachable_entitled [OF assms] unfolding entitled_def backed_def asked_def by blast

lemma run_7_budgeted:
  "reachable rt0 ext0 budgeted chans_new chans_new
     [act_1, act_2, act_3, act_4, act_5, act_4, act_7] sys_7"
  by (rule reachable_mono [OF run_7]) (rule within_budgeted)

theorem only_subscribed_witness:
  "[1] \<in> set (carried (conn_outputs 0 [act_1, act_2, act_3, act_4, act_5, act_4, act_7])) \<and>
   (\<exists>t. [1] \<in> set (published ext0 t [act_1, act_2, act_3, act_4, act_5, act_4, act_7]) \<and>
      (\<exists>p\<in>set (patterns_of 0 [act_1, act_2, act_3, act_4, act_5, act_4, act_7]). byte_chars t \<in> glob_lang p))"
proof
  show out: "[1] \<in> set (carried (conn_outputs 0 [act_1, act_2, act_3, act_4, act_5, act_4, act_7]))"
    by (simp add: conn_outputs_def act_1_def act_2_def act_3_def act_4_def act_5_def act_7_def out_of_def
        run_start_def)
  show "\<exists>t. [1] \<in> set (published ext0 t [act_1, act_2, act_3, act_4, act_5, act_4, act_7]) \<and>
      (\<exists>p\<in>set (patterns_of 0 [act_1, act_2, act_3, act_4, act_5, act_4, act_7]). byte_chars t \<in> glob_lang p)"
    using only_subscribed [OF runtime_laws0 run_7_budgeted, of 0] out by blast
qed

end
