(* ===== verification/Outbox_Claims.thy ===== *)
theory Outbox_Claims
  imports Server_Claims Outbox
begin

text \<open>
  What the bounded channel to the write task means for a subscriber: the retained message of a topic
  is lost when the channel is full.
\<close>

text \<open>
  C40: a full channel loses the retained message. When a handler receives the creation event of a topic
  it matches while the channel to its write task is full, the topic's last message is handed to
  \<open>try_send\<close>, which leaves the channel as it is, and the new stream has nothing pending: the message
  that led to the subscription never reaches the client.
\<close>
theorem retained_lost_when_full:
  assumes laws: "runtime_laws R V" and mq: "mpsc_laws C"
    and full: "mq_capacity C q \<le> length (mq_contents C q)"
    and poll: "bc_recv (rt_events R) (topic_events c) (event_channels b) = (Received (Created t), v)"
    and m: "tree_check (subscriptions c) t" and none: "stream_of R c t = None"
    and last: "bus_abs R b t = Some (Some bs)"
  shows "\<exists>c' b' rx. run_iteration R E On_topic_event (c, b) = (True, [Try_send bs], (c', b')) \<and>
    perform C (Try_send bs) q = Some q \<and>
    stream_of R c' t = Some rx \<and> receives R V b' t rx \<and> msg_pending V b' rx = []"
proof -
  have "perform C (Try_send bs) q = Some q" using put_full(1) [OF mq, of q] full by simp
  with creation_event_joins [OF laws poll m none last] show ?thesis by blast
qed

theorem retained_lost_when_full_witness:
  "\<exists>c' b' rx. run_iteration rt0 ext0 On_topic_event (conn_a tree_a [], sys_bus sys_4) =
       (True, [Try_send [1]], (c', b')) \<and>
     perform list_mpsc (Try_send [1]) (CHANNEL_BUFFER_SIZE, replicate CHANNEL_BUFFER_SIZE [7]) =
       Some (CHANNEL_BUFFER_SIZE, replicate CHANNEL_BUFFER_SIZE [7]) \<and>
     stream_of rt0 c' (str ''a'') = Some rx \<and> receives rt0 views0 b' (str ''a'') rx \<and>
     msg_pending views0 b' rx = []"
proof (rule retained_lost_when_full [OF runtime_laws0 list_mpsc_laws,
      where v = "ev_chans [(5, 1, [Created (str ''a'')]), (2, 1, [])]"])
  show "mq_capacity list_mpsc (CHANNEL_BUFFER_SIZE, replicate CHANNEL_BUFFER_SIZE [7])
      \<le> length (mq_contents list_mpsc (CHANNEL_BUFFER_SIZE, replicate CHANNEL_BUFFER_SIZE [7]))"
    by (simp add: list_mpsc_def)
qed (simp_all add: sys_defs rt0_def list_broadcast_def list_streammap_def list_dashmap_def check_a
    stream_of_def bus_abs_def topic_def)

end
