(* ===== verification/End_To_End.thy ===== *)
theory End_To_End
  imports Pipeline Entitlement Outbox_Claims
begin

text \<open>
  Client, connection and server together: what one client calls for, and what another one receives.
\<close>

section \<open>From the client to its handler and back\<close>

text \<open>
  What a client asks for is what its handler gets. The commands that the client's write task
  sent, encoded one after the other, arrive at the handler's command channel in order, each once and
  unaltered, however the connection cuts their bytes into chunks, and nothing else does; if nothing
  fails they are all the commands of the client.
\<close>
theorem commands_arrive:
  assumes laws: "rmp_reads_back from_read serialize" "rmp_wants_more from_read serialize"
    and sent: "client_write_task rs = (cmds, e)" and ok: "\<forall>c\<in>set cmds. serializable serialize c"
    and bytes: "concat cs = stream serialize cmds"
  shows "(feeds from_read [] cs xs rest \<longleftrightarrow> read_loop (List.map Inr xs) = cmds \<and> rest = []) \<and>
    prefix cmds (List.map fst rs) \<and> (e = None \<longleftrightarrow> cmds = List.map fst rs)"
  using feeds_stream_iff [OF laws ok bytes] client_write_task_prefix [OF sent] by (auto simp: read_loop_Inr)

theorem commands_arrive_witness:
  "(feeds (via_read pub) [] [[1], [7, 1], [8]] [pub 7, pub 8] [] \<longleftrightarrow>
      read_loop (List.map Inr [pub 7, pub 8]) = [pub 7, pub 8] \<and> [] = ([] :: bytes)) \<and>
   prefix [pub 7, pub 8] (List.map fst [(pub 7, True), (pub 8, True)]) \<and>
   (None = (None :: client_error option) \<longleftrightarrow>
      [pub 7, pub 8] = List.map fst [(pub 7, True), (pub 8, True)])"
  by (rule commands_arrive [OF via_reads_back [of unpub, OF unpub] via_wants_more])
    (simp_all add: serializable_def via_write_def unpub_def pub_def toy_write_def)

text \<open>
  What a handler sends is what its client receives. While the connection's write task runs, the
  messages whose bytes it was given are decoded and passed on by the client's read task in order,
  each once and unaltered, whatever the flush strategy and however the bytes are cut into chunks.
\<close>
theorem messages_arrive:
  assumes laws: "rmp_reads_back from_read serialize" "rmp_wants_more from_read serialize"
    and run: "write_loop cfg its = (ops, True)"
    and given: "received its = List.map (\<lambda>m. projr (serialize m)) ms"
    and ok: "\<forall>m\<in>set ms. serializable serialize m"
    and bytes: "concat cs = concat (written ops)"
  shows "feeds from_read [] cs xs rest \<longleftrightarrow> client_read_task (List.map Inr xs) = (ms, None) \<and> rest = []"
proof -
  have "concat cs = stream serialize ms"
    using write_loop_written [OF run] by (simp add: bytes given stream_def)
  from feeds_stream_iff [OF laws ok this] show ?thesis by (simp add: client_read_task_Inr)
qed

definition msg_of :: "byte \<Rightarrow> byte message" where
  "msg_of n = \<lparr>msg_topic = str ''a'', msg_value = n\<rparr>"

definition of_msg :: "byte message \<Rightarrow> byte option" where
  "of_msg m = (if msg_topic m = str ''a'' then Some (msg_value m) else None)"

lemma of_msg: "of_msg m = Some n \<Longrightarrow> msg_of n = m"
  by (auto simp: of_msg_def msg_of_def split: if_splits)

theorem messages_arrive_witness:
  "feeds (via_read msg_of) [] [[1, 7, 1], [8]] [msg_of 7, msg_of 8] [] \<longleftrightarrow>
     client_read_task (List.map Inr [msg_of 7, msg_of 8]) = ([msg_of 7, msg_of 8], None) \<and>
     [] = ([] :: bytes)"
  by (rule messages_arrive [OF via_reads_back [of of_msg, OF of_msg] via_wants_more,
        where cfg = high_throughput and its = "[got [1, 7] False, got [1, 8] True]"
          and ops = "[Write_all [1, 7], Write_all [1, 8], Flush]"])
    (simp_all add: serializable_def via_write_def of_msg_def msg_of_def toy_write_def got_def
      write_iteration_def high_throughput_def)

text \<open>
  C28: what a handler forwards reaches its client. The outputs of a whole run of a handler go through
  the bounded channel to the write task, over the socket in any chunks, and through the client's
  decoder: once the channel has drained, and while the write task runs, the client has received, in
  order, each once and unaltered, exactly the messages that went through the channel, and among them
  every message that the handler forwarded from its streams.
\<close>
theorem forwarded_messages_reach_client:
  assumes laws: "rmp_reads_back from_read serialize" "rmp_wants_more from_read serialize"
    and mq: "mpsc_laws C" and channel: "outbox_run C (fst (handler_run R E brs h)) n s"
    and drained: "\<And>s'. \<not> outbox_step C s s'"
    and task: "write_loop cfg its = (ops, True)" "received its = taken s"
    and encoded: "taken s = List.map (\<lambda>m. projr (serialize m)) ms"
    and ok: "\<forall>m\<in>set ms. serializable serialize m"
    and bytes: "concat cs = concat (written ops)" and fed: "feeds from_read [] cs xs rest"
  shows "client_read_task (List.map Inr xs) = (ms, None) \<and> rest = [] \<and>
    subseq (sent (fst (handler_run R E brs h))) (List.map (\<lambda>m. projr (serialize m)) ms)"
proof -
  note inv = outbox_run_inv [OF mq channel]
  from outbox_stuck [OF mq inv drained] have "todo s = []" "mq_contents C (queue s) = []" by simp_all
  with inv have "subseq (sent (fst (handler_run R E brs h))) (taken s)"
    by (auto simp: outbox_inv_def through_def)
  moreover have "concat cs = stream serialize ms"
    using write_loop_written [OF task(1)] by (simp add: bytes task(2) encoded stream_def)
  from feeds_stream_iff [OF laws ok this] fed have "xs = ms" "rest = []" by simp_all
  ultimately show ?thesis by (simp add: client_read_task_Inr encoded)
qed

text \<open>A handler that forwards one encoded message.\<close>

definition bus_7 :: "((rstring \<times> nat topic_data) list, bytes chans, topic_event chans, nat) bus" where
  "bus_7 = bus_of topic_a (msg_chans [(2, 1, [[1, 7]])]) [(2, 1, [])]"

definition brs_7 :: "unit branch list" where
  "brs_7 = [On_stream (str ''a'') True]"

definition out_7 :: "conn_output list" where
  "out_7 = [Connection_add 1, Sent_increment, Send_bytes [1, 7]]"

lemma handler_7: "fst (handler_run rt0 ext0 brs_7 (conn_a tree_a [(str ''a'', 2)], bus_7)) = out_7"
  by (simp add: handler_run_def run_start_def brs_7_def bus_7_def out_7_def sys_defs rt0_simps
      forward_message_to_client_def)

lemma handler_7_run: "outbox_run list_mpsc out_7 4 (box [] [] [[1, 7]])"
  using box_run [of out_7 4] by (simp add: out_7_def CHANNEL_BUFFER_SIZE_def)

theorem forwarded_messages_reach_client_witness:
  "client_read_task (List.map Inr [msg_of 7]) = ([msg_of 7], None) \<and> [] = ([] :: bytes) \<and>
   subseq (sent (fst (handler_run rt0 ext0 brs_7 (conn_a tree_a [(str ''a'', 2)], bus_7))))
     (List.map (\<lambda>m. projr (via_write of_msg m)) [msg_of 7])"
proof (rule forwarded_messages_reach_client [OF via_reads_back [of of_msg, OF of_msg] via_wants_more
      list_mpsc_laws _ box_stuck, where cfg = high_throughput and its = "[got [1, 7] True]"
        and ops = "[Write_all [1, 7], Flush]" and cs = "[[1], [7]]"])
  show "outbox_run list_mpsc (fst (handler_run rt0 ext0 brs_7 (conn_a tree_a [(str ''a'', 2)], bus_7))) 4
      (box [] [] [[1, 7]])"
    unfolding handler_7 by (rule handler_7_run)
  have "feeds (via_read msg_of) [] [[1], [7]] [msg_of 7] [] \<longleftrightarrow>
      [msg_of 7] = [msg_of 7] \<and> [] = ([] :: bytes)"
    by (rule feeds_stream_iff [OF via_reads_back [of of_msg, OF of_msg] via_wants_more])
      (simp_all add: serializable_def via_write_def of_msg_def msg_of_def toy_write_def)
  then show "feeds (via_read msg_of) [] [[1], [7]] [msg_of 7] []" by simp
qed (simp_all add: serializable_def via_write_def of_msg_def msg_of_def toy_write_def got_def
    write_iteration_def high_throughput_def box_def)

section \<open>From one client to another\<close>

text \<open>
  C1: a published message is received. Client \<open>j\<close> publishes a message; connection \<open>i\<close> has a stream of
  its topic that stays within its capacity and is polled once more than there were messages in it,
  while anything else happens on the server; all that the connection's handler has sent since it was
  accepted goes through the channel to the write task, which writes it to the socket. Then the client
  at the other end decodes all of it without an error, and has received the message.
\<close>
theorem published_message_received:
  assumes laws: "runtime_laws R V" and run: "reachable R E ok w v acts s"
    and pub: "sys_step R E s (Iterate j (On_command (Some (Publish m))) out) s1"
    and stream: "keeps R V i (msg_topic m) rx s (Iterate j (On_command (Some (Publish m))) out)"
    and calm: "\<not> msg_lagging V (sys_bus s) rx"
    and path: "sys_path R E (keeps R V i (msg_topic m) rx) s1 acts' s2"
    and polled: "length (msg_pending V (sys_bus s) rx) < polls i (msg_topic m) acts'"
    and codec: "rmp_reads_back from_read (message_bytes E)" "rmp_wants_more from_read (message_bytes E)"
      "serializable (message_bytes E) m"
    and mq: "mpsc_laws C"
    and channel: "outbox_run C (conn_outputs i (acts @ [Iterate j (On_command (Some (Publish m))) out] @ acts')) n q"
    and drained: "\<And>q'. \<not> outbox_step C q q'"
    and task: "write_loop cfg its = (ops, True)" "received its = taken q"
    and bytes: "concat cs = concat (written ops)" and fed: "feeds from_read [] cs xs rest"
  shows "m \<in> set (fst (client_read_task (List.map Inr xs))) \<and>
    snd (client_read_task (List.map Inr xs)) = None"
proof -
  let ?pub = "Iterate j (On_command (Some (Publish m))) out"
  let ?out = "conn_outputs i (acts @ [?pub] @ acts')"
  obtain bs where bs: "message_bytes E m = Inr bs" using codec(3) unfolding serializable_def by blast
  note inv = reachable_inv [OF laws run]
  have s1: "msg_pending V (sys_bus s1) rx = msg_pending V (sys_bus s) rx @ [bs]"
      "\<not> msg_lagging V (sys_bus s1) rx"
    using step_exact [OF laws inv stream pub] calm by (cases "j = i"; simp add: bs)+
  from polled have "length (msg_pending V (sys_bus s1) rx) \<le> polls i (msg_topic m) acts'" by (simp add: s1)
  from polled_prefix [OF laws sys_step_inv [OF laws inv pub] s1(2) path this]
  have "bs \<in> set (forwarded i (msg_topic m) acts')" by (auto simp: s1(1) prefix_def)
  then have mem: "bs \<in> set (sent ?out)"
    using forwarded_in_outputs [of i "msg_topic m" acts'] path_outputs [OF path, of "acts @ [?pub]"]
    by (auto simp: sent_append)
  note box = outbox_run_inv [OF mq channel]
  from outbox_stuck [OF mq box drained] have "todo q = []" "mq_contents C (queue q) = []" by simp_all
  with box have through: "subseq (sent ?out) (taken q)" "subseq (taken q) (carried ?out)"
    by (auto simp: outbox_inv_def through_def)
  have "reachable R E (\<lambda>_ _. True) w v ((acts @ [?pub]) @ acts') s2"
    by (rule reachable_path [OF reachable.next_step [OF reachable_any [OF run] _ pub] path]) simp
  from reachable_provenance [OF laws this] have "\<exists>m. message_bytes E m = Inr x" if "x \<in> set (taken q)" for x
    using subseq_set [OF through(2) that] published_encoded unfolding provenance_def append_assoc by metis
  then obtain ms where ms: "taken q = List.map (\<lambda>m. projr (message_bytes E m)) ms"
      "\<forall>m\<in>set ms. serializable (message_bytes E) m"
    using encoded_list [OF codec(1,2)] by blast
  obtain m' where m': "m' \<in> set ms" "projr (message_bytes E m') = bs"
    using subseq_set [OF through(1) mem] unfolding ms(1) by auto
  with ms(2) have "message_bytes E m' = Inr bs" unfolding serializable_def by fastforce
  with codec(1) bs have "from_read (bs @ []) = (Inr m', [])" "from_read (bs @ []) = (Inr m, [])"
    unfolding rmp_reads_back_def by blast+
  then have "m' = m" by simp
  moreover have "concat cs = stream (message_bytes E) ms"
    using write_loop_written [OF task(1)] by (simp add: bytes task(2) ms(1) stream_def)
  from feeds_stream_iff [OF codec(1,2) ms(2) this] fed have "xs = ms" by simp
  ultimately show ?thesis using m'(1) by (simp add: client_read_task_Inr)
qed

text \<open>
  A client that publishes on \<open>a\<close>, subscribes to \<open>a\<close>, publishes again, and is sent its own message.
\<close>

definition ext7 :: "byte externals" where
  "ext7 = \<lparr>value_debug = (\<lambda>_. []), message_bytes = via_write of_msg\<rparr>"

definition sys_of :: "glob_tree \<Rightarrow> (rstring \<times> nat) list \<Rightarrow> (nat \<times> nat \<times> bytes list) list \<Rightarrow> sys0" where
  "sys_of t streams rs =
     \<lparr>sys_bus = bus_of [(str ''a'', \<lparr>sender = 1, last_message = Some [1, 7]\<rparr>)] (msg_chans rs)
        [(2, 1, [Created (str ''a'')])],
      sys_conns = (\<lambda>_. None)(0 := Some (conn_a t streams))\<rparr>"

definition out_cmd :: "byte command \<Rightarrow> conn_output list \<Rightarrow> conn_output list" where
  "out_cmd cmd out = [Command_increment, Log_command (command_log (\<lambda>_. []) cmd)] @ out"

definition act_pub :: "byte action" where
  "act_pub = Iterate 0 (On_command (Some (Publish (msg_of 7)))) (out_cmd (Publish (msg_of 7)) [])"

definition act_sub :: "byte action" where
  "act_sub = Iterate 0 (On_command (Some (Subscribe (str ''a''))))
     (out_cmd (Subscribe (str ''a'')) [Try_send [1, 7]])"

definition act_poll :: "byte action" where
  "act_poll = Iterate 0 (On_stream (str ''a'') True) [Sent_increment, Send_bytes [1, 7]]"

lemmas run7_simps = sys_of_def bus_of_def msg_chans_def ev_chans_def conn_a_def ext7_def msg_of_def
  of_msg_def via_write_def toy_write_def out_cmd_def

lemma step7:
  "sys_step rt0 ext7 (server_new rt0 chans_new chans_new) (Accept 0 run_start) sys_1"
  "sys_step rt0 ext7 sys_1 act_pub (sys_of glob_tree_new [] [])"
  "sys_step rt0 ext7 (sys_of glob_tree_new [] []) act_sub (sys_of tree_a [(str ''a'', 2)] [(2, 1, [])])"
  "sys_step rt0 ext7 (sys_of tree_a [(str ''a'', 2)] [(2, 1, [])]) act_pub
     (sys_of tree_a [(str ''a'', 2)] [(2, 1, [[1, 7]])])"
  "sys_step rt0 ext7 (sys_of tree_a [(str ''a'', 2)] [(2, 1, [[1, 7]])]) act_poll
     (sys_of tree_a [(str ''a'', 2)] [(2, 1, [])])"
proof -
  have it: "sys_step rt0 ext7 s (Iterate 0 br out) s'"
    if "sys_conns s 0 = Some c" "run_iteration rt0 ext7 br (c, sys_bus s) = (True, out, c', sys_bus s')"
      "sys_conns s' = (sys_conns s)(0 := Some c')" for s br out s' c c'
    using sys_step.iterate [OF that(1,2)] that(3) by (cases s') simp
  show "sys_step rt0 ext7 (server_new rt0 chans_new chans_new) (Accept 0 run_start) sys_1"
    unfolding sys_1_def by (rule sys_step.accept) (simp_all add: sys_defs rt0_simps conn_new_def)
  show "sys_step rt0 ext7 sys_1 act_pub (sys_of glob_tree_new [] [])"
    unfolding act_pub_def
    by (rule it [where c = "conn_a glob_tree_new []" and c' = "conn_a glob_tree_new []"])
      (simp_all add: sys_defs run7_simps rt0_simps handle_publish_def)
  show "sys_step rt0 ext7 (sys_of glob_tree_new [] []) act_sub
      (sys_of tree_a [(str ''a'', 2)] [(2, 1, [])])"
    unfolding act_sub_def
    by (rule it [where c = "conn_a glob_tree_new []" and c' = "conn_a tree_a [(str ''a'', 2)]"])
      (simp_all add: run7_simps rt0_simps list_topics_def check_a [unfolded tree_a_def] tree_a_def)
  show "sys_step rt0 ext7 (sys_of tree_a [(str ''a'', 2)] [(2, 1, [])]) act_pub
     (sys_of tree_a [(str ''a'', 2)] [(2, 1, [[1, 7]])])"
    unfolding act_pub_def
    by (rule it [where c = "conn_a tree_a [(str ''a'', 2)]" and c' = "conn_a tree_a [(str ''a'', 2)]"])
      (simp_all add: run7_simps rt0_simps handle_publish_def)
  show "sys_step rt0 ext7 (sys_of tree_a [(str ''a'', 2)] [(2, 1, [[1, 7]])]) act_poll
     (sys_of tree_a [(str ''a'', 2)] [(2, 1, [])])"
    unfolding act_poll_def
    by (rule it [where c = "conn_a tree_a [(str ''a'', 2)]" and c' = "conn_a tree_a [(str ''a'', 2)]"])
      (simp_all add: run7_simps rt0_simps forward_message_to_client_def)
qed

lemma run7:
  "reachable rt0 ext7 (\<lambda>_ _. True) chans_new chans_new [Accept 0 run_start, act_pub, act_sub]
     (sys_of tree_a [(str ''a'', 2)] [(2, 1, [])])"
  using reachable.next_step [OF reachable.next_step [OF reachable.next_step [OF reachable.start _ step7(1)]
      _ step7(2)] _ step7(3), of "\<lambda>_ _. True"]
  by simp

lemma keeps7:
  "length q < CHANNEL_BUFFER_SIZE \<Longrightarrow>
   keeps rt0 views0 0 (str ''a'') 2 (sys_of tree_a [(str ''a'', 2)] [(2, 1, q)]) a"
  by (simp add: keeps_def run7_simps stream_of_def rt0_def list_streammap_def views0_def list_view_def)

lemma run7_outputs:
  "conn_outputs 0 ([Accept 0 run_start, act_pub, act_sub] @ [act_pub] @ [act_poll]) =
     [Connection_add 1] @ out_cmd (Publish (msg_of 7)) [] @ out_cmd (Subscribe (str ''a'')) [Try_send [1, 7]] @
     out_cmd (Publish (msg_of 7)) [] @ [Sent_increment, Send_bytes [1, 7]]"
  by (simp add: conn_outputs_def act_pub_def act_sub_def act_poll_def run_start_def)

lemma run7_channel:
  "outbox_run list_mpsc (conn_outputs 0 ([Accept 0 run_start, act_pub, act_sub] @ [act_pub] @ [act_poll])) 12
     (box [] [] [[1, 7], [1, 7]])"
  using box_run [of "conn_outputs 0 ([Accept 0 run_start, act_pub, act_sub] @ [act_pub] @ [act_poll])" 12]
  unfolding run7_outputs by (simp add: out_cmd_def CHANNEL_BUFFER_SIZE_def)

lemma run7_path:
  "sys_path rt0 ext7 (keeps rt0 views0 0 (str ''a'') 2)
     (sys_of tree_a [(str ''a'', 2)] [(2, 1, [[1, 7]])]) [act_poll]
     (sys_of tree_a [(str ''a'', 2)] [(2, 1, [])])"
proof -
  have "keeps rt0 views0 0 (str ''a'') 2 (sys_of tree_a [(str ''a'', 2)] [(2, 1, [[1, 7]])]) act_poll"
    by (rule keeps7) (simp add: CHANNEL_BUFFER_SIZE_def)
  from path_step [of rt0 ext7 "keeps rt0 views0 0 (str ''a'') 2", OF path_here this step7(5)]
  show ?thesis by simp
qed

lemma msg_of_codec:
  "rmp_reads_back (via_read msg_of) (message_bytes ext7)"
  "rmp_wants_more (via_read msg_of) (message_bytes ext7)"
  "serializable (message_bytes ext7) (msg_of 7)" "msg_topic (msg_of 7) = str ''a''"
  using via_reads_back [of of_msg, OF of_msg] via_wants_more
  by (simp_all add: ext7_def serializable_def via_write_def of_msg_def toy_write_def)
    (simp_all add: msg_of_def)

theorem published_message_received_witness:
  "msg_of 7 \<in> set (fst (client_read_task (List.map Inr [msg_of 7, msg_of 7]))) \<and>
   snd (client_read_task (List.map Inr [msg_of 7, msg_of 7])) = None"
proof (rule published_message_received [OF runtime_laws0 run7 step7(4) [unfolded act_pub_def],
      where i = 0 and rx = 2 and acts' = "[act_poll]" and from_read = "via_read msg_of"
        and C = list_mpsc and q = "box [] [] [[1, 7], [1, 7]]" and cfg = high_throughput
        and its = "[got [1, 7] False, got [1, 7] True]"
        and ops = "[Write_all [1, 7], Write_all [1, 7], Flush]" and cs = "[[1, 7, 1], [7]]" and rest = "[]"])
  show "keeps rt0 views0 0 (msg_topic (msg_of 7)) 2 (sys_of tree_a [(str ''a'', 2)] [(2, 1, [])])
      (Iterate 0 (On_command (Some (Publish (msg_of 7)))) (out_cmd (Publish (msg_of 7)) []))"
    unfolding msg_of_codec(4) by (rule keeps7) simp
  show "\<not> msg_lagging views0 (sys_bus (sys_of tree_a [(str ''a'', 2)] [(2, 1, [])])) 2"
    by (simp add: views0_def list_view_def)
  show "sys_path rt0 ext7 (keeps rt0 views0 0 (msg_topic (msg_of 7)) 2)
      (sys_of tree_a [(str ''a'', 2)] [(2, 1, [[1, 7]])]) [act_poll]
      (sys_of tree_a [(str ''a'', 2)] [(2, 1, [])])"
    unfolding msg_of_codec(4) by (rule run7_path)
  show "length (msg_pending views0 (sys_bus (sys_of tree_a [(str ''a'', 2)] [(2, 1, [])])) 2)
      < polls 0 (msg_topic (msg_of 7)) [act_poll]"
    by (simp add: msg_of_codec(4) act_poll_def run7_simps views0_def list_view_def)
  show "outbox_run list_mpsc
      (conn_outputs 0 ([Accept 0 run_start, act_pub, act_sub] @
        [Iterate 0 (On_command (Some (Publish (msg_of 7)))) (out_cmd (Publish (msg_of 7)) [])] @ [act_poll]))
      12 (box [] [] [[1, 7], [1, 7]])"
    using run7_channel unfolding act_pub_def .
  have "feeds (via_read msg_of) [] [[1, 7, 1], [7]] [msg_of 7, msg_of 7] [] \<longleftrightarrow>
      [msg_of 7, msg_of 7] = [msg_of 7, msg_of 7] \<and> [] = ([] :: bytes)"
    by (rule feeds_stream_iff [OF via_reads_back [of of_msg, OF of_msg] via_wants_more])
      (simp_all add: serializable_def via_write_def of_msg_def msg_of_def toy_write_def)
  then show "feeds (via_read msg_of) [] [[1, 7, 1], [7]] [msg_of 7, msg_of 7] []" by simp
  show "\<not> outbox_step list_mpsc (box [] [] [[1, 7], [1, 7]]) q'" for q' by (rule box_stuck)
qed (simp_all add: list_mpsc_laws msg_of_codec got_def write_iteration_def high_throughput_def box_def)

section \<open>From one program to another\<close>

text \<open>The commands that the handler of the connection \<open>i\<close> handled.\<close>

fun executed :: "nat \<Rightarrow> 'a action list \<Rightarrow> 'a command list" where
  "executed i [] = []"
| "executed i (Iterate j (On_command (Some cmd)) out # acts) =
     (if j = i then [cmd] else []) @ executed i acts"
| "executed i (a # acts) = executed i acts"

lemma executed_append: "executed i (xs @ ys) = executed i xs @ executed i ys"
  by (induction i xs rule: executed.induct) auto

lemma patterns_commands: "p \<in> set (patterns_of i acts) \<Longrightarrow> Subscribe p \<in> set (executed i acts)"
proof (induction acts rule: rev_induct)
  case (snoc a acts)
  have "p \<in> set (patterns_of i acts) \<or> (\<exists>out. a = Iterate i (On_command (Some (Subscribe p))) out)"
    using snoc.prems by (cases "(i, a, patterns_of i acts)" rule: add_pattern.cases)
      (auto simp: patterns_of_snoc split: if_splits)
  with snoc.IH show ?case by (auto simp: executed_append)
qed simp

lemma publish_of_command:
  assumes "x \<in> set (publish_of E t br)"
  shows "\<exists>m. br = On_command (Some (Publish m)) \<and> msg_topic m = t \<and> message_bytes E m = Inr x"
proof (cases "\<exists>m. br = On_command (Some (Publish m))")
  case True
  then obtain m where m: "br = On_command (Some (Publish m))" by blast
  then show ?thesis
    using assms by (cases "msg_topic m = t"; cases "message_bytes E m") simp_all
next
  case False
  then have "publish_of E t br = []" by (cases "(E, t, br)" rule: publish_of.cases) auto
  with assms show ?thesis by simp
qed

lemma published_commands:
  "x \<in> set (published E t acts) \<Longrightarrow>
   \<exists>j m. Publish m \<in> set (executed j acts) \<and> msg_topic m = t \<and> message_bytes E m = Inr x"
proof (induction acts)
  case (Cons a acts)
  have old: ?case if "x \<in> set (published E t acts)"
  proof -
    from Cons.IH [OF that] obtain j m where "Publish m \<in> set (executed j acts)" "msg_topic m = t"
      "message_bytes E m = Inr x" by blast
    then show ?thesis using executed_append [of j "[a]" acts] by (intro exI [of _ j] exI [of _ m]) simp
  qed
  show ?case
  proof (cases "x \<in> set (published E t acts)")
    case False
    then obtain j m out where "a = Iterate j (On_command (Some (Publish m))) out" "msg_topic m = t"
        "message_bytes E m = Inr x"
      using Cons.prems by (cases a) (auto dest!: publish_of_command)
    then show ?thesis by (intro exI [of _ j] exI [of _ m]) simp
  qed (rule old)
qed simp

text \<open>
  C2: a program is given only what it asked for and another one published. In every run in which the
  patterns stay in range: let each client \<open>j\<close> have made the calls \<open>calls j\<close>, of which its handler has
  handled some so far, the others being anywhere on the way; and let client \<open>i\<close> have received, by
  calls of \<open>recv\<close>, the messages \<open>recvd\<close> of those its handler sent. Then each of them is, topic and value,
  one that some client called \<open>publish\<close> for, on a topic that a pattern matches which client \<open>i\<close> itself
  called \<open>subscribe\<close> for.
\<close>
theorem received_was_published_and_asked_for:
  assumes laws: "runtime_laws R V" and run: "reachable R E budgeted w v acts s"
    and mq: "mpsc_laws C1" "mpsc_laws C2" "mpsc_laws C3" "mpsc_laws C4"
    and cmds: "rmp_reads_back read_cmd write_cmd" "rmp_wants_more read_cmd write_cmd"
      "\<forall>j. \<forall>c\<in>set (calls j). serializable write_cmd c"
    and msgs: "rmp_reads_back read_msg (message_bytes E)" "rmp_wants_more read_msg (message_bytes E)"
    and up: "\<forall>j. upstream C1 C2 read_cmd write_cmd (calls j) (executed j acts)"
    and down: "downstream C3 C4 read_msg (message_bytes E) (conn_outputs i acts) recvd"
    and m: "m \<in> set recvd"
  shows "(\<exists>j. Publish m \<in> set (calls j)) \<and>
    (\<exists>p. Subscribe p \<in> set (calls i) \<and> byte_chars (msg_topic m) \<in> glob_lang p)"
proof -
  have pre: "set (executed j acts) \<subseteq> set (calls j)" for j
    using upstream_prefix [OF mq(1,2) cmds(1,2)] cmds(3) up set_mono_prefix by blast
  have ent: "\<exists>t. x \<in> set (published E t acts) \<and> asked (patterns_of i acts) t"
    if "x \<in> set (carried (conn_outputs i acts))" for x
    using reachable_entitled [OF laws run] that unfolding entitled_def by blast
  then have "\<forall>x\<in>set (carried (conn_outputs i acts)). \<exists>m. message_bytes E m = Inr x"
    using published_encoded by blast
  from downstream_subseq [OF mq(3,4) msgs this down] m
  have "message_bytes E m \<in> set (List.map Inr (carried (conn_outputs i acts)))" using subseq_set by fastforce
  then obtain x where x: "message_bytes E m = Inr x" "x \<in> set (carried (conn_outputs i acts))" by auto
  from ent [OF x(2)] obtain t p where t: "x \<in> set (published E t acts)" "p \<in> set (patterns_of i acts)"
      "byte_chars t \<in> glob_lang p"
    by (auto simp: asked_def)
  from published_commands [OF t(1)] obtain j m' where m': "Publish m' \<in> set (executed j acts)"
      "msg_topic m' = t" "message_bytes E m' = Inr x"
    by blast
  from msgs(1) x(1) m'(3) have "read_msg (x @ []) = (Inr m, [])" "read_msg (x @ []) = (Inr m', [])"
    unfolding rmp_reads_back_def by blast+
  then have "m' = m" by simp
  with m' t pre patterns_commands [OF t(2)] show ?thesis by blast
qed

text \<open>
  The client of the run above: it published, subscribed to \<open>a\<close> and published again; it has called for
  one more publication, which is still in its channel, and has received the retained message.
\<close>

definition cmd_of :: "byte \<Rightarrow> byte command" where
  "cmd_of n = (if n = 0 then Subscribe (str ''a'') else pub n)"

definition of_cmd :: "byte command \<Rightarrow> byte option" where
  "of_cmd c = (if c = Subscribe (str ''a'') then Some 0 else
     case unpub c of Some n \<Rightarrow> if n = 0 then None else Some n | None \<Rightarrow> None)"

lemma of_cmd: "of_cmd c = Some n \<Longrightarrow> cmd_of n = c"
  by (auto simp: of_cmd_def cmd_of_def unpub split: if_splits option.splits)

definition calls7 :: "nat \<Rightarrow> byte command list" where
  "calls7 j = (if j = 0 then [pub 7, Subscribe (str ''a''), pub 7, pub 9] else [])"

abbreviation acts7 where
  "acts7 \<equiv> [Accept 0 run_start, act_pub, act_sub, act_pub, act_poll]"

lemma run7_budgeted:
  "reachable rt0 ext7 budgeted chans_new chans_new acts7 (sys_of tree_a [(str ''a'', 2)] [(2, 1, [])])"
proof -
  have b: "budgeted s (Accept 0 run_start)" "budgeted s act_pub" "budgeted s act_poll"
    "budgeted (sys_of glob_tree_new [] []) act_sub" for s :: sys0
    by (simp_all add: budgeted_def act_pub_def act_poll_def act_sub_def sys_of_def conn_a_def
        glob_tree_new_def str_def)
  have r: "reachable rt0 ext7 budgeted chans_new chans_new (acts @ [a]) s'"
    if "sys_step rt0 ext7 s a s'" "reachable rt0 ext7 budgeted chans_new chans_new acts s" "budgeted s a"
    for acts a s s'
    by (rule reachable.next_step [OF that(2,3,1)])
  from r [OF step7(5) r [OF step7(4) r [OF step7(3) r [OF step7(2) r [OF step7(1) reachable.start b(1)]
      b(2)] b(4)] b(2)] b(3)]
  show ?thesis by simp
qed

lemma commands7: "executed j acts7 = (if j = 0 then [pub 7, Subscribe (str ''a''), pub 7] else [])"
  by (simp add: act_pub_def act_sub_def act_poll_def pub_def msg_of_def)

lemma codec7:
  "rmp_reads_back (via_read cmd_of) (via_write of_cmd)" "rmp_wants_more (via_read cmd_of) (via_write of_cmd)"
  "c \<in> set (calls7 j) \<Longrightarrow> serializable (via_write of_cmd) c"
  by (rule via_reads_back [of of_cmd, OF of_cmd])
    (auto simp: via_wants_more calls7_def serializable_def via_write_def of_cmd_def unpub_def pub_def toy_write_def)

lemma up7: "upstream list_mpsc list_mpsc (via_read cmd_of) (via_write of_cmd) (calls7 j) (executed j acts7)"
proof (cases "j = 0")
  case True
  let ?cmds = "[pub 7, Subscribe (str ''a''), pub 7]"
  have c: "pipe_run list_mpsc (calls7 j) (CHANNEL_BUFFER_SIZE, [pub 9]) (List.map fst (List.map (\<lambda>c. (c, True)) ?cmds))"
    "pipe_run list_mpsc ?cmds (CHANNEL_BUFFER_SIZE, []) ?cmds"
    using list_pipe [of ?cmds "[pub 9]"] list_pipe [of ?cmds "[]"]
    by (simp_all add: True calls7_def CHANNEL_BUFFER_SIZE_def)
  have bytes: "stream (via_write of_cmd) ?cmds = concat [[1, 7, 1, 0, 1], [7]]"
    by (simp add: via_write_def of_cmd_def unpub_def pub_def toy_write_def)
  have "\<forall>c\<in>set ?cmds. serializable (via_write of_cmd) c" using codec7(3) [of _ 0] by (simp add: calls7_def)
  from feeds_stream_iff [OF codec7(1,2) this bytes [symmetric]]
  have fed: "feeds (via_read cmd_of) [] [[1, 7, 1, 0, 1], [7]] ?cmds []" by simp
  have pre: "prefix (concat [[1, 7, 1, 0, 1], [7]]) (stream (via_write of_cmd) ?cmds)"
    by (simp only: bytes)
  have "upstream list_mpsc list_mpsc (via_read cmd_of) (via_write of_cmd) (calls7 j) ?cmds"
    by (rule on_the_way [OF c(1) _ pre fed _ c(2), where e = None]) (simp_all add: read_loop_Inr)
  then show ?thesis unfolding commands7 by (simp add: True)
next
  case False
  have "upstream list_mpsc list_mpsc (via_read cmd_of) (via_write of_cmd) [] ([] :: byte command list)"
    by (rule on_the_way [of list_mpsc _ _ "[]" "[]" None "[]" _ _ "[]" "[]" "[]"])
      (auto intro: pipe_new feeds.eof simp: list_pipe [of "[]" "[]", simplified])
  with False show ?thesis unfolding commands7 by (simp add: calls7_def)
qed

lemma down7: "downstream list_mpsc list_mpsc (via_read msg_of) (message_bytes ext7) (conn_outputs 0 acts7) [msg_of 7]"
proof -
  have "feeds (via_read msg_of) [] [[1], [7]] [msg_of 7] []"
    using feeds_stream_iff [OF msg_of_codec(1,2), of "[msg_of 7]" "[[1], [7]]"] msg_of_codec(3)
    by (simp add: ext7_def via_write_def of_msg_def msg_of_def toy_write_def)
  moreover have "pipe_run list_mpsc [msg_of 7] (CHANNEL_BUFFER_SIZE, []) [msg_of 7]"
    using list_pipe [of "[msg_of 7]" "[]"] by (simp add: CHANNEL_BUFFER_SIZE_def)
  ultimately show ?thesis
    using on_the_way_back [OF run7_channel, of high_throughput "[got [1, 7] False]" "[Write_all [1, 7]]" True
        "[[1], [7]]" "via_read msg_of" "[msg_of 7]" "[]" "[msg_of 7]" list_mpsc "(CHANNEL_BUFFER_SIZE, [])"
        "[msg_of 7]" "message_bytes ext7"]
    by (simp add: got_def write_iteration_def high_throughput_def box_def)
qed

theorem received_was_published_and_asked_for_witness:
  "(\<exists>j. Publish (msg_of 7) \<in> set (calls7 j)) \<and>
   (\<exists>p. Subscribe p \<in> set (calls7 0) \<and> byte_chars (msg_topic (msg_of 7)) \<in> glob_lang p)"
  by (rule received_was_published_and_asked_for [OF runtime_laws0 run7_budgeted list_mpsc_laws list_mpsc_laws
        list_mpsc_laws list_mpsc_laws codec7(1,2) _ msg_of_codec(1,2) _ down7])
    (use up7 in \<open>simp_all add: codec7(3) del: executed.simps\<close>)

end
