(* ===== verification/Bus_Threads.thy ===== *)
theory Bus_Threads
  imports Bus_Correct
begin

text \<open>
  \<open>Bus::send\<close> of \<open>lbroker/src/server.rs\<close> at the granularity of its calls on the shared map and
  channels, run by any number of threads at once: between two calls any other thread may run. A call
  on the map that holds a guard (\<open>entry\<close>, \<open>get_mut\<close> with the store and the broadcast under it,
  \<open>get\<close> in \<open>subscribe_to_topic\<close>) is one step.
\<close>

section \<open>The calls of one send\<close>

text \<open>Where a thread stands: before each call of \<open>send\<close> and of the \<open>create_topic\<close> inside it.\<close>

datatype send_pc =
    At_contains | At_create_contains | At_entry | At_announce | At_store
  | Returned "bus_error + unit"

record thread =
  th_topic :: rstring
  th_message :: bytes
  th_pc :: send_pc

fun send_call ::
  "('m, 'w, 'v, 's, 'h) runtime \<Rightarrow> rstring \<Rightarrow> bytes \<Rightarrow> send_pc \<Rightarrow> ('m, 'w, 'v, 'h) bus \<Rightarrow>
   send_pc \<times> ('m, 'w, 'v, 'h) bus" where
  "send_call R t m At_contains bus =
     (if \<not> dm_contains_key (rt_topics R) (topics bus) t then (At_create_contains, bus)
      else (At_store, bus))"
| "send_call R t m At_create_contains bus =
     (if dm_contains_key (rt_topics R) (topics bus) t then (At_store, bus) else (At_entry, bus))"
| "send_call R t m At_entry bus = (At_announce, entry_or_insert_new R t bus)"
| "send_call R t m At_announce bus = (At_store, announce_topic R t bus)"
| "send_call R t m At_store bus =
     (let (r, bus) = store_and_send R t m bus in (Returned r, bus))"
| "send_call R t m (Returned r) bus = (Returned r, bus)"

text \<open>A thread that runs alone does what the definition of the whole operation says.\<close>

lemma send_alone:
  "((\<lambda>(pc, b). send_call R t m pc b) ^^ 5) (At_contains, b) =
     (Returned (fst (bus_send R t m b)), snd (bus_send R t m b))"
  by (simp add: eval_nat_numeral bus_send_def create_topic_def Let_def split: prod.split)

section \<open>All threads\<close>

text \<open>
  The bus, the threads, and, as a ghost, the messages in the order of the threads' \<open>At_store\<close> calls.
\<close>

record ('m, 'w, 'v, 'h) conc =
  c_bus :: "('m, 'w, 'v, 'h) bus"
  c_threads :: "nat \<Rightarrow> thread option"
  c_stored :: "(rstring \<times> bytes) list"

text \<open>The label of a step is the thread that makes a call, if any.\<close>

inductive conc_step ::
  "('m, 'w, 'v, 's, 'h) runtime \<Rightarrow> ('m, 'w, 'v, 'h) conc \<Rightarrow> nat option \<Rightarrow>
   ('m, 'w, 'v, 'h) conc \<Rightarrow> bool" for R where
  begin_send: "c_threads s i = None \<Longrightarrow>
     conc_step R s None
       (s\<lparr>c_threads := (c_threads s)(i := Some \<lparr>th_topic = t, th_message = m, th_pc = At_contains\<rparr>)\<rparr>)"
| call: "c_threads s i = Some th \<Longrightarrow>
     send_call R (th_topic th) (th_message th) (th_pc th) (c_bus s) = (pc, b) \<Longrightarrow>
     conc_step R s (Some i) \<lparr>c_bus = b, c_threads = (c_threads s)(i := Some (th\<lparr>th_pc := pc\<rparr>)),
       c_stored = c_stored s @ (if th_pc th = At_store then [(th_topic th, th_message th)] else [])\<rparr>"
| join: "subscribe_to_topic R t (c_bus s) = (r, b) \<Longrightarrow> conc_step R s None (s\<lparr>c_bus := b\<rparr>)"

inductive_cases conc_step_elim: "conc_step R s l s'"

text \<open>
  The states reached from a bus without threads, each step from a state that satisfies \<open>ok\<close>, and the
  runs from one state to another with the number of calls of the thread \<open>i\<close> on the way.
\<close>

inductive conc_run ::
  "('m, 'w, 'v, 's, 'h) runtime \<Rightarrow> (('m, 'w, 'v, 'h) conc \<Rightarrow> bool) \<Rightarrow> ('m, 'w, 'v, 'h) bus \<Rightarrow>
   ('m, 'w, 'v, 'h) conc \<Rightarrow> bool" for R ok b where
  conc_start: "conc_run R ok b \<lparr>c_bus = b, c_threads = (\<lambda>_. None), c_stored = []\<rparr>"
| conc_next: "conc_run R ok b s \<Longrightarrow> ok s \<Longrightarrow> conc_step R s l s' \<Longrightarrow> conc_run R ok b s'"

inductive conc_path ::
  "('m, 'w, 'v, 's, 'h) runtime \<Rightarrow> nat \<Rightarrow> ('m, 'w, 'v, 'h) conc \<Rightarrow> nat \<Rightarrow>
   ('m, 'w, 'v, 'h) conc \<Rightarrow> bool" for R i s where
  path_start: "conc_path R i s 0 s"
| path_next: "conc_path R i s n s' \<Longrightarrow> conc_step R s' l s'' \<Longrightarrow>
     conc_path R i s (if l = Some i then Suc n else n) s''"

section \<open>Effects of the single calls\<close>

lemma entry_existing: "topic R b t \<noteq> None \<Longrightarrow> entry_or_insert_new R t b = b"
  by (auto simp: entry_or_insert_new_def topic_def)

lemma entry_effect:
  assumes laws: "runtime_laws R V" and inv: "bus_inv R V b" and none: "topic R b t = None"
    and b': "b' = entry_or_insert_new R t b"
  shows "bus_inv R V b'" and "bus_ext R V b b'" and "bus_abs R b' = (bus_abs R b)(t \<mapsto> None)"
    and "msg_pending V b' = msg_pending V b" and "event_channels b' = event_channels b"
    and "receives R V b' u rx \<longleftrightarrow> receives R V b u rx"
proof -
  obtain tx where e: "topic R b' = (topic R b)(t \<mapsto> \<lparr>sender = tx, last_message = None\<rparr>)"
      "capacity (msg_view V) (message_channels b) tx = None"
      "capacity (msg_view V) (message_channels b') =
        (capacity (msg_view V) (message_channels b))(tx \<mapsto> CHANNEL_BUFFER_SIZE)"
      "\<forall>rx. listens (msg_view V) (message_channels b) rx \<noteq> Some tx"
      "listens (msg_view V) (message_channels b') = listens (msg_view V) (message_channels b)"
      "pending (msg_view V) (message_channels b') = pending (msg_view V) (message_channels b)"
    using entry_topic [OF laws none] unfolding b' by blast
  have ev: "event_channels b' = event_channels b" "topic_events_tx b' = topic_events_tx b"
    by (simp_all add: b')
  have fresh: "sender td \<noteq> tx" if "topic R b u = Some td" for u td
    using inv that e(2) unfolding bus_inv_def by fastforce
  show "bus_inv R V b'" using inv fresh unfolding bus_inv_def by (auto simp: e ev)
  show "bus_ext R V b b'" using none unfolding bus_ext_def by (auto simp: e ev)
  show "bus_abs R b' = (bus_abs R b)(t \<mapsto> None)" by (simp add: bus_abs_def e fun_eq_iff)
  show "msg_pending V b' = msg_pending V b" by (simp add: e)
  show "event_channels b' = event_channels b" by (rule ev)
  show "receives R V b' u rx \<longleftrightarrow> receives R V b u rx"
    using none e(4) by (auto simp: receives_def e)
qed

lemma announce_effect:
  assumes laws: "runtime_laws R V" and inv: "bus_inv R V b"
  shows "bus_inv R V (announce_topic R t b)" and "bus_ext R V b (announce_topic R t b)"
    and "bus_abs R (announce_topic R t b) = bus_abs R b"
  using inv announce_topic_events [OF laws, where t = t and b = b]
  by (simp_all add: bus_inv_def bus_ext_def bus_abs_def fun_eq_iff)

text \<open>What one call of one thread may do to the bus.\<close>

lemma call_effect:
  assumes laws: "runtime_laws R V" and inv: "bus_inv R V b"
    and call: "send_call R t m pc b = (pc', b')"
    and ready: "pc \<in> {At_announce, At_store} \<longrightarrow> topic R b t \<noteq> None"
  shows "bus_inv R V b' \<and> bus_ext R V b b'"
    and "pc' \<in> {At_announce, At_store} \<Longrightarrow> topic R b' t \<noteq> None"
    and "pc' = Returned r \<Longrightarrow> pc \<noteq> Returned r \<Longrightarrow> r = Inr ()"
    and "bus_abs R b' = (if pc = At_store then (bus_abs R b)(t \<mapsto> Some m)
      else if pc = At_entry \<and> topic R b t = None then (bus_abs R b)(t \<mapsto> None) else bus_abs R b)"
    and "receives R V b u rx \<Longrightarrow> length (msg_pending V b rx) < CHANNEL_BUFFER_SIZE \<Longrightarrow>
      msg_pending V b' rx = msg_pending V b rx @ (if pc = At_store \<and> t = u then [m] else [])"
proof -
  have all: "(bus_inv R V b' \<and> bus_ext R V b b') \<and>
    (pc' \<in> {At_announce, At_store} \<longrightarrow> topic R b' t \<noteq> None) \<and>
    (pc' = Returned r \<longrightarrow> pc \<noteq> Returned r \<longrightarrow> r = Inr ()) \<and>
    bus_abs R b' = (if pc = At_store then (bus_abs R b)(t \<mapsto> Some m)
      else if pc = At_entry \<and> topic R b t = None then (bus_abs R b)(t \<mapsto> None) else bus_abs R b) \<and>
    (receives R V b u rx \<longrightarrow> length (msg_pending V b rx) < CHANNEL_BUFFER_SIZE \<longrightarrow>
      msg_pending V b' rx = msg_pending V b rx @ (if pc = At_store \<and> t = u then [m] else []))"
  proof (cases pc)
    case At_contains
    then show ?thesis using call inv contains_topic [OF laws, of b t] by (auto split: if_splits)
  next
    case At_create_contains
    then show ?thesis using call inv contains_topic [OF laws, of b t] by (auto split: if_splits)
  next
    case At_entry
    then have b': "b' = entry_or_insert_new R t b" "pc' = At_announce" using call by auto
    show ?thesis
    proof (cases "topic R b t")
      case None
      note e = entry_effect [OF laws inv None b'(1)]
      have "topic R b' t \<noteq> None" using fun_cong [OF e(3), of t] by (auto simp: bus_abs_def)
      with e None At_entry b'(2) show ?thesis by simp
    next
      case (Some td)
      then have "b' = b" using b'(1) by (simp add: entry_existing)
      then show ?thesis using Some inv At_entry b'(2) by simp
    qed
  next
    case At_announce
    then have b': "b' = announce_topic R t b" "pc' = At_store" using call by auto
    then show ?thesis
      using announce_effect [OF laws inv, of t] ready At_announce by simp
  next
    case At_store
    then obtain td where td: "topic R b t = Some td" using ready by auto
    obtain r' where s: "store_and_send R t m b = (r', b')" "pc' = Returned r'"
      using call At_store by (auto split: prod.splits)
    note e = store_and_send_effect [OF laws inv td s(1)]
    have "msg_pending V b' rx = msg_pending V b rx @ (if t = u then [m] else [])"
      if "receives R V b u rx" "length (msg_pending V b rx) < CHANNEL_BUFFER_SIZE"
    proof (cases "t = u")
      case True
      then show ?thesis using e(5) that by simp
    next
      case False
      then have "\<not> receives R V b t rx" using receives_unique [OF inv that(1)] by blast
      then show ?thesis using e(7) False by simp
    qed
    then show ?thesis using e(1,2,3,4) s(2) At_store by auto
  next
    case (Returned r')
    then show ?thesis using call inv by auto
  qed
  then show "bus_inv R V b' \<and> bus_ext R V b b'"
    "pc' \<in> {At_announce, At_store} \<Longrightarrow> topic R b' t \<noteq> None"
    "pc' = Returned r \<Longrightarrow> pc \<noteq> Returned r \<Longrightarrow> r = Inr ()"
    "bus_abs R b' = (if pc = At_store then (bus_abs R b)(t \<mapsto> Some m)
      else if pc = At_entry \<and> topic R b t = None then (bus_abs R b)(t \<mapsto> None) else bus_abs R b)"
    "receives R V b u rx \<Longrightarrow> length (msg_pending V b rx) < CHANNEL_BUFFER_SIZE \<Longrightarrow>
      msg_pending V b' rx = msg_pending V b rx @ (if pc = At_store \<and> t = u then [m] else [])"
    by blast+
qed

lemma join_effect:
  assumes laws: "runtime_laws R V" and inv: "bus_inv R V b" and s: "subscribe_to_topic R t b = (r, b')"
  shows "bus_inv R V b' \<and> bus_ext R V b b' \<and> bus_abs R b' = bus_abs R b \<and>
    event_channels b' = event_channels b \<and> topic R b' = topic R b"
    and "receives R V b u rx \<Longrightarrow> msg_pending V b' rx = msg_pending V b rx"
proof -
  have all: "(bus_inv R V b' \<and> bus_ext R V b b' \<and> bus_abs R b' = bus_abs R b \<and>
      event_channels b' = event_channels b \<and> topic R b' = topic R b) \<and>
    (receives R V b u rx \<longrightarrow> msg_pending V b' rx = msg_pending V b rx)"
  proof (cases r)
    case None
    then have "b' = b"
      using s by (auto simp: subscribe_to_topic_def Let_def split: option.splits prod.splits)
    with inv show ?thesis by simp
  next
    case (Some p)
    obtain h lm where "p = (h, lm)" by (cases p)
    with s Some have s': "subscribe_to_topic R t b = (Some (h, lm), b')" by simp
    note e = subscribe_effect [OF laws inv s']
    have "msg_pending V b' rx = msg_pending V b rx" if "receives R V b u rx"
      using e(6,7) that by (cases "rx = h") auto
    with e(2,3,4,8,9) show ?thesis by simp
  qed
  then show "bus_inv R V b' \<and> bus_ext R V b b' \<and> bus_abs R b' = bus_abs R b \<and>
      event_channels b' = event_channels b \<and> topic R b' = topic R b"
    "receives R V b u rx \<Longrightarrow> msg_pending V b' rx = msg_pending V b rx"
    by blast+
qed

section \<open>The invariant of the threads\<close>

definition thread_ok ::
  "('m, 'w, 'v, 's, 'h) runtime \<Rightarrow> ('m, 'w, 'v, 'h) bus \<Rightarrow> (rstring \<times> bytes) list \<Rightarrow> thread \<Rightarrow> bool" where
  "thread_ok R b stored th \<longleftrightarrow>
     (th_pc th \<in> {At_announce, At_store} \<longrightarrow> topic R b (th_topic th) \<noteq> None) \<and>
     (\<forall>r. th_pc th = Returned r \<longrightarrow> r = Inr () \<and> (th_topic th, th_message th) \<in> set stored)"

definition conc_inv ::
  "('m, 'w, 'v, 's, 'h) runtime \<Rightarrow> ('w, 'v, 'h) views \<Rightarrow> ('m, 'w, 'v, 'h) conc \<Rightarrow> bool" where
  "conc_inv R V s \<longleftrightarrow> bus_inv R V (c_bus s) \<and>
     (\<forall>i th. c_threads s i = Some th \<longrightarrow> thread_ok R (c_bus s) (c_stored s) th)"

lemma thread_okD:
  "thread_ok R b st th \<Longrightarrow> th_pc th \<in> {At_announce, At_store} \<longrightarrow> topic R b (th_topic th) \<noteq> None"
  unfolding thread_ok_def by blast

lemma thread_ok_mono:
  "thread_ok R b st th \<Longrightarrow> bus_ext R V b b' \<Longrightarrow> set st \<subseteq> set st' \<Longrightarrow> thread_ok R b' st' th"
  unfolding thread_ok_def using bus_ext_topic by blast

lemma conc_step_inv:
  assumes laws: "runtime_laws R V" and inv: "conc_inv R V s" and step: "conc_step R s l s'"
  shows "conc_inv R V s' \<and> bus_ext R V (c_bus s) (c_bus s')"
  using step
proof cases
  case (begin_send i t m)
  then show ?thesis using inv by (simp add: conc_inv_def thread_ok_def)
next
  case (call i th pc b)
  have b: "bus_inv R V (c_bus s)" and th: "thread_ok R (c_bus s) (c_stored s) th"
    using inv call(3) by (auto simp: conc_inv_def)
  note e = call_effect [OF laws b call(4) thread_okD [OF th]]
  let ?stored = "c_stored s @ (if th_pc th = At_store then [(th_topic th, th_message th)] else [])"
  have "thread_ok R b ?stored (th\<lparr>th_pc := pc\<rparr>)"
  proof (cases "th_pc th = At_store")
    case True
    then show ?thesis using call(4) e(3) by (auto simp: thread_ok_def split: prod.splits)
  next
    case False
    show ?thesis
    proof (cases "\<exists>r. pc = Returned r")
      case ret: True
      then have "th_pc th = pc" using call(4) False by (cases "th_pc th") (auto split: if_splits)
      with th ret show ?thesis by (auto simp: thread_ok_def)
    next
      case ret: False
      then show ?thesis using e(2) by (auto simp: thread_ok_def)
    qed
  qed
  moreover have "thread_ok R b ?stored th'" if "c_threads s j = Some th'" for j th'
    by (rule thread_ok_mono [OF _ conjunct2 [OF e(1)]]) (use inv that in \<open>auto simp: conc_inv_def\<close>)
  ultimately show ?thesis using e(1) by (auto simp: call(2) conc_inv_def)
next
  case (join t r b)
  have "bus_inv R V (c_bus s)" using inv by (simp add: conc_inv_def)
  note e = join_effect(1) [OF laws this join(3)]
  have "thread_ok R b (c_stored s) th" if "c_threads s j = Some th" for j th
    using thread_ok_mono [of R "c_bus s" "c_stored s" th V b "c_stored s"] e inv that
    by (auto simp: conc_inv_def)
  with e show ?thesis by (auto simp: join(2) conc_inv_def)
qed

lemma conc_run_inv:
  assumes laws: "runtime_laws R V" and b: "bus_inv R V b" and run: "conc_run R ok b s"
  shows "conc_inv R V s \<and> bus_ext R V b (c_bus s)"
  using run
proof induction
  case conc_start
  with b show ?case by (simp add: conc_inv_def)
next
  case (conc_next s l s')
  then show ?case using conc_step_inv [OF laws] bus_ext_trans by blast
qed

section \<open>Linearization\<close>

text \<open>The messages stored on a topic so far, in order.\<close>

definition stored_on :: "rstring \<Rightarrow> (rstring \<times> bytes) list \<Rightarrow> bytes list" where
  "stored_on t ps = List.map snd (filter (\<lambda>p. fst p = t) ps)"

lemma stored_on_append: "stored_on t (xs @ ys) = stored_on t xs @ stored_on t ys"
  by (simp add: stored_on_def)

text \<open>No receiver of a topic is at the capacity of its channel.\<close>

definition no_lag ::
  "('m, 'w, 'v, 's, 'h) runtime \<Rightarrow> ('w, 'v, 'h) views \<Rightarrow> ('m, 'w, 'v, 'h) conc \<Rightarrow> bool" where
  "no_lag R V s \<longleftrightarrow>
     (\<forall>t rx. receives R V (c_bus s) t rx \<longrightarrow> length (msg_pending V (c_bus s) rx) < CHANNEL_BUFFER_SIZE)"

definition linear ::
  "('m, 'w, 'v, 's, 'h) runtime \<Rightarrow> ('w, 'v, 'h) views \<Rightarrow> ('m, 'w, 'v, 'h) bus \<Rightarrow>
   ('m, 'w, 'v, 'h) conc \<Rightarrow> bool" where
  "linear R V b s \<longleftrightarrow>
     (\<forall>t. stored_on t (c_stored s) \<noteq> [] \<longrightarrow>
        bus_abs R (c_bus s) t = Some (Some (last (stored_on t (c_stored s))))) \<and>
     (\<forall>t lm. stored_on t (c_stored s) = [] \<longrightarrow> bus_abs R b t = Some lm \<longrightarrow>
        bus_abs R (c_bus s) t = Some lm) \<and>
     (\<forall>t rx. receives R V b t rx \<longrightarrow>
        msg_pending V (c_bus s) rx = msg_pending V b rx @ stored_on t (c_stored s))"

lemma linear_step:
  assumes laws: "runtime_laws R V" and inv: "conc_inv R V s" and ext: "bus_ext R V b (c_bus s)"
    and lag: "no_lag R V s" and lin: "linear R V b s" and step: "conc_step R s l s'"
  shows "linear R V b s'"
  using step
proof cases
  case (begin_send i t m)
  then show ?thesis using lin by (simp add: linear_def)
next
  case (call i th pc b')
  have b: "bus_inv R V (c_bus s)" and th: "thread_ok R (c_bus s) (c_stored s) th"
    using inv call(3) by (auto simp: conc_inv_def)
  note e = call_effect [OF laws b call(4) thread_okD [OF th]]
  have st: "stored_on t (c_stored s') = stored_on t (c_stored s) @
      (if th_pc th = At_store \<and> th_topic th = t then [th_message th] else [])" for t
    by (simp add: call(2) stored_on_append) (simp add: stored_on_def)
  have abs': "bus_abs R (c_bus s') t = (if th_pc th = At_store \<and> th_topic th = t then Some (Some (th_message th))
      else bus_abs R (c_bus s) t)" if "th_pc th \<noteq> At_entry \<or> topic R (c_bus s) t \<noteq> None" for t
    using e(4) that by (auto simp: call(2))
  show ?thesis
    unfolding linear_def st
  proof (intro conjI allI impI)
    fix t
    let ?new = "th_pc th = At_store \<and> th_topic th = t"
    assume ne: "stored_on t (c_stored s) @ (if ?new then [th_message th] else []) \<noteq> []"
    show "bus_abs R (c_bus s') t =
        Some (Some (last (stored_on t (c_stored s) @ (if ?new then [th_message th] else []))))"
    proof (cases ?new)
      case True
      then show ?thesis using abs' [of t] by simp
    next
      case False
      then have old: "bus_abs R (c_bus s) t = Some (Some (last (stored_on t (c_stored s))))"
        using ne lin by (auto simp: linear_def)
      then have "topic R (c_bus s) t \<noteq> None" by (auto simp: bus_abs_def)
      with abs' [of t] old False show ?thesis by auto
    qed
  next
    fix t lm
    let ?new = "th_pc th = At_store \<and> th_topic th = t"
    assume nil: "stored_on t (c_stored s) @ (if ?new then [th_message th] else []) = []"
      and lm: "bus_abs R b t = Some lm"
    then have old: "bus_abs R (c_bus s) t = Some lm" using lin by (auto simp: linear_def)
    then have "topic R (c_bus s) t \<noteq> None" by (auto simp: bus_abs_def)
    moreover have "\<not> ?new" using nil by (auto split: if_splits)
    ultimately show "bus_abs R (c_bus s') t = Some lm" using abs' [of t] old by auto
  next
    fix t rx assume rx: "receives R V b t rx"
    then have rx': "receives R V (c_bus s) t rx" by (rule bus_ext_receives [OF ext])
    then have "length (msg_pending V (c_bus s) rx) < CHANNEL_BUFFER_SIZE"
      using lag by (auto simp: no_lag_def)
    from e(5) [OF rx' this] lin rx
    show "msg_pending V (c_bus s') rx = msg_pending V b rx @
        stored_on t (c_stored s) @ (if th_pc th = At_store \<and> th_topic th = t then [th_message th] else [])"
      by (simp add: call(2) linear_def)
  qed
next
  case (join t r b')
  have "bus_inv R V (c_bus s)" using inv by (simp add: conc_inv_def)
  note e = join_effect [OF laws this join(3)]
  have "msg_pending V b' rx = msg_pending V (c_bus s) rx" if "receives R V b u rx" for u rx
    using e(2) [OF bus_ext_receives [OF ext that]] .
  with e(1) lin show ?thesis by (simp add: join(2) linear_def)
qed

lemma conc_run_linear:
  assumes laws: "runtime_laws R V" and b: "bus_inv R V b" and run: "conc_run R (no_lag R V) b s"
  shows "linear R V b s"
  using run
proof induction
  case conc_start
  then show ?case by (simp add: linear_def stored_on_def)
next
  case (conc_next s l s')
  have "conc_inv R V s" "bus_ext R V b (c_bus s)"
    using conc_run_inv [OF laws b conc_next.hyps(1)] by simp_all
  then show ?case by (rule linear_step [OF laws _ _ conc_next.hyps(2) conc_next.IH conc_next.hyps(3)])
qed

section \<open>Announcements\<close>

text \<open>
  Every topic that was created is announced to the receiver \<open>rx\<close>, or a thread is about to.
\<close>

definition announced ::
  "('m, 'w, 'v, 's, 'h) runtime \<Rightarrow> ('w, 'v, 'h) views \<Rightarrow> ('m, 'w, 'v, 'h) bus \<Rightarrow> 'h \<Rightarrow>
   ('m, 'w, 'v, 'h) conc \<Rightarrow> bool" where
  "announced R V b rx s \<longleftrightarrow>
     (\<forall>t. topic R b t = None \<longrightarrow> topic R (c_bus s) t \<noteq> None \<longrightarrow>
        Created t \<in> set (ev_pending V (c_bus s) rx) \<or>
        (\<exists>i th. c_threads s i = Some th \<and> th_pc th = At_announce \<and> th_topic th = t))"

definition event_room ::
  "('w, 'v, 'h) views \<Rightarrow> 'h \<Rightarrow> ('m, 'w, 'v, 'h) conc \<Rightarrow> bool" where
  "event_room V rx s \<longleftrightarrow> length (ev_pending V (c_bus s) rx) < CHANNEL_BUFFER_SIZE"

lemma call_events:
  assumes laws: "runtime_laws R V" and inv: "bus_inv R V b"
    and call: "send_call R t m pc b = (pc', b')"
    and rx: "listens (ev_view V) (event_channels b) rx = Some (topic_events_tx b)"
      "length (ev_pending V b rx) < CHANNEL_BUFFER_SIZE"
  shows "set (ev_pending V b rx) \<subseteq> set (ev_pending V b' rx)"
    and "pc = At_announce \<Longrightarrow> Created t \<in> set (ev_pending V b' rx)"
    and "topic R b' u \<noteq> None \<Longrightarrow> topic R b u = None \<Longrightarrow> pc' = At_announce \<and> u = t"
proof -
  have ann: "ev_pending V (announce_topic R t b) rx = ev_pending V b rx @ [Created t]"
    using announce_topic_events(3) [OF laws rx(1) _ rx(2)] inv by (simp add: bus_inv_def)
  have store: "event_channels (snd (store_and_send R t m b)) = event_channels b \<and>
      (topic R (snd (store_and_send R t m b)) u \<noteq> None \<longrightarrow> topic R b u \<noteq> None)"
  proof (cases "topic R b t")
    case None
    then show ?thesis by (simp add: store_and_send_def topic_def)
  next
    case (Some td)
    obtain r b1 where s: "store_and_send R t m b = (r, b1)" by (metis prod.exhaust)
    note e = store_and_send_effect [OF laws inv Some s]
    have "topic R b u \<noteq> None" if "topic R b1 u \<noteq> None"
    proof (cases "u = t")
      case False
      then have "bus_abs R b1 u = bus_abs R b u" by (simp add: e(4))
      then show ?thesis using that by (cases "topic R b u") (auto simp: bus_abs_def)
    qed (simp add: Some)
    with e(8) s show ?thesis by simp
  qed
  have entry: "event_channels (entry_or_insert_new R t b) = event_channels b" by simp
  have new: "u = t" if "topic R (entry_or_insert_new R t b) u \<noteq> None" "topic R b u = None"
  proof (cases "topic R b t")
    case None
    then show ?thesis using entry_topic [OF laws None] that by (auto split: if_splits)
  next
    case (Some td)
    then show ?thesis using that entry_existing [of R b t] by simp
  qed
  show "set (ev_pending V b rx) \<subseteq> set (ev_pending V b' rx)"
    using call ann store entry by (cases pc) (auto split: if_splits prod.splits)
  show "Created t \<in> set (ev_pending V b' rx)" if "pc = At_announce" using call ann that by auto
  show "pc' = At_announce \<and> u = t" if "topic R b' u \<noteq> None" "topic R b u = None"
    using call store new that by (cases pc) (auto split: if_splits prod.splits)
qed

lemma announced_step:
  assumes laws: "runtime_laws R V" and inv: "conc_inv R V s"
    and rx: "listens (ev_view V) (event_channels (c_bus s)) rx = Some (topic_events_tx (c_bus s))"
    and room: "event_room V rx s" and ann: "announced R V b rx s" and step: "conc_step R s l s'"
  shows "announced R V b rx s'"
  using step
proof cases
  case (begin_send i t m)
  have "\<exists>j th. c_threads s' j = Some th \<and> th_pc th = At_announce \<and> th_topic th = u"
    if "c_threads s j = Some th" "th_pc th = At_announce" "th_topic th = u" for j th u
    using that begin_send by (intro exI [of _ j] exI [of _ th]) auto
  moreover have "c_bus s' = c_bus s" by (simp add: begin_send(2))
  ultimately show ?thesis using ann unfolding announced_def by metis
next
  case (call i th pc b')
  have b: "bus_inv R V (c_bus s)" using inv by (simp add: conc_inv_def)
  note e = call_events [OF laws b call(4) rx room [unfolded event_room_def]]
  have s': "c_bus s' = b'" "c_threads s' = (c_threads s)(i := Some (th\<lparr>th_pc := pc\<rparr>))"
    by (simp_all add: call(2))
  have "Created t \<in> set (ev_pending V b' rx) \<or>
      (\<exists>j th'. c_threads s' j = Some th' \<and> th_pc th' = At_announce \<and> th_topic th' = t)"
    if t: "topic R b t = None" "topic R b' t \<noteq> None" for t
  proof (cases "topic R (c_bus s) t")
    case None
    with e(3) t(2) have "pc = At_announce" "t = th_topic th" by blast+
    then show ?thesis by (intro disjI2 exI [of _ i]) (simp add: s'(2))
  next
    case (Some td)
    with ann t(1) consider "Created t \<in> set (ev_pending V (c_bus s) rx)"
      | j th' where "c_threads s j = Some th'" "th_pc th' = At_announce" "th_topic th' = t"
      unfolding announced_def by blast
    then show ?thesis
    proof cases
      case 1
      with e(1) show ?thesis by blast
    next
      case (2 j th')
      show ?thesis
      proof (cases "j = i")
        case True
        with 2 call(3) e(2) show ?thesis by simp
      next
        case False
        with 2 show ?thesis by (intro disjI2 exI [of _ j] exI [of _ th']) (simp add: s'(2))
      qed
    qed
  qed
  then show ?thesis by (simp add: announced_def s'(1))
next
  case (join t r b')
  have "bus_inv R V (c_bus s)" using inv by (simp add: conc_inv_def)
  from join_effect(1) [OF laws this join(3)] ann show ?thesis by (simp add: join(2) announced_def)
qed

lemma conc_run_announced:
  assumes laws: "runtime_laws R V" and b: "bus_inv R V b"
    and rx: "listens (ev_view V) (event_channels b) rx = Some (topic_events_tx b)"
    and run: "conc_run R (event_room V rx) b s"
  shows "announced R V b rx s"
  using run
proof induction
  case conc_start
  then show ?case by (simp add: announced_def)
next
  case (conc_next s l s')
  have i: "conc_inv R V s" "bus_ext R V b (c_bus s)"
    using conc_run_inv [OF laws b conc_next.hyps(1)] by simp_all
  show ?case
    by (rule announced_step [OF laws i(1) bus_ext_event_receiver [OF i(2) rx] conc_next.hyps(2)
          conc_next.IH conc_next.hyps(3)])
qed

section \<open>Progress\<close>

text \<open>The calls a thread has yet to make, at most.\<close>

fun calls_left :: "send_pc \<Rightarrow> nat" where
  "calls_left At_contains = 5"
| "calls_left At_create_contains = 4"
| "calls_left At_entry = 3"
| "calls_left At_announce = 2"
| "calls_left At_store = 1"
| "calls_left (Returned r) = 0"

lemma send_call_progress:
  "send_call R t m pc b = (pc', b') \<Longrightarrow> calls_left pc' \<le> calls_left pc - 1"
  by (cases pc) (auto split: if_splits prod.splits)

lemma calls_left_0: "calls_left pc = 0 \<longleftrightarrow> (\<exists>r. pc = Returned r)"
  by (cases pc) auto

lemma path_progress:
  assumes "conc_path R i s n s'" and "c_threads s i = Some th"
  shows "\<exists>th'. c_threads s' i = Some th' \<and> th_topic th' = th_topic th \<and>
    th_message th' = th_message th \<and> calls_left (th_pc th') \<le> calls_left (th_pc th) - n"
  using assms(1)
proof induction
  case path_start
  with assms(2) show ?case by simp
next
  case (path_next n s' l s'')
  then obtain th' where th': "c_threads s' i = Some th'" "th_topic th' = th_topic th"
      "th_message th' = th_message th" "calls_left (th_pc th') \<le> calls_left (th_pc th) - n"
    by blast
  from path_next.hyps(2) show ?case
  proof cases
    case (begin_send j t m)
    with th' show ?thesis by (cases "j = i") auto
  next
    case (call j thj pc b)
    show ?thesis
    proof (cases "j = i")
      case True
      with call(3) th'(1) have thj: "thj = th'" by simp
      from send_call_progress [OF call(4)] th'(4) have "calls_left pc \<le> calls_left (th_pc th) - Suc n"
        unfolding thj by linarith
      with th' True show ?thesis by (simp add: call(1,2) thj)
    next
      case False
      with th' show ?thesis by (simp add: call(1,2))
    qed
  next
    case (join t r b)
    with th' show ?thesis by simp
  qed
qed

lemma path_run:
  "conc_path R i s n s' \<Longrightarrow> conc_run R (\<lambda>_. True) b s \<Longrightarrow> conc_run R (\<lambda>_. True) b s'"
  by (induction rule: conc_path.induct) (auto intro: conc_next)

end
