(* ===== verification/Thread_Claims.thy ===== *)
theory Thread_Claims
  imports Bus_Threads
begin

text \<open>
  The properties of concurrent sends: each returns success after a bounded number of its own calls,
  together they are linearizable, and no topic they create goes unannounced.
\<close>

section \<open>A run of one thread\<close>

definition th_a :: "send_pc \<Rightarrow> thread" where
  "th_a pc = \<lparr>th_topic = str ''a'', th_message = [2], th_pc = pc\<rparr>"

definition st ::
  "('m, 'w, 'v, 'h) bus \<Rightarrow> send_pc \<Rightarrow> (rstring \<times> bytes) list \<Rightarrow> ('m, 'w, 'v, 'h) conc" where
  "st b pc ps = \<lparr>c_bus = b, c_threads = (\<lambda>_. None)(0 := Some (th_a pc)), c_stored = ps\<rparr>"

lemma st_step:
  assumes "send_call R (str ''a'') [2] pc b = (pc', b')"
  shows "conc_step R (st b pc ps) (Some 0)
    (st b' pc' (ps @ (if pc = At_store then [(str ''a'', [2])] else [])))"
  using call [of "st b pc ps" 0 "th_a pc" R pc' b'] assms
  by (cases "pc = At_store") (simp_all add: st_def th_a_def)

lemma st_begin: "ok \<lparr>c_bus = b, c_threads = (\<lambda>_. None), c_stored = []\<rparr> \<Longrightarrow> conc_run R ok b (st b At_contains [])"
  using conc_next [OF conc_start _ begin_send [of _ 0], where R = R and ok = ok and b = b]
  by (simp add: st_def th_a_def)

lemma st_call:
  "conc_run R ok b0 (st b pc ps) \<Longrightarrow> ok (st b pc ps) \<Longrightarrow> send_call R (str ''a'') [2] pc b = (pc', b') \<Longrightarrow>
   conc_run R ok b0 (st b' pc' (ps @ (if pc = At_store then [(str ''a'', [2])] else [])))"
  by (rule conc_next [OF _ _ st_step])

lemma st_path:
  assumes "conc_path R 0 s n (st b pc ps)" and "send_call R (str ''a'') [2] pc b = (pc', b')"
  shows "conc_path R 0 s (Suc n) (st b' pc' (ps @ (if pc = At_store then [(str ''a'', [2])] else [])))"
  using path_next [OF assms(1) st_step [OF assms(2)]] by simp

text \<open>A send on a topic that exists, with a receiver.\<close>

definition bus_sub' :: "((rstring \<times> nat topic_data) list, bytes chans, topic_event chans, nat) bus" where
  "bus_sub' = \<lparr>topics = [(str ''a'', \<lparr>sender = 1, last_message = Some [2]\<rparr>)], topic_events_tx = 1,
     message_channels = \<lparr>senders = [(1, CHANNEL_BUFFER_SIZE)], receivers = [(2, 1, [[2]])]\<rparr>,
     event_channels = \<lparr>senders = [(1, CHANNEL_BUFFER_SIZE)], receivers = []\<rparr>\<rparr>"

lemma calls_sub:
  "send_call rt0 (str ''a'') [2] At_contains bus_sub = (At_store, bus_sub)"
  "send_call rt0 (str ''a'') [2] At_store bus_sub = (Returned (Inr ()), bus_sub')"
  by (simp_all add: bus_sub_eq bus_sub'_def rt0_simps)

lemma no_lag_sub: "c_bus s = bus_sub \<Longrightarrow> no_lag rt0 views0 s"
  by (auto simp: no_lag_def bus_sub_eq views0_def list_view_def split: option.splits if_splits)

lemma run_sub: "conc_run rt0 (no_lag rt0 views0) bus_sub (st bus_sub' (Returned (Inr ())) [(str ''a'', [2])])"
  using st_call [OF st_call [OF st_begin _ calls_sub(1)] _ calls_sub(2), of "no_lag rt0 views0"]
  by (simp add: no_lag_sub st_def)

lemma path_sub:
  "conc_path rt0 0 (st bus_sub At_contains []) 5 (st bus_sub' (Returned (Inr ())) [(str ''a'', [2])])"
proof -
  have ret: "send_call rt0 (str ''a'') [2] (Returned (Inr ())) bus_sub' = (Returned (Inr ()), bus_sub')"
    by simp
  show ?thesis
    using st_path [OF st_path [OF st_path [OF st_path [OF st_path [OF path_start [of rt0 0
      "st bus_sub At_contains []"] calls_sub(1)] calls_sub(2)] ret] ret] ret]
    by (simp add: eval_nat_numeral)
qed

text \<open>A send that creates its topic, with a receiver of topic events.\<close>

definition bus_ev :: "(rstring \<times> nat topic_data) list \<Rightarrow> (nat \<times> nat) list \<Rightarrow> topic_event list \<Rightarrow>
   ((rstring \<times> nat topic_data) list, bytes chans, topic_event chans, nat) bus" where
  "bus_ev ts chs es = \<lparr>topics = ts, topic_events_tx = 1,
     message_channels = \<lparr>senders = chs, receivers = []\<rparr>,
     event_channels = \<lparr>senders = [(1, CHANNEL_BUFFER_SIZE)], receivers = [(2, 1, es)]\<rparr>\<rparr>"

lemma bus_inv_ev: "bus_inv rt0 views0 (bus_ev [] [] [])"
  by (simp add: bus_inv_def bus_ev_def topic_def rt0_def list_dashmap_def views0_def list_view_def)

definition new_a :: "bytes option \<Rightarrow> (rstring \<times> nat topic_data) list" where
  "new_a lm = [(str ''a'', \<lparr>sender = 1, last_message = lm\<rparr>)]"

lemma calls_ev:
  "send_call rt0 (str ''a'') [2] At_contains (bus_ev [] [] []) = (At_create_contains, bus_ev [] [] [])"
  "send_call rt0 (str ''a'') [2] At_create_contains (bus_ev [] [] []) = (At_entry, bus_ev [] [] [])"
  "send_call rt0 (str ''a'') [2] At_entry (bus_ev [] [] []) =
     (At_announce, bus_ev (new_a None) [(1, CHANNEL_BUFFER_SIZE)] [])"
  "send_call rt0 (str ''a'') [2] At_announce (bus_ev (new_a None) [(1, CHANNEL_BUFFER_SIZE)] []) =
     (At_store, bus_ev (new_a None) [(1, CHANNEL_BUFFER_SIZE)] [Created (str ''a'')])"
  by (simp_all add: bus_ev_def new_a_def rt0_simps)

lemma room_ev: "c_bus s = bus_ev ts chs [] \<Longrightarrow> event_room views0 2 s"
  by (simp add: event_room_def bus_ev_def views0_def list_view_def)

lemma run_ev: "conc_run rt0 (event_room views0 2) (bus_ev [] [] [])
    (st (bus_ev (new_a None) [(1, CHANNEL_BUFFER_SIZE)] [Created (str ''a'')]) At_store [])"
  using st_call [OF st_call [OF st_call [OF st_call [OF st_begin _ calls_ev(1)] _ calls_ev(2)] _
      calls_ev(3)] _ calls_ev(4), of "event_room views0 2"]
  by (simp add: room_ev st_def)

section \<open>Properties\<close>

text \<open>
  Concurrent sends succeed. However the calls of any number of sends and subscriptions interleave,
  a send that has returned returned success (the branch "Topic not found" is unreachable for every
  thread), its topic exists and its message was stored and broadcast.
\<close>
theorem concurrent_sends_succeed:
  assumes laws: "runtime_laws R V" and b: "bus_inv R V b" and run: "conc_run R ok b s"
    and th: "c_threads s i = Some th" "th_pc th = Returned r"
  shows "r = Inr () \<and> (th_topic th, th_message th) \<in> set (c_stored s)"
  using conc_run_inv [OF laws b run] th unfolding conc_inv_def thread_ok_def by blast

theorem concurrent_sends_succeed_witness:
  "Inr () = (Inr () :: bus_error + unit) \<and>
   (th_topic (th_a (Returned (Inr ()))), th_message (th_a (Returned (Inr ())))) \<in>
     set (c_stored (st bus_sub' (Returned (Inr ())) [(str ''a'', [2])]))"
  by (rule concurrent_sends_succeed [OF runtime_laws0 bus_inv_sub run_sub, of 0])
    (simp_all add: st_def th_a_def)

text \<open>
  C21: concurrent sends are linearizable, while no receiver is full. However their calls interleave, if
  before each call no receiver of a topic holds as many messages as its channel can (\<open>no_lag\<close>), the order
  in which the threads store their messages explains everything the bus shows: the last message of each
  topic that had a receiver at the start is the last one stored on it, and that receiver has exactly what it
  had and then the messages stored on the topic since, in that order, each once. (A full receiver drops its
  oldest message.)
\<close>
theorem concurrent_sends_linearize:
  assumes laws: "runtime_laws R V" and b: "bus_inv R V b" and run: "conc_run R (no_lag R V) b s"
    and rx: "receives R V b t rx"
  shows "msg_pending V (c_bus s) rx = msg_pending V b rx @ stored_on t (c_stored s) \<and>
    bus_abs R (c_bus s) t =
      (if stored_on t (c_stored s) = [] then bus_abs R b t
       else Some (Some (last (stored_on t (c_stored s)))))"
proof -
  note l = conc_run_linear [OF laws b run]
  obtain td where "topic R b t = Some td" using rx by (auto simp: receives_def)
  then have "bus_abs R b t = Some (last_message td)" by (simp add: bus_abs_def)
  with l rx show ?thesis by (auto simp: linear_def)
qed

theorem concurrent_sends_linearize_witness:
  "msg_pending views0 (c_bus (st bus_sub' (Returned (Inr ())) [(str ''a'', [2])])) 2 =
     msg_pending views0 bus_sub 2 @
       stored_on (str ''a'') (c_stored (st bus_sub' (Returned (Inr ())) [(str ''a'', [2])])) \<and>
   bus_abs rt0 (c_bus (st bus_sub' (Returned (Inr ())) [(str ''a'', [2])])) (str ''a'') =
     (if stored_on (str ''a'') (c_stored (st bus_sub' (Returned (Inr ())) [(str ''a'', [2])])) = []
      then bus_abs rt0 bus_sub (str ''a'')
      else Some (Some (last (stored_on (str ''a'')
        (c_stored (st bus_sub' (Returned (Inr ())) [(str ''a'', [2])]))))))"
  by (rule concurrent_sends_linearize [OF runtime_laws0 bus_inv_sub run_sub])
    (simp add: receives_def topic_def bus_sub_eq rt0_def list_dashmap_def views0_def list_view_def)

text \<open>
  No creation goes unannounced. However the calls of concurrent sends interleave, once no thread
  is between inserting a topic and announcing it, every topic created since is announced to every
  receiver of topic events that was there at the start.
\<close>
theorem concurrent_creation_announced:
  assumes laws: "runtime_laws R V" and b: "bus_inv R V b"
    and rx: "listens (ev_view V) (event_channels b) rx = Some (topic_events_tx b)"
    and run: "conc_run R (event_room V rx) b s"
    and idle: "\<And>i th. c_threads s i = Some th \<Longrightarrow> th_pc th \<noteq> At_announce"
    and t: "topic R b t = None" "topic R (c_bus s) t \<noteq> None"
  shows "Created t \<in> set (ev_pending V (c_bus s) rx)"
  using conc_run_announced [OF laws b rx run] idle t unfolding announced_def by blast

theorem concurrent_creation_announced_witness:
  "Created (str ''a'') \<in> set (ev_pending views0
     (c_bus (st (bus_ev (new_a None) [(1, CHANNEL_BUFFER_SIZE)] [Created (str ''a'')]) At_store [])) 2)"
  by (rule concurrent_creation_announced [OF runtime_laws0 bus_inv_ev _ run_ev])
    (auto simp: st_def th_a_def bus_ev_def new_a_def topic_def rt0_def list_dashmap_def views0_def
      list_view_def split: if_splits)

text \<open>
  C24: sends are wait-free. Whatever the other threads do in between, and even if they stop half-way,
  a send has returned, with success, after five calls of its own at most.
\<close>
theorem concurrent_sends_wait_free:
  assumes laws: "runtime_laws R V" and b: "bus_inv R V b" and run: "conc_run R (\<lambda>_. True) b s"
    and th: "c_threads s i = Some th" and path: "conc_path R i s n s'" and n: "5 \<le> n"
  shows "\<exists>th'. c_threads s' i = Some th' \<and> th_pc th' = Returned (Inr ()) \<and>
    th_topic th' = th_topic th \<and> th_message th' = th_message th \<and>
    (th_topic th, th_message th) \<in> set (c_stored s')"
proof -
  obtain th' where th': "c_threads s' i = Some th'" "th_topic th' = th_topic th"
      "th_message th' = th_message th" "calls_left (th_pc th') \<le> calls_left (th_pc th) - n"
    using path_progress [OF path th] by blast
  have "calls_left (th_pc th) \<le> 5" by (cases "th_pc th") auto
  with th'(4) n have "calls_left (th_pc th') = 0" by simp
  then obtain r where r: "th_pc th' = Returned r" by (auto simp: calls_left_0)
  have "conc_inv R V s'" using conc_run_inv [OF laws b path_run [OF path run]] by blast
  then have "thread_ok R (c_bus s') (c_stored s') th'" using th'(1) by (simp add: conc_inv_def)
  with r have "r = Inr () \<and> (th_topic th', th_message th') \<in> set (c_stored s')"
    by (simp add: thread_ok_def)
  with r th' show ?thesis by simp
qed

theorem concurrent_sends_wait_free_witness:
  "\<exists>th'. c_threads (st bus_sub' (Returned (Inr ())) [(str ''a'', [2])]) 0 = Some th' \<and>
     th_pc th' = Returned (Inr ()) \<and> th_topic th' = th_topic (th_a At_contains) \<and>
     th_message th' = th_message (th_a At_contains) \<and>
     (th_topic (th_a At_contains), th_message (th_a At_contains)) \<in>
       set (c_stored (st bus_sub' (Returned (Inr ())) [(str ''a'', [2])]))"
  by (rule concurrent_sends_wait_free [OF runtime_laws0 bus_inv_sub st_begin _ path_sub])
    (simp_all add: st_def)

text \<open>
  A subscription that runs concurrently with sends misses no topic. If a handler lists the topics
  (after it has added its pattern) on the bus \<open>b\<close> and other threads go on, then every topic there is
  when it has gone through the list was in the list, or its creation event is among those the
  handler has yet to receive, or a thread is just about to send that event.
\<close>
theorem concurrent_subscription_misses_nothing:
  assumes laws: "runtime_laws R V" and b: "bus_inv R V b"
    and rx: "listens (ev_view V) (event_channels b) rx = Some (topic_events_tx b)"
    and run: "conc_run R (event_room V rx) b s" and t: "t \<in> set (list_topics R (c_bus s))"
  shows "t \<in> set (list_topics R b) \<or> Created t \<in> set (ev_pending V (c_bus s) rx) \<or>
    (\<exists>i th. c_threads s i = Some th \<and> th_pc th = At_announce \<and> th_topic th = t)"
  using conc_run_announced [OF laws b rx run] t
  unfolding announced_def by (auto simp: list_topics_mem [OF laws])

theorem concurrent_subscription_misses_nothing_witness:
  "str ''a'' \<in> set (list_topics rt0 (bus_ev [] [] [])) \<or>
   Created (str ''a'') \<in> set (ev_pending views0
     (c_bus (st (bus_ev (new_a None) [(1, CHANNEL_BUFFER_SIZE)] [Created (str ''a'')]) At_store [])) 2) \<or>
   (\<exists>i th. c_threads (st (bus_ev (new_a None) [(1, CHANNEL_BUFFER_SIZE)] [Created (str ''a'')]) At_store [])
       i = Some th \<and> th_pc th = At_announce \<and> th_topic th = str ''a'')"
  by (rule concurrent_subscription_misses_nothing [OF runtime_laws0 bus_inv_ev _ run_ev])
    (simp_all add: st_def bus_ev_def new_a_def list_topics_def rt0_def list_dashmap_def views0_def
      list_view_def)

end
