(* ===== verification/Subscribe_Threads.thy ===== *)
theory Subscribe_Threads
  imports Thread_Claims Connection_Correct Outbox
begin

text \<open>
  \<open>ConnectionHandler::handle_subscribe\<close> of \<open>lbroker/src/server.rs\<close> at the granularity of its calls on
  the bus, while any number of other threads send and subscribe (theory \<open>Bus_Threads\<close>): the pattern is
  in the handler's tree, the handler lists the topics, one shard of the map at a time, and then joins
  those that match one by one.
\<close>

section \<open>The calls of one subscription\<close>

text \<open>
  The handler; how many shards of the map it has listed and the topics found there; the topics it has yet
  to go through (None until the list is complete); and, as a ghost, what each join sent. The list is not
  a snapshot: between two shards, as between two joins, other threads may run.
\<close>

record ('s, 'h) subscriber =
  sb_conn :: "('s, 'h) conn"
  sb_shard :: nat
  sb_found :: "rstring list"
  sb_todo :: "rstring list option"
  sb_joined :: "(rstring \<times> conn_output list) list"

inductive sub_step ::
  "('m, 'w, 'v, 's, 'h) runtime \<Rightarrow> ('m, 'w, 'v, 'h) conc \<times> ('s, 'h) subscriber \<Rightarrow>
   ('m, 'w, 'v, 'h) conc \<times> ('s, 'h) subscriber \<Rightarrow> bool" for R where
  other_call: "conc_step R s l s' \<Longrightarrow> sub_step R (s, h) (s', h)"
| list_call: "sb_todo h = None \<Longrightarrow> sb_shard h < dm_shards (rt_topics R) \<Longrightarrow>
     sub_step R (s, h) (s, h\<lparr>sb_shard := Suc (sb_shard h),
       sb_found := sb_found h @ list_shard R (sb_shard h) (c_bus s)\<rparr>)"
| list_done: "sb_todo h = None \<Longrightarrow> \<not> sb_shard h < dm_shards (rt_topics R) \<Longrightarrow>
     sub_step R (s, h) (s, h\<lparr>sb_todo := Some (sb_found h)\<rparr>)"
| skip_topic: "sb_todo h = Some (t # ts) \<Longrightarrow> \<not> tree_check (subscriptions (sb_conn h)) t \<Longrightarrow>
     sub_step R (s, h) (s, h\<lparr>sb_todo := Some ts\<rparr>)"
| join_topic: "sb_todo h = Some (t # ts) \<Longrightarrow> tree_check (subscriptions (sb_conn h)) t \<Longrightarrow>
     conn_subscribe_to_topic R t (sb_conn h, c_bus s) = (out, (c', b')) \<Longrightarrow>
     sub_step R (s, h) (s\<lparr>c_bus := b'\<rparr>,
       h\<lparr>sb_conn := c', sb_todo := Some ts, sb_joined := sb_joined h @ [(t, out)]\<rparr>)"

definition sub_new :: "rstring \<Rightarrow> ('s, 'h) conn \<Rightarrow> ('s, 'h) subscriber" where
  "sub_new p c =
     \<lparr>sb_conn = c\<lparr>subscriptions := tree_insert (subscriptions c) p\<rparr>, sb_shard = 0, sb_found = [],
      sb_todo = None, sb_joined = []\<rparr>"

inductive sub_run ::
  "('m, 'w, 'v, 's, 'h) runtime \<Rightarrow> (('m, 'w, 'v, 'h) conc \<Rightarrow> bool) \<Rightarrow> ('m, 'w, 'v, 'h) bus \<Rightarrow>
   ('s, 'h) subscriber \<Rightarrow> ('m, 'w, 'v, 'h) conc \<Rightarrow> ('s, 'h) subscriber \<Rightarrow> bool" for R ok b h0 where
  sub_start: "sub_run R ok b h0 \<lparr>c_bus = b, c_threads = (\<lambda>_. None), c_stored = []\<rparr> h0"
| sub_next: "sub_run R ok b h0 s h \<Longrightarrow> ok s \<Longrightarrow> sub_step R (s, h) (s', h') \<Longrightarrow> sub_run R ok b h0 s' h'"

section \<open>A subscription that runs alone\<close>

text \<open>With no other thread between its calls, a subscription is \<open>handle_subscribe\<close>.\<close>

lemma sub_matching_alone:
  assumes "sub_run R (\<lambda>_. True) b h0 s h" and "sb_todo h = Some ts"
    and "subscribe_matching R ts (sb_conn h, c_bus s) = (out, (c', b'))"
  shows "\<exists>js. sub_run R (\<lambda>_. True) b h0 (s\<lparr>c_bus := b'\<rparr>)
      (h\<lparr>sb_conn := c', sb_todo := Some [], sb_joined := sb_joined h @ js\<rparr>) \<and> concat (List.map snd js) = out"
  using assms
proof (induction ts arbitrary: s h out)
  case Nil
  then have "s\<lparr>c_bus := b'\<rparr> = s" "h\<lparr>sb_conn := c', sb_todo := Some [], sb_joined := sb_joined h\<rparr> = h" "out = []"
    by auto
  with Nil.prems(1) show ?case by (intro exI [of _ "[]"]) simp
next
  case (Cons t ts)
  show ?case
  proof (cases "tree_check (subscriptions (sb_conn h)) t")
    case False
    have "sub_run R (\<lambda>_. True) b h0 s (h\<lparr>sb_todo := Some ts\<rparr>)"
      by (rule sub_next [OF Cons.prems(1) TrueI skip_topic [OF Cons.prems(2) False]])
    from Cons.IH [OF this, of out] Cons.prems(3) False show ?thesis by simp
  next
    case True
    then obtain o1 o2 c1 b1 where j: "conn_subscribe_to_topic R t (sb_conn h, c_bus s) = (o1, (c1, b1))"
        "subscribe_matching R ts (c1, b1) = (o2, (c', b'))" "out = o1 @ o2"
      using Cons.prems(3) by (auto simp: Let_def split: prod.splits)
    from Cons.IH [OF sub_next [OF Cons.prems(1) TrueI join_topic [OF Cons.prems(2) True j(1)]], of o2] j(2)
    obtain js where "sub_run R (\<lambda>_. True) b h0 (s\<lparr>c_bus := b'\<rparr>)
        (h\<lparr>sb_conn := c', sb_todo := Some [], sb_joined := sb_joined h @ (t, o1) # js\<rparr>)"
        "concat (List.map snd js) = o2"
      by auto
    then show ?thesis using j(3) by (intro exI [of _ "(t, o1) # js"]) simp
  qed
qed

lemma sub_listing_alone:
  assumes "sb_todo h0 = None" "sb_shard h0 = 0" "sb_found h0 = []" and "n \<le> dm_shards (rt_topics R)"
  shows "sub_run R (\<lambda>_. True) b h0 \<lparr>c_bus = b, c_threads = (\<lambda>_. None), c_stored = []\<rparr>
    (h0\<lparr>sb_shard := n, sb_found := concat (List.map (\<lambda>n. list_shard R n b) [0..<n])\<rparr>)"
  using assms(4)
proof (induction n)
  case 0
  have "h0\<lparr>sb_shard := 0, sb_found := []\<rparr> = h0" using assms(2,3) by simp
  then show ?case using sub_start [of R "\<lambda>_. True" b h0] by simp
next
  case (Suc n)
  then show ?case using sub_next [OF Suc.IH TrueI list_call] assms(1) by simp
qed

lemma subscribe_alone:
  assumes laws: "runtime_laws R V" and sub: "handle_subscribe R p (c, b) = (out, (c', b'))"
  shows "\<exists>h. sub_run R (\<lambda>_. True) b (sub_new p c) \<lparr>c_bus = b', c_threads = (\<lambda>_. None), c_stored = []\<rparr> h \<and>
    sb_conn h = c' \<and> sb_todo h = Some [] \<and> concat (List.map snd (sb_joined h)) = out"
proof -
  define s where "s = \<lparr>c_bus = b, c_threads = (\<lambda>_. None), c_stored = []\<rparr>"
  define h where "h = (sub_new p c)\<lparr>sb_shard := dm_shards (rt_topics R), sb_found := list_topics R b\<rparr>"
  have "sub_run R (\<lambda>_. True) b (sub_new p c) s h"
    using sub_listing_alone [of "sub_new p c" "dm_shards (rt_topics R)" R b]
    by (simp add: sub_new_def s_def h_def list_shards [OF laws])
  from sub_next [OF this TrueI list_done]
  have "sub_run R (\<lambda>_. True) b (sub_new p c) s (h\<lparr>sb_todo := Some (list_topics R b)\<rparr>)"
    by (simp add: h_def sub_new_def)
  from sub_matching_alone [OF this, of "list_topics R b" out c' b'] sub
  obtain js where "sub_run R (\<lambda>_. True) b (sub_new p c) (s\<lparr>c_bus := b'\<rparr>)
      (h\<lparr>sb_conn := c', sb_todo := Some [], sb_joined := js\<rparr>)" "concat (List.map snd js) = out"
    by (auto simp: h_def sub_new_def s_def Let_def)
  then show ?thesis by (intro exI [of _ "h\<lparr>sb_conn := c', sb_todo := Some [], sb_joined := js\<rparr>"]) (simp add: s_def)
qed

section \<open>The run of the other threads\<close>

lemma conn_subscribe_bus:
  assumes "conn_subscribe_to_topic R t (c, b) = (out, (c', b'))"
  shows "b' = b \<or> (\<exists>r. subscribe_to_topic R t b = (r, b'))"
  using assms by (auto split: if_splits prod.splits option.splits)

lemma sub_run_conc: "sub_run R ok b h0 s h \<Longrightarrow> conc_run R ok b s"
proof (induction rule: sub_run.induct)
  case sub_start
  show ?case by (rule conc_start)
next
  case (sub_next s h s' h')
  from sub_next.hyps(3) show ?case
  proof cases
    case (other_call l)
    then show ?thesis using conc_next [OF sub_next.IH sub_next.hyps(2)] by simp
  next
    case (join_topic t ts out c' b')
    from conn_subscribe_bus [OF join_topic(5)] show ?thesis
    proof (elim disjE exE)
      assume "b' = c_bus s"
      then show ?thesis using sub_next.IH join_topic(1) by simp
    next
      fix r assume "subscribe_to_topic R t (c_bus s) = (r, b')"
      from conc_next [OF sub_next.IH sub_next.hyps(2) conc_step.join [OF this]] join_topic(1)
      show ?thesis by simp
    qed
  qed (use sub_next.IH in simp_all)
qed

lemma conc_step_pending:
  assumes laws: "runtime_laws R V" and inv: "conc_inv R V s" and lag: "no_lag R V s"
    and rx: "receives R V (c_bus s) t rx" and step: "conc_step R s l s'"
  shows "\<exists>xs. msg_pending V (c_bus s') rx = msg_pending V (c_bus s) rx @ xs \<and>
    stored_on t (c_stored s') = stored_on t (c_stored s) @ xs"
  using step
proof cases
  case (begin_send i u m)
  then show ?thesis by simp
next
  case (call i th pc b')
  have b: "bus_inv R V (c_bus s)" and th: "thread_ok R (c_bus s) (c_stored s) th"
    using inv call(3) by (auto simp: conc_inv_def)
  have "length (msg_pending V (c_bus s) rx) < CHANNEL_BUFFER_SIZE" using lag rx by (auto simp: no_lag_def)
  from call_effect(5) [OF laws b call(4) thread_okD [OF th] rx this]
  show ?thesis by (simp add: call(2) stored_on_append) (simp add: stored_on_def)
next
  case (join u r b')
  have "bus_inv R V (c_bus s)" using inv by (simp add: conc_inv_def)
  from join_effect(2) [OF laws this join(3) rx] show ?thesis by (simp add: join(2))
qed

section \<open>Every topic is seen\<close>

definition sub_inv ::
  "('m, 'w, 'v, 's, 'h) runtime \<Rightarrow> ('w, 'v, 'h) views \<Rightarrow> ('m, 'w, 'v, 'h) bus \<Rightarrow> ('s, 'h) subscriber \<Rightarrow>
   ('m, 'w, 'v, 'h) conc \<Rightarrow> ('s, 'h) subscriber \<Rightarrow> bool" where
  "sub_inv R V b h0 s h \<longleftrightarrow>
     subscriptions (sb_conn h) = subscriptions (sb_conn h0) \<and>
     topic_events (sb_conn h) = topic_events (sb_conn h0) \<and> wired R V (sb_conn h) (c_bus s) \<and>
     (\<forall>t. sb_todo h = None \<longrightarrow> topic R b t \<noteq> None \<longrightarrow> dm_shard (rt_topics R) t < sb_shard h \<longrightarrow>
        t \<in> set (sb_found h)) \<and>
     (\<forall>ts t. sb_todo h = Some ts \<longrightarrow> topic R b t \<noteq> None \<longrightarrow>
        tree_check (subscriptions (sb_conn h0)) t \<longrightarrow> stream_of R (sb_conn h) t \<noteq> None \<or> t \<in> set ts)"

lemma sub_invI:
  assumes "subscriptions (sb_conn h) = subscriptions (sb_conn h0)"
    and "topic_events (sb_conn h) = topic_events (sb_conn h0)" and "wired R V (sb_conn h) (c_bus s)"
    and "\<And>ts t. sb_todo h = Some ts \<Longrightarrow> topic R b t \<noteq> None \<Longrightarrow>
      tree_check (subscriptions (sb_conn h0)) t \<Longrightarrow> stream_of R (sb_conn h) t = None \<Longrightarrow> t \<in> set ts"
    and "\<And>t. sb_todo h = None \<Longrightarrow> topic R b t \<noteq> None \<Longrightarrow> dm_shard (rt_topics R) t < sb_shard h \<Longrightarrow>
      t \<in> set (sb_found h)"
  shows "sub_inv R V b h0 s h"
  using assms unfolding sub_inv_def by blast

lemma sub_invD:
  assumes "sub_inv R V b h0 s h"
  shows "subscriptions (sb_conn h) = subscriptions (sb_conn h0)"
    and "topic_events (sb_conn h) = topic_events (sb_conn h0)" and "wired R V (sb_conn h) (c_bus s)"
    and "sb_todo h = Some ts \<Longrightarrow> topic R b t \<noteq> None \<Longrightarrow>
      tree_check (subscriptions (sb_conn h0)) t \<Longrightarrow> stream_of R (sb_conn h) t = None \<Longrightarrow> t \<in> set ts"
    and "sb_todo h = None \<Longrightarrow> topic R b t \<noteq> None \<Longrightarrow> dm_shard (rt_topics R) t < sb_shard h \<Longrightarrow>
      t \<in> set (sb_found h)"
  using assms unfolding sub_inv_def by blast+

lemma sub_step_inv:
  assumes laws: "runtime_laws R V" and conc: "conc_inv R V s" "bus_ext R V b (c_bus s)"
    and inv: "sub_inv R V b h0 s h" and step: "sub_step R (s, h) (s', h')"
  shows "sub_inv R V b h0 s' h'"
  using step
proof cases
  case (other_call l)
  have "bus_ext R V (c_bus s) (c_bus s')" using conc_step_inv [OF laws conc(1) other_call(2)] by blast
  then show ?thesis
    using sub_invD [OF inv] bus_ext_wired by (intro sub_invI) (auto simp: other_call(1))
next
  case list_call
  note i = sub_invD [OF inv]
  show ?thesis
  proof (rule sub_invI)
    fix t assume t: "topic R b t \<noteq> None" "dm_shard (rt_topics R) t < sb_shard h'"
    have "topic R (c_bus s) t \<noteq> None" by (rule bus_ext_topic [OF conc(2) t(1)])
    then have "t \<in> set (list_shard R (sb_shard h) (c_bus s))" if "dm_shard (rt_topics R) t = sb_shard h"
      using that list_shard_mem [OF laws] by blast
    with i(5) [OF list_call(3) t(1)] t(2) show "t \<in> set (sb_found h')"
      by (auto simp: list_call(2) less_Suc_eq)
  qed (use i(1-3) in \<open>simp_all add: list_call\<close>)
next
  case list_done
  note i = sub_invD [OF inv]
  have "t \<in> set (sb_found h)" if "topic R b t \<noteq> None" for t
    using i(5) [OF list_done(3) that] topic_shard [OF laws that] list_done(4) by simp
  then show ?thesis using i(1-3) by (intro sub_invI) (auto simp: list_done(1,2))
next
  case (skip_topic t ts)
  note i = sub_invD [OF inv]
  show ?thesis
  proof (rule sub_invI)
    fix us u
    assume u: "sb_todo h' = Some us" "topic R b u \<noteq> None" "tree_check (subscriptions (sb_conn h0)) u"
      "stream_of R (sb_conn h') u = None"
    then have "u \<in> set (t # ts)" using i(4) [OF skip_topic(3)] by (simp add: skip_topic(2))
    with u skip_topic(4) i(1) show "u \<in> set us" by (auto simp: skip_topic(2))
  qed (use i(1-3) in \<open>simp_all add: skip_topic(1,2)\<close>)
next
  case (join_topic t ts out c' b')
  note i = sub_invD [OF inv] and e = conn_subscribe_effect [OF laws join_topic(5)]
  show ?thesis
  proof (rule sub_invI)
    show "subscriptions (sb_conn h') = subscriptions (sb_conn h0)"
      "topic_events (sb_conn h') = topic_events (sb_conn h0)"
      using e(1) i(1,2) by (simp_all add: joins_def join_topic(2))
    show "wired R V (sb_conn h') (c_bus s')"
      using joins_wired [OF e(1)] i(3) by (simp add: join_topic(1,2))
    fix us u
    assume u: "sb_todo h' = Some us" "topic R b u \<noteq> None" "tree_check (subscriptions (sb_conn h0)) u"
      "stream_of R (sb_conn h') u = None"
    have tp: "topic R (c_bus s) u \<noteq> None" using bus_ext_topic [OF conc(2) u(2)] .
    have "stream_of R (sb_conn h) u = None" "u \<noteq> t"
      using e(3) [of u] u(4) tp by (auto simp: join_topic(2))
    with i(4) [OF join_topic(3) u(2,3)] u(1) show "u \<in> set us" by (simp add: join_topic(2))
  qed (simp add: join_topic(2))
qed

lemma sub_run_inv:
  assumes laws: "runtime_laws R V" and b: "bus_inv R V b" and w: "wired R V (sb_conn h0) b"
    and todo: "sb_todo h0 = None" "sb_shard h0 = 0" and run: "sub_run R ok b h0 s h"
  shows "sub_inv R V b h0 s h"
  using run
proof induction
  case sub_start
  show ?case by (rule sub_invI) (use w todo in simp_all)
next
  case (sub_next s h s' h')
  have c: "conc_inv R V s" "bus_ext R V b (c_bus s)"
    using conc_run_inv [OF laws b sub_run_conc [OF sub_next.hyps(1)]] by blast+
  show ?case by (rule sub_step_inv [OF laws c sub_next.IH sub_next.hyps(3)])
qed

section \<open>Nothing is lost or repeated\<close>

text \<open>A topic's messages: the last one before the run, if any, and those stored since.\<close>

definition told_of ::
  "('m, 'w, 'v, 's, 'h) runtime \<Rightarrow> ('m, 'w, 'v, 'h) bus \<Rightarrow> ('m, 'w, 'v, 'h) conc \<Rightarrow> rstring \<Rightarrow> bytes list" where
  "told_of R b s t =
     (case bus_abs R b t of Some (Some m) \<Rightarrow> [m] | _ \<Rightarrow> []) @ stored_on t (c_stored s)"

text \<open>What the joins of a topic sent.\<close>

definition sent_for :: "rstring \<Rightarrow> (rstring \<times> conn_output list) list \<Rightarrow> bytes list" where
  "sent_for t js = carried (concat (List.map snd (filter (\<lambda>j. fst j = t) js)))"

lemma sent_for_snoc:
  "sent_for t (js @ [(u, out)]) = sent_for t js @ (if u = t then carried out else [])"
  by (simp add: sent_for_def carried_append)

lemma sent_for_Nil [simp]: "sent_for t [] = []"
  by (simp add: sent_for_def)

text \<open>A topic that no thread stored on has no last message, unless it had one before.\<close>

lemma unstored_step:
  assumes laws: "runtime_laws R V" and inv: "conc_inv R V s"
    and old: "stored_on t (c_stored s) = [] \<Longrightarrow> bus_abs R (c_bus s) t \<in> {None, Some None}"
    and step: "conc_step R s l s'" and nil: "stored_on t (c_stored s') = []"
  shows "bus_abs R (c_bus s') t \<in> {None, Some None}"
  using step
proof cases
  case (begin_send i u m)
  then show ?thesis using old nil by simp
next
  case (call i th pc b')
  have b: "bus_inv R V (c_bus s)" and th: "thread_ok R (c_bus s) (c_stored s) th"
    using inv call(3) by (auto simp: conc_inv_def)
  note e = call_effect(4) [OF laws b call(4) thread_okD [OF th]]
  have n: "stored_on t (c_stored s) = []" "th_pc th = At_store \<Longrightarrow> th_topic th \<noteq> t"
    using nil by (auto simp: call(2) stored_on_append) (auto simp: stored_on_def)
  show ?thesis using e old [OF n(1)] n(2) by (auto simp: call(2))
next
  case (join u r b')
  have "bus_inv R V (c_bus s)" using inv by (simp add: conc_inv_def)
  from join_effect(1) [OF laws this join(3)] old nil show ?thesis by (simp add: join(2))
qed

lemma last_told:
  assumes laws: "runtime_laws R V" and b: "bus_inv R V b" and run: "conc_run R (no_lag R V) b s"
    and lm: "bus_abs R (c_bus s) t = Some lm"
  shows "lm = (if told_of R b s t = [] then None else Some (last (told_of R b s t)))"
proof (cases "stored_on t (c_stored s) = []")
  case False
  then show ?thesis using conc_run_linear [OF laws b run] lm by (simp add: linear_def told_of_def)
next
  case True
  have none: "bus_abs R b t = None \<Longrightarrow> stored_on t (c_stored s) = [] \<Longrightarrow>
      bus_abs R (c_bus s) t \<in> {None, Some None}"
    using run
  proof (induction)
    case (conc_next s l s')
    have "conc_inv R V s" using conc_run_inv [OF laws b conc_next.hyps(1)] by blast
    from unstored_step [OF laws this _ conc_next.hyps(3)] conc_next.IH conc_next.prems
    show ?case by blast
  qed simp
  show ?thesis
  proof (cases "bus_abs R b t")
    case None
    with none True lm show ?thesis by (auto simp: told_of_def)
  next
    case (Some lm0)
    then have "bus_abs R (c_bus s) t = Some lm0"
      using conc_run_linear [OF laws b run] True by (simp add: linear_def)
    with Some True lm show ?thesis by (auto simp: told_of_def split: option.splits)
  qed
qed

text \<open>
  For a topic joined in the run: what the join sent, with what is in the stream, ends the topic's
  messages, and is all of them when the join sent nothing.
\<close>

definition gapless :: "bytes list \<Rightarrow> bytes list \<Rightarrow> bytes list \<Rightarrow> bool" where
  "gapless first rest all \<longleftrightarrow> suffix (first @ rest) all \<and> (first = [] \<longrightarrow> rest = all)"

definition sub_gapless ::
  "('m, 'w, 'v, 's, 'h) runtime \<Rightarrow> ('w, 'v, 'h) views \<Rightarrow> ('m, 'w, 'v, 'h) bus \<Rightarrow> ('s, 'h) subscriber \<Rightarrow>
   ('m, 'w, 'v, 'h) conc \<Rightarrow> ('s, 'h) subscriber \<Rightarrow> bool" where
  "sub_gapless R V b h0 s h \<longleftrightarrow>
     (\<forall>t. stream_of R (sb_conn h0) t = None \<longrightarrow>
        (case stream_of R (sb_conn h) t of
           None \<Rightarrow> sent_for t (sb_joined h) = []
         | Some rx \<Rightarrow> gapless (sent_for t (sb_joined h)) (msg_pending V (c_bus s) rx) (told_of R b s t)))"

lemma sub_gaplessD:
  assumes "sub_gapless R V b h0 s h" and "stream_of R (sb_conn h0) t = None"
  shows "stream_of R (sb_conn h) t = None \<Longrightarrow> sent_for t (sb_joined h) = []"
    and "stream_of R (sb_conn h) t = Some rx \<Longrightarrow>
      gapless (sent_for t (sb_joined h)) (msg_pending V (c_bus s) rx) (told_of R b s t)"
  using assms unfolding sub_gapless_def by (force split: option.splits)+

lemma sub_gaplessI:
  assumes "\<And>t. stream_of R (sb_conn h0) t = None \<Longrightarrow> stream_of R (sb_conn h) t = None \<Longrightarrow>
      sent_for t (sb_joined h) = []"
    and "\<And>t rx. stream_of R (sb_conn h0) t = None \<Longrightarrow> stream_of R (sb_conn h) t = Some rx \<Longrightarrow>
      gapless (sent_for t (sb_joined h)) (msg_pending V (c_bus s) rx) (told_of R b s t)"
  shows "sub_gapless R V b h0 s h"
  using assms by (auto simp: sub_gapless_def split: option.split)

lemma gapless_more: "gapless first rest all \<Longrightarrow> gapless first (rest @ xs) (all @ xs)"
  by (auto simp: gapless_def suffix_def)

lemma gapless_new:
  "gapless (if all = [] then [] else [last all]) [] all"
  by (cases all rule: rev_cases) (simp_all add: gapless_def suffix_def)

lemma join_gapless:
  assumes laws: "runtime_laws R V" and b: "bus_inv R V b" and run: "conc_run R (no_lag R V) b s"
    and w: "wired R V (sb_conn h) (c_bus s)" and old: "sub_gapless R V b h0 s h"
    and j: "conn_subscribe_to_topic R u (sb_conn h, c_bus s) = (out, (c', b'))"
  shows "sub_gapless R V b h0 (s\<lparr>c_bus := b'\<rparr>)
    (h\<lparr>sb_conn := c', sb_todo := ts, sb_joined := sb_joined h @ [(u, out)]\<rparr>)" (is "sub_gapless R V b h0 ?s ?h")
proof (rule sub_gaplessI)
  note e = conn_subscribe_effect [OF laws j]
  have q: "bus_quiet R V (c_bus s) b'" using e(1) by (simp add: joins_def)
  have told: "told_of R b ?s t = told_of R b s t" for t by (simp add: told_of_def)
  have silent: "carried out = []" if "stream_of R (sb_conn h) u \<noteq> None"
    unfolding e(2) retained_def if_not_P [OF that] by simp
  have kept: "stream_of R c' t = Some rx" if "stream_of R (sb_conn h) t = Some rx" for t rx
    using e(1) that by (simp add: joins_def)
  fix t assume t0: "stream_of R (sb_conn h0) t = None"
  {
    assume none: "stream_of R (sb_conn ?h) t = None"
    then have n: "stream_of R (sb_conn h) t = None" using kept by (cases "stream_of R (sb_conn h) t") auto
    have "carried out = []" if "u = t"
    proof -
      have "bus_abs R (c_bus s) t = None" using e(3) [of t] none that by (simp add: bus_abs_def)
      then show ?thesis using that by (simp add: e(2) retained_def)
    qed
    with sub_gaplessD(1) [OF old t0 n] show "sent_for t (sb_joined ?h) = []" by (simp add: sent_for_snoc)
  }
  fix rx assume st: "stream_of R (sb_conn ?h) t = Some rx"
  show "gapless (sent_for t (sb_joined ?h)) (msg_pending V (c_bus ?s) rx) (told_of R b ?s t)"
  proof (cases "stream_of R (sb_conn h) t")
    case None
    then have ut: "u = t" and tp: "topic R (c_bus s) t \<noteq> None" using e(3) [of t] st by auto
    have new: "msg_pending V b' rx = []"
      using e(1) st None bus_quietD(8) [OF q] unfolding joins_def by fastforce
    obtain lm where lm: "bus_abs R (c_bus s) t = Some lm" using tp by (auto simp: bus_abs_def)
    have "carried out = (if told_of R b s t = [] then [] else [last (told_of R b s t)])"
      using last_told [OF laws b run lm] None lm by (simp add: e(2) retained_def ut)
    with sub_gaplessD(1) [OF old t0 None] gapless_new [of "told_of R b s t"] new
    show ?thesis by (simp add: sent_for_snoc ut told)
  next
    case (Some rx')
    with kept [OF Some] st have rx: "rx' = rx" by simp
    have "receives R V (c_bus s) t rx" using w Some by (simp add: wired_def rx)
    from bus_quietD(6) [OF q this] sub_gaplessD(2) [OF old t0 Some] silent Some
    show ?thesis by (auto simp: sent_for_snoc rx told)
  qed
qed

lemma sub_step_gapless:
  assumes laws: "runtime_laws R V" and b: "bus_inv R V b" and run: "conc_run R (no_lag R V) b s"
    and lag: "no_lag R V s" and w: "wired R V (sb_conn h) (c_bus s)"
    and old: "sub_gapless R V b h0 s h" and step: "sub_step R (s, h) (s', h')"
  shows "sub_gapless R V b h0 s' h'"
  using step
proof cases
  case (other_call l)
  show ?thesis
  proof (rule sub_gaplessI)
    fix t assume t0: "stream_of R (sb_conn h0) t = None"
    show "sent_for t (sb_joined h') = []" if "stream_of R (sb_conn h') t = None"
      using sub_gaplessD(1) [OF old t0] that by (simp add: other_call(1))
    fix rx assume "stream_of R (sb_conn h') t = Some rx"
    then have st: "stream_of R (sb_conn h) t = Some rx" by (simp add: other_call(1))
    have rx: "receives R V (c_bus s) t rx" using w st by (simp add: wired_def)
    have inv: "conc_inv R V s" using conc_run_inv [OF laws b run] by blast
    obtain xs where xs: "msg_pending V (c_bus s') rx = msg_pending V (c_bus s) rx @ xs"
        "stored_on t (c_stored s') = stored_on t (c_stored s) @ xs"
      using conc_step_pending [OF laws inv lag rx other_call(2)] by blast
    from gapless_more [OF sub_gaplessD(2) [OF old t0 st], of xs]
    show "gapless (sent_for t (sb_joined h')) (msg_pending V (c_bus s') rx) (told_of R b s' t)"
      by (simp add: other_call(1) xs told_of_def)
  qed
next
  case list_call
  have "sb_joined h' = sb_joined h" "sb_conn h' = sb_conn h" by (simp_all add: list_call)
  with old show ?thesis by (simp only: sub_gapless_def list_call(1))
next
  case list_done
  have "sb_joined h' = sb_joined h" "sb_conn h' = sb_conn h" by (simp_all add: list_done)
  with old show ?thesis by (simp only: sub_gapless_def list_done(1))
next
  case skip_topic
  have "sb_joined h' = sb_joined h" "sb_conn h' = sb_conn h" by (simp_all add: skip_topic)
  with old show ?thesis by (simp only: sub_gapless_def skip_topic(1))
next
  case (join_topic t ts out c' b')
  from join_gapless [OF laws b run w old join_topic(5)] show ?thesis by (simp add: join_topic(1,2))
qed

lemma sub_run_gapless:
  assumes laws: "runtime_laws R V" and b: "bus_inv R V b" and w: "wired R V (sb_conn h0) b"
    and start: "sb_todo h0 = None" "sb_shard h0 = 0" "sb_joined h0 = []" and run: "sub_run R (no_lag R V) b h0 s h"
  shows "sub_gapless R V b h0 s h"
  using run
proof induction
  case sub_start
  show ?case by (rule sub_gaplessI) (simp_all add: start(3))
next
  case (sub_next s h s' h')
  have "wired R V (sb_conn h) (c_bus s)"
    by (rule sub_invD(3) [OF sub_run_inv [OF laws b w start(1,2) sub_next.hyps(1)]])
  from sub_step_gapless [OF laws b sub_run_conc [OF sub_next.hyps(1)] sub_next.hyps(2) this
      sub_next.IH sub_next.hyps(3)]
  show ?case .
qed

section \<open>A run of two threads\<close>

text \<open>
  A handler subscribes to \<open>*\<close> while another thread sends the first message on \<open>a\<close>: the handler lists one
  shard of the map before the topic is created and the other, which has the topic, after, the message is
  stored, and then the handler joins.
\<close>

definition sub_h :: "(rstring \<times> nat) list \<Rightarrow> nat \<Rightarrow> rstring list \<Rightarrow> rstring list option \<Rightarrow>
   (rstring \<times> conn_output list) list \<Rightarrow> ((rstring \<times> nat) list, nat) subscriber" where
  "sub_h streams n found ts js =
     \<lparr>sb_conn = \<lparr>topic_streams = streams, topic_events = 2, subscriptions = tree_insert glob_tree_new (str ''*'')\<rparr>,
      sb_shard = n, sb_found = found, sb_todo = ts, sb_joined = js\<rparr>"

definition bus_msgs :: "bytes option \<Rightarrow> (nat \<times> nat \<times> bytes list) list \<Rightarrow>
   ((rstring \<times> nat topic_data) list, bytes chans, topic_event chans, nat) bus" where
  "bus_msgs lm rxs = (bus_ev (new_a lm) [(1, CHANNEL_BUFFER_SIZE)] [Created (str ''a'')])
     \<lparr>message_channels := \<lparr>senders = [(1, CHANNEL_BUFFER_SIZE)], receivers = rxs\<rparr>\<rparr>"

lemma bus_msgs_None: "bus_ev (new_a None) [(1, CHANNEL_BUFFER_SIZE)] [Created (str ''a'')] = bus_msgs None []"
  by (simp add: bus_msgs_def bus_ev_def)

definition calm0 :: "((rstring \<times> nat topic_data) list, bytes chans, topic_event chans, nat) conc \<Rightarrow> bool" where
  "calm0 s \<longleftrightarrow> no_lag rt0 views0 s \<and> event_room views0 2 s"

lemma calm0_ev: "c_bus s = bus_ev ts chs es \<Longrightarrow> length es \<le> 1 \<Longrightarrow> calm0 s"
  by (auto simp: calm0_def no_lag_def event_room_def bus_ev_def views0_def list_view_def receives_def
      CHANNEL_BUFFER_SIZE_def split: option.splits)

lemma calm0_msgs: "c_bus s = bus_msgs lm [] \<Longrightarrow> calm0 s"
  by (rule calm0_ev [of s "new_a lm" "[(1, CHANNEL_BUFFER_SIZE)]" "[Created (str ''a'')]"])
    (simp_all add: bus_msgs_def bus_ev_def)

lemma check_star: "tree_check (tree_insert glob_tree_new (str ''*'')) (str ''a'')"
  by code_simp

lemma store_msgs:
  "send_call rt0 (str ''a'') [2] At_store (bus_msgs None []) = (Returned (Inr ()), bus_msgs (Some [2]) [])"
  by (simp add: bus_msgs_def bus_ev_def new_a_def rt0_simps)

lemma join_msgs:
  "conn_subscribe_to_topic rt0 (str ''a'') (sb_conn (sub_h [] n found ts js), bus_msgs (Some [2]) []) =
     ([Try_send [2]], (sb_conn (sub_h [(str ''a'', 2)] n' found' ts' js'), bus_msgs (Some [2]) [(2, 1, [])]))"
  by (simp add: sub_h_def bus_msgs_def bus_ev_def new_a_def rt0_simps)

lemma sub_call:
  "sub_run rt0 calm0 b h0 (st b' pc ps) h \<Longrightarrow> calm0 (st b' pc ps) \<Longrightarrow>
   send_call rt0 (str ''a'') [2] pc b' = (pc', b'') \<Longrightarrow>
   sub_run rt0 calm0 b h0 (st b'' pc' (ps @ (if pc = At_store then [(str ''a'', [2])] else []))) h"
  by (rule sub_next [OF _ _ other_call [OF st_step]])

lemma sub_begin: "calm0 \<lparr>c_bus = b, c_threads = (\<lambda>_. None), c_stored = []\<rparr> \<Longrightarrow>
    sub_run rt0 calm0 b h0 (st b At_contains []) h0"
  using sub_next [OF sub_start _ other_call [OF begin_send [of _ 0]], where R = rt0 and ok = calm0 and b = b]
  by (simp add: st_def th_a_def)

abbreviation sub_end where
  "sub_end \<equiv> sub_h [(str ''a'', 2)] 2 [str ''a''] (Some []) [(str ''a'', [Try_send [2]])]"

abbreviation conc_end where
  "conc_end \<equiv> st (bus_msgs (Some [2]) [(2, 1, [])]) (Returned (Inr ())) [(str ''a'', [2])]"

lemma sub_run0: "sub_run rt0 calm0 (bus_ev [] [] []) (sub_h [] 0 [] None []) conc_end sub_end"
proof -
  let ?run = "sub_run rt0 calm0 (bus_ev [] [] []) (sub_h [] 0 [] None [])"
  let ?h1 = "sub_h [] 1 [] None []" and ?h2 = "sub_h [] 2 [str ''a''] None []"
    and ?h3 = "sub_h [] 2 [str ''a''] (Some [str ''a'']) []"
  have "?run (st (bus_ev [] [] []) At_contains []) (sub_h [] 0 [] None [])"
    by (rule sub_begin) (simp add: calm0_ev)
  from sub_next [OF this _ list_call]
  have "?run (st (bus_ev [] [] []) At_contains []) ?h1"
    by (simp add: calm0_ev st_def sub_h_def list_shard_def bus_ev_def rt0_def list_dashmap_def)
  from sub_call [OF this _ calls_ev(1)]
  have "?run (st (bus_ev [] [] []) At_create_contains []) ?h1" by (simp add: calm0_ev st_def)
  from sub_call [OF this _ calls_ev(2)]
  have "?run (st (bus_ev [] [] []) At_entry []) ?h1" by (simp add: calm0_ev st_def)
  from sub_call [OF this _ calls_ev(3)]
  have "?run (st (bus_ev (new_a None) [(1, CHANNEL_BUFFER_SIZE)] []) At_announce []) ?h1"
    by (simp add: calm0_ev st_def)
  from sub_call [OF this _ calls_ev(4)]
  have "?run (st (bus_msgs None []) At_store []) ?h1" by (simp add: calm0_ev st_def flip: bus_msgs_None)
  from sub_next [OF this calm0_msgs list_call]
  have "?run (st (bus_msgs None []) At_store []) ?h2"
    by (simp add: st_def sub_h_def list_shard_def bus_msgs_def bus_ev_def new_a_def rt0_def list_dashmap_def
        numeral_2_eq_2)
  from sub_next [OF this calm0_msgs list_done]
  have "?run (st (bus_msgs None []) At_store []) ?h3" by (simp add: st_def sub_h_def rt0_def list_dashmap_def)
  from sub_call [OF this calm0_msgs store_msgs]
  have "?run (st (bus_msgs (Some [2]) []) (Returned (Inr ())) [(str ''a'', [2])]) ?h3"
    by (simp add: st_def)
  from sub_next [OF this calm0_msgs join_topic [where c' = "sb_conn (sub_h [(str ''a'', 2)] 0 [] None [])"]]
  show ?thesis
    using check_star join_msgs by (simp add: st_def) (simp add: sub_h_def)
qed

lemma sub_run_mono:
  "sub_run R ok b h0 s h \<Longrightarrow> (\<And>s. ok s \<Longrightarrow> ok' s) \<Longrightarrow> sub_run R ok' b h0 s h"
  by (induction rule: sub_run.induct) (auto intro: sub_run.intros)

section \<open>Properties\<close>

text \<open>
  C22: a subscription that runs concurrently with sends misses no topic, while the handler's channel of
  topic events is not full. However the calls of other threads fall between those of \<open>handle_subscribe\<close>,
  also between the shards of the map it lists, if before each call the handler's receiver of topic events
  has room (\<open>event_room\<close>), then once it has gone through its list every topic on the bus that the
  subscriptions match has a stream that receives from it, or the handler has yet to receive the topic's
  creation event, or the thread that created it is just about to send that event. (A full receiver drops
  the oldest event, and with it the announcement of a topic.)
\<close>
theorem concurrent_subscription_complete:
  assumes laws: "runtime_laws R V" and b: "bus_inv R V b" and w: "wired R V c b"
    and run: "sub_run R (event_room V (topic_events c)) b (sub_new p c) s h"
    and over: "sb_todo h = Some []"
    and t: "t \<in> set (list_topics R (c_bus s))" "tree_check (tree_insert (subscriptions c) p) t"
  shows "(\<exists>rx. stream_of R (sb_conn h) t = Some rx \<and> receives R V (c_bus s) t rx) \<or>
    Created t \<in> set (ev_pending V (c_bus s) (topic_events (sb_conn h))) \<or>
    (\<exists>i th. c_threads s i = Some th \<and> th_pc th = At_announce \<and> th_topic th = t)"
proof -
  have w': "wired R V (sb_conn (sub_new p c)) b" using w by (simp add: sub_new_def)
  have "sub_inv R V b (sub_new p c) s h"
    by (rule sub_run_inv [OF laws b w' _ _ run]) (simp_all add: sub_new_def)
  note i = sub_invD [OF this]
  show ?thesis
  proof (cases "topic R b t")
    case None
    have rx: "listens (ev_view V) (event_channels b) (topic_events c) = Some (topic_events_tx b)"
      using w by (simp add: wired_def)
    from conc_run_announced [OF laws b rx sub_run_conc [OF run]] None t(1)
    show ?thesis by (auto simp: announced_def list_topics_mem [OF laws] i(2) sub_new_def)
  next
    case (Some td)
    with i(4) [OF over, of t] t(2) obtain rx where "stream_of R (sb_conn h) t = Some rx"
      by (auto simp: sub_new_def)
    with i(3) show ?thesis by (auto simp: wired_def)
  qed
qed

theorem concurrent_subscription_complete_witness:
  "(\<exists>rx. stream_of rt0 (sb_conn sub_end) (str ''a'') = Some rx \<and>
      receives rt0 views0 (c_bus conc_end) (str ''a'') rx) \<or>
   Created (str ''a'') \<in> set (ev_pending views0 (c_bus conc_end) (topic_events (sb_conn sub_end))) \<or>
   (\<exists>i th. c_threads conc_end i = Some th \<and> th_pc th = At_announce \<and> th_topic th = str ''a'')"
proof (rule concurrent_subscription_complete [OF runtime_laws0 bus_inv_ev])
  show "wired rt0 views0 conn0 (bus_ev [] [] [])"
    by (simp add: wired_def conn0_def stream_of_def bus_ev_def rt0_def list_streammap_def views0_def
        list_view_def)
  have "sub_new (str ''*'') conn0 = sub_h [] 0 [] None []" by (simp add: sub_new_def conn0_def sub_h_def)
  then show "sub_run rt0 (event_room views0 (topic_events conn0)) (bus_ev [] [] [])
      (sub_new (str ''*'') conn0) conc_end sub_end"
    using sub_run_mono [OF sub_run0, of "event_room views0 2"] by (simp add: calm0_def conn0_def)
  show "tree_check (tree_insert (subscriptions conn0) (str ''*'')) (str ''a'')"
    using check_star by (simp add: conn0_def)
qed (simp_all add: sub_h_def st_def list_topics_def bus_msgs_def bus_ev_def new_a_def rt0_def list_dashmap_def)

text \<open>
  C23: a subscription that runs concurrently with sends loses nothing and repeats nothing. However the
  calls interleave, as long as no stream is full, for each topic the handler joined what the join sent at
  once, followed by what is in the stream, is the end of the topic's messages in the order in which
  they were stored; and it is all of them if the topic had no message when the handler joined.
\<close>
theorem concurrent_join_gapless:
  assumes laws: "runtime_laws R V" and b: "bus_inv R V b" and w: "wired R V c b"
    and run: "sub_run R (no_lag R V) b (sub_new p c) s h"
    and t: "stream_of R c t = None" "stream_of R (sb_conn h) t = Some rx"
  shows "suffix (sent_for t (sb_joined h) @ msg_pending V (c_bus s) rx) (told_of R b s t) \<and>
    (sent_for t (sb_joined h) = [] \<longrightarrow> msg_pending V (c_bus s) rx = told_of R b s t)"
proof -
  have "wired R V (sb_conn (sub_new p c)) b" using w by (simp add: sub_new_def)
  from sub_run_gapless [OF laws b this _ _ _ run] have g: "sub_gapless R V b (sub_new p c) s h"
    by (simp add: sub_new_def)
  have "stream_of R (sb_conn (sub_new p c)) t = None"
    using t(1) by (simp add: sub_new_def stream_of_def)
  from sub_gaplessD(2) [OF g this t(2)] show ?thesis by (simp add: gapless_def)
qed

theorem concurrent_join_gapless_witness:
  "suffix (sent_for (str ''a'') (sb_joined sub_end) @ msg_pending views0 (c_bus conc_end) 2)
     (told_of rt0 (bus_ev [] [] []) conc_end (str ''a'')) \<and>
   told_of rt0 (bus_ev [] [] []) conc_end (str ''a'') = [[2]]"
proof
  have w: "wired rt0 views0 conn0 (bus_ev [] [] [])"
    by (simp add: wired_def conn0_def stream_of_def bus_ev_def rt0_def list_streammap_def views0_def
        list_view_def)
  have "sub_new (str ''*'') conn0 = sub_h [] 0 [] None []" by (simp add: sub_new_def conn0_def sub_h_def)
  then have run: "sub_run rt0 (no_lag rt0 views0) (bus_ev [] [] []) (sub_new (str ''*'') conn0) conc_end sub_end"
    using sub_run_mono [OF sub_run0, of "no_lag rt0 views0"] by (simp add: calm0_def)
  have "stream_of rt0 conn0 (str ''a'') = None" "stream_of rt0 (sb_conn sub_end) (str ''a'') = Some 2"
    by (simp_all add: stream_of_def conn0_def sub_h_def rt0_def list_streammap_def)
  from concurrent_join_gapless [OF runtime_laws0 bus_inv_ev w run this]
  show "suffix (sent_for (str ''a'') (sb_joined sub_end) @ msg_pending views0 (c_bus conc_end) 2)
     (told_of rt0 (bus_ev [] [] []) conc_end (str ''a''))" by blast
  show "told_of rt0 (bus_ev [] [] []) conc_end (str ''a'') = [[2]]"
    by (simp add: told_of_def bus_abs_def topic_def bus_ev_def rt0_def list_dashmap_def st_def stored_on_def)
qed

end
