(* ===== verification/Simulation.thy ===== *)
theory Simulation
  imports Main
begin

text \<open>
  Runs of a labelled step relation, and forward simulation as an interface: when each step of a
  concrete system is matched by abstract steps that show what it shows, a run is matched by a run,
  and what holds of every abstract run holds of what a concrete run shows.
\<close>

inductive runs :: "('s \<Rightarrow> 'e \<Rightarrow> 's \<Rightarrow> bool) \<Rightarrow> 's \<Rightarrow> 'e list \<Rightarrow> 's \<Rightarrow> bool" for step s where
  run_here: "runs step s [] s"
| run_snoc: "runs step s es s' \<Longrightarrow> step s' e s'' \<Longrightarrow> runs step s (es @ [e]) s''"

lemma run_one: "step s e s' \<Longrightarrow> runs step s [e] s'"
  using run_snoc [OF run_here, of step s e s'] by simp

lemma runs_append: "runs step s' es' s'' \<Longrightarrow> runs step s es s' \<Longrightarrow> runs step s (es @ es') s''"
proof (induction rule: runs.induct)
  case (run_snoc es' s' e s'')
  from runs.run_snoc [OF run_snoc.IH [OF run_snoc.prems] run_snoc.hyps(2)] show ?case by simp
qed simp

text \<open>An invariant of the states together with the labels seen on the way to them.\<close>

lemma runs_invariant:
  assumes "runs step s es s'" and "I [] s"
    and "\<And>es s1 e s2. runs step s es s1 \<Longrightarrow> I es s1 \<Longrightarrow> step s1 e s2 \<Longrightarrow> I (es @ [e]) s2"
  shows "I es s'"
  using assms(1) by induction (use assms(2,3) in blast)+

locale forward_simulation =
  fixes cstep :: "'c \<Rightarrow> 'a \<Rightarrow> 'c \<Rightarrow> bool"
    and astep :: "'s \<Rightarrow> 'e \<Rightarrow> 's \<Rightarrow> bool"
    and visible :: "'a \<Rightarrow> 'e list"
    and sim :: "'c \<Rightarrow> 's \<Rightarrow> bool"
  assumes simulated: "cstep c a c' \<Longrightarrow> sim c s \<Longrightarrow> \<exists>s'. runs astep s (visible a) s' \<and> sim c' s'"
begin

lemma run_simulated:
  assumes "runs cstep c acts c'" and "sim c s"
  shows "\<exists>s'. runs astep s (concat (List.map visible acts)) s' \<and> sim c' s'"
  using assms(1)
proof induction
  case run_here
  then show ?case using assms(2) runs.run_here by fastforce
next
  case (run_snoc acts c1 a c2)
  then obtain s1 where s1: "runs astep s (concat (List.map visible acts)) s1" "sim c1 s1" by blast
  obtain s2 where s2: "runs astep s1 (visible a) s2" "sim c2 s2"
    using simulated [OF run_snoc.hyps(2) s1(2)] by blast
  from runs_append [OF s2(1) s1(1)] s2(2) show ?case by auto
qed

lemma invariant_transfers:
  assumes "runs cstep c acts c'" and "sim c s"
    and "\<And>es s'. runs astep s es s' \<Longrightarrow> I es s'"
  shows "\<exists>s'. I (concat (List.map visible acts)) s' \<and> sim c' s'"
  using run_simulated [OF assms(1,2)] assms(3) by blast

end

end
