(* ===== verification/Log_Spec.thy ===== *)
theory Log_Spec
  imports Glob_Spec Simulation
begin

text \<open>
  What a publish/subscribe server promises its clients, without channels, streams, events or queues:
  each topic is the log of what was published on it, and each reader has a position in the log of
  every topic it follows. A reader that starts to follow a topic is shown the log's last message and
  put at its end; from then on it is delivered the messages one by one.
\<close>

section \<open>The abstract server\<close>

record reader =
  wants :: "rstring set"
  position :: "rstring \<Rightarrow> nat option"

record log_server =
  history :: "rstring \<Rightarrow> bytes list"
  readers :: "nat \<Rightarrow> reader option"

definition log_new :: log_server where
  "log_new = \<lparr>history = (\<lambda>_. []), readers = (\<lambda>_. None)\<rparr>"

definition new_reader :: reader where
  "new_reader = \<lparr>wants = {}, position = (\<lambda>_. None)\<rparr>"

text \<open>What can be seen of the server: what its clients ask, and what it shows them.\<close>

datatype log_event =
    Opened nat
  | Closed nat
  | Published nat rstring bytes
  | Subscribed nat rstring "bytes list"
  | Unsubscribed nat rstring
  | Discovered nat bytes
  | Delivered nat rstring bytes

definition follows_now :: "(rstring \<Rightarrow> bytes list) \<Rightarrow> rstring set \<Rightarrow> reader \<Rightarrow> rstring \<Rightarrow> bool" where
  "follows_now h W d t \<longleftrightarrow> t \<in> W \<and> position d t = None \<and> h t \<noteq> []"

text \<open>
  A subscription adds at most the topics its pattern means, an unsubscription adds none (the empty
  topic apart); which of them a reader wants is left open. A subscription takes effect at once on the
  topics that exist; a topic created later is discovered at some later time.
\<close>

inductive log_step :: "log_server \<Rightarrow> log_event \<Rightarrow> log_server \<Rightarrow> bool" where
  open_reader: "readers L i = None \<Longrightarrow>
    log_step L (Opened i) (L\<lparr>readers := (readers L)(i \<mapsto> new_reader)\<rparr>)"
| close_reader: "readers L i = Some d \<Longrightarrow>
    log_step L (Closed i) (L\<lparr>readers := (readers L)(i := None)\<rparr>)"
| publish: "readers L i = Some d \<Longrightarrow>
    log_step L (Published i t m) (L\<lparr>history := (history L)(t := history L t @ [m])\<rparr>)"
| subscribe: "readers L i = Some d \<Longrightarrow> W \<subseteq> wants d \<union> {t. byte_chars t \<in> glob_lang p} \<Longrightarrow>
    distinct ts \<Longrightarrow> set ts = {t. follows_now (history L) W d t} \<Longrightarrow>
    log_step L (Subscribed i p (List.map (\<lambda>t. last (history L t)) ts))
      (L\<lparr>readers := (readers L)(i \<mapsto>
         \<lparr>wants = W, position = (\<lambda>t. if t \<in> set ts then Some (length (history L t)) else position d t)\<rparr>)\<rparr>)"
| unsubscribe: "readers L i = Some d \<Longrightarrow> W \<subseteq> wants d \<union> {[]} \<Longrightarrow>
    log_step L (Unsubscribed i p)
      (L\<lparr>readers := (readers L)(i \<mapsto>
         \<lparr>wants = W, position = (\<lambda>t. if t \<in> W then position d t else None)\<rparr>)\<rparr>)"
| discover: "readers L i = Some d \<Longrightarrow> follows_now (history L) (wants d) d t \<Longrightarrow>
    log_step L (Discovered i (last (history L t)))
      (L\<lparr>readers := (readers L)(i \<mapsto> d\<lparr>position := (position d)(t \<mapsto> length (history L t))\<rparr>)\<rparr>)"
| deliver: "readers L i = Some d \<Longrightarrow> position d t = Some n \<Longrightarrow> n < length (history L t) \<Longrightarrow>
    log_step L (Delivered i t (history L t ! n))
      (L\<lparr>readers := (readers L)(i \<mapsto> d\<lparr>position := (position d)(t \<mapsto> Suc n)\<rparr>)\<rparr>)"

section \<open>What a trace shows\<close>

text \<open>
  What was written to a topic; and, since the reader \<open>i\<close> was opened last, everything it was shown,
  what it was delivered of a topic, and whether it never unsubscribed.
\<close>

fun log_written :: "rstring \<Rightarrow> log_event list \<Rightarrow> bytes list" where
  "log_written t [] = []"
| "log_written t (Published i u m # es) = (if u = t then [m] else []) @ log_written t es"
| "log_written t (e # es) = log_written t es"

fun show_event :: "nat \<Rightarrow> log_event \<Rightarrow> bytes list \<Rightarrow> bytes list" where
  "show_event i (Opened j) xs = (if j = i then [] else xs)"
| "show_event i (Subscribed j p ms) xs = (if j = i then xs @ ms else xs)"
| "show_event i (Discovered j m) xs = (if j = i then xs @ [m] else xs)"
| "show_event i (Delivered j t m) xs = (if j = i then xs @ [m] else xs)"
| "show_event i e xs = xs"

fun hear_event :: "nat \<Rightarrow> rstring \<Rightarrow> log_event \<Rightarrow> bytes list \<Rightarrow> bytes list" where
  "hear_event i t (Opened j) xs = (if j = i then [] else xs)"
| "hear_event i t (Delivered j u m) xs = (if j = i \<and> u = t then xs @ [m] else xs)"
| "hear_event i t e xs = xs"

fun steady_event :: "nat \<Rightarrow> log_event \<Rightarrow> bool \<Rightarrow> bool" where
  "steady_event i (Opened j) ok = (if j = i then True else ok)"
| "steady_event i (Unsubscribed j p) ok = (if j = i then False else ok)"
| "steady_event i e ok = ok"

definition shown :: "nat \<Rightarrow> log_event list \<Rightarrow> bytes list" where
  "shown i es = fold (show_event i) es []"

definition heard :: "nat \<Rightarrow> rstring \<Rightarrow> log_event list \<Rightarrow> bytes list" where
  "heard i t es = fold (hear_event i t) es []"

definition steady :: "nat \<Rightarrow> log_event list \<Rightarrow> bool" where
  "steady i es = fold (steady_event i) es True"

lemma trace_Nil [simp]: "shown i [] = []" "heard i t [] = []" "steady i []"
  by (simp_all add: shown_def heard_def steady_def)

lemma trace_snoc:
  "shown i (es @ [e]) = show_event i e (shown i es)"
  "heard i t (es @ [e]) = hear_event i t e (heard i t es)"
  "steady i (es @ [e]) = steady_event i e (steady i es)"
  by (simp_all add: shown_def heard_def steady_def)

lemma log_written_append: "log_written t (es @ es') = log_written t es @ log_written t es'"
  by (induction t es rule: log_written.induct) auto

section \<open>What a reader sees\<close>

text \<open>
  A reader that follows a topic and never unsubscribed was delivered exactly a stretch of the topic's
  log, up to its position and without a gap, and was shown the message before that stretch first.
\<close>

definition in_step :: "nat \<Rightarrow> log_event list \<Rightarrow> rstring \<Rightarrow> bytes list \<Rightarrow> nat \<Rightarrow> bool" where
  "in_step i es t h n \<longleftrightarrow>
     (\<exists>k. 0 < k \<and> k \<le> n \<and> heard i t es = drop k (take n h) \<and>
        subseq (drop (k - 1) (take n h)) (shown i es))"

definition in_order :: "nat \<Rightarrow> log_event list \<Rightarrow> rstring \<Rightarrow> bytes list \<Rightarrow> nat option \<Rightarrow> bool" where
  "in_order i es t h pos \<longleftrightarrow>
     (case pos of
        None \<Rightarrow> steady i es \<longrightarrow> heard i t es = []
      | Some n \<Rightarrow> n \<le> length h \<and> (steady i es \<longrightarrow> in_step i es t h n))"

definition log_inv :: "log_event list \<Rightarrow> log_server \<Rightarrow> bool" where
  "log_inv es L \<longleftrightarrow>
     (\<forall>t. history L t = log_written t es) \<and>
     (\<forall>i d t. readers L i = Some d \<longrightarrow> in_order i es t (history L t) (position d t))"

lemma log_invD:
  assumes "log_inv es L"
  shows "history L t = log_written t es"
    and "readers L i = Some d \<Longrightarrow> in_order i es t (history L t) (position d t)"
  using assms unfolding log_inv_def by blast+

lemma in_order_Some:
  "in_order i es t h (Some n) \<longleftrightarrow> n \<le> length h \<and> (steady i es \<longrightarrow> in_step i es t h n)"
  by (simp add: in_order_def)

lemma in_order_None: "in_order i es t h None \<longleftrightarrow> (steady i es \<longrightarrow> heard i t es = [])"
  by (simp add: in_order_def)

lemma in_step_start:
  assumes "heard i t es = []" and "h \<noteq> []" and "last h \<in> set ms"
    and "shown i es' = shown i es @ ms" "heard i t es' = heard i t es"
  shows "in_step i es' t h (length h)"
proof -
  have "drop (length h - 1) h = [last h]"
    using assms(2) by (cases h rule: rev_cases) simp_all
  moreover have "subseq [last h] (shown i es @ ms)" using assms(3) by (simp add: subseq_singleton_left)
  ultimately show ?thesis
    using assms by (intro in_step_def [THEN iffD2] exI [of _ "length h"]) simp
qed

lemma in_step_same:
  assumes "in_step i es t h n" and "heard i t es' = heard i t es" and "prefix (shown i es) (shown i es')"
    and "n \<le> length h"
  shows "in_step i es' t (h @ xs) n"
proof -
  have "subseq ys (shown i es')" if "subseq ys (shown i es)" for ys
    using subseq_order.trans [OF that prefix_imp_subseq [OF assms(3)]] .
  with assms show ?thesis unfolding in_step_def by auto
qed

lemma in_step_deliver:
  assumes "in_step i es t h n" and n: "n < length h"
    and "heard i t es' = heard i t es @ [h ! n]" "shown i es' = shown i es @ [h ! n]"
  shows "in_step i es' t h (Suc n)"
proof -
  obtain k where k: "0 < k" "k \<le> n" "heard i t es = drop k (take n h)"
      "subseq (drop (k - 1) (take n h)) (shown i es)"
    using assms(1) unfolding in_step_def by blast
  have snoc: "drop j (take (Suc n) h) = drop j (take n h) @ [h ! n]" if "j \<le> n" for j
    using that n by (simp add: take_Suc_conv_app_nth)
  have "subseq (drop (k - 1) (take n h) @ [h ! n]) (shown i es @ [h ! n])"
    by (rule list_emb_append_mono [OF k(4)]) simp
  then show ?thesis
    using k(1-3) snoc [of k] snoc [of "k - 1"] assms(3,4)
    by (intro in_step_def [THEN iffD2] exI [of _ k]) simp
qed

lemma in_order_same:
  assumes "in_order i es t h pos" and "heard i t es' = heard i t es"
    and "prefix (shown i es) (shown i es')" and "steady i es' \<Longrightarrow> steady i es"
  shows "in_order i es' t (h @ xs) pos"
  using assms in_step_same [OF _ assms(2,3)] by (cases pos) (auto simp: in_order_Some in_order_None)

lemma in_order_start:
  assumes "in_order i es t h None" and "h \<noteq> []" and "last h \<in> set ms"
    and "shown i es' = shown i es @ ms" "heard i t es' = heard i t es" "steady i es' = steady i es"
  shows "in_order i es' t h (Some (length h))"
  using assms in_step_start [OF _ assms(2-5)] by (simp add: in_order_Some in_order_None)

lemma in_order_deliver:
  assumes "in_order i es t h (Some n)" and "n < length h" and "steady i es' = steady i es"
    and "heard i t es' = heard i t es @ [h ! n]" "shown i es' = shown i es @ [h ! n]"
  shows "in_order i es' t h (Some (Suc n))"
  using assms in_step_deliver [OF _ assms(2,4,5)] by (simp add: in_order_Some)

text \<open>An event that is another reader's leaves what a reader was shown as it was.\<close>

lemma other_event:
  assumes "\<And>p. e \<noteq> Unsubscribed i p" and "\<And>p ms. e \<noteq> Subscribed i p ms" and "e \<noteq> Opened i"
    and "\<And>m. e \<noteq> Discovered i m" and "\<And>t m. e \<noteq> Delivered i t m"
  shows "shown i (es @ [e]) = shown i es" "heard i t (es @ [e]) = heard i t es"
    "steady i (es @ [e]) = steady i es"
  using assms by (cases e; force simp: trace_snoc)+

lemma log_inv_update:
  assumes inv: "log_inv es L" and h: "\<And>t. history L' t = history L t @ log_written t [e]"
    and r: "\<And>j. j \<noteq> i \<Longrightarrow> readers L' j = readers L j"
    and e: "\<And>j. j \<noteq> i \<Longrightarrow> (\<forall>p. e \<noteq> Unsubscribed j p) \<and> (\<forall>p ms. e \<noteq> Subscribed j p ms) \<and>
      e \<noteq> Opened j \<and> (\<forall>m. e \<noteq> Discovered j m) \<and> (\<forall>t m. e \<noteq> Delivered j t m)"
    and own: "\<And>d t. readers L' i = Some d \<Longrightarrow> in_order i (es @ [e]) t (history L' t) (position d t)"
  shows "log_inv (es @ [e]) L'"
  unfolding log_inv_def
proof (intro conjI allI impI)
  show "history L' t = log_written t (es @ [e])" for t
    by (simp add: h log_invD(1) [OF inv] log_written_append)
  fix j d t assume d: "readers L' j = Some d"
  show "in_order j (es @ [e]) t (history L' t) (position d t)"
  proof (cases "j = i")
    case True
    with own d show ?thesis by simp
  next
    case False
    have "readers L j = Some d" using d r [OF False] by simp
    note old = log_invD(2) [OF inv this] and same = other_event [where e = e and i = j and es = es]
    have "in_order j (es @ [e]) t (history L t @ log_written t [e]) (position d t)"
      by (rule in_order_same [OF old]) (use same e [OF False] in simp_all)
    then show ?thesis by (simp only: h)
  qed
qed

lemma log_inv_step:
  assumes inv: "log_inv es L" and step: "log_step L e L'"
  shows "log_inv (es @ [e]) L'"
  using step
proof cases
  case (open_reader i)
  show ?thesis
    by (rule log_inv_update [OF inv, where i = i])
      (auto simp: open_reader in_order_None new_reader_def trace_snoc)
next
  case (close_reader i d)
  show ?thesis
    by (rule log_inv_update [OF inv, where i = i]) (auto simp: close_reader)
next
  case (publish i d u m)
  show ?thesis
  proof (rule log_inv_update [OF inv, where i = i])
    fix f t assume f: "readers L' i = Some f"
    have "history L' t = history L t @ log_written t [e]" by (simp add: publish)
    moreover have "readers L i = Some f" using f by (simp add: publish)
    ultimately show "in_order i (es @ [e]) t (history L' t) (position f t)"
      using in_order_same [OF log_invD(2) [OF inv], of i f t "es @ [e]" "log_written t [e]"]
      by (simp add: publish(1) trace_snoc)
  qed (auto simp: publish)
next
  case (subscribe i d W p ts)
  note old = log_invD(2) [OF inv subscribe(3)]
  let ?ms = "List.map (\<lambda>t. last (history L t)) ts"
  show ?thesis
  proof (rule log_inv_update [OF inv, where i = i])
    fix f t assume f: "readers L' i = Some f"
    show "in_order i (es @ [e]) t (history L' t) (position f t)"
    proof (cases "t \<in> set ts")
      case True
      then have "follows_now (history L) W d t" using subscribe(6) by blast
      then have n: "position d t = None" "history L t \<noteq> []" by (simp_all add: follows_now_def)
      have "in_order i (es @ [e]) t (history L t) (Some (length (history L t)))"
        by (rule in_order_start [where ms = ?ms, OF _ n(2)])
          (use old [of t] n True in \<open>auto simp: subscribe(1) trace_snoc\<close>)
      with f True show ?thesis by (auto simp: subscribe(2))
    next
      case False
      have "in_order i (es @ [e]) t (history L t @ []) (position d t)"
        by (rule in_order_same [OF old]) (simp_all add: subscribe(1) trace_snoc)
      with f False show ?thesis by (auto simp: subscribe(2))
    qed
  qed (auto simp: subscribe)
next
  case (unsubscribe i d W p)
  note old = log_invD(2) [OF inv unsubscribe(3)]
  have not_steady: "\<not> steady i (es @ [e])" by (simp add: unsubscribe(1) trace_snoc)
  show ?thesis
  proof (rule log_inv_update [OF inv, where i = i])
    fix f t assume f: "readers L' i = Some f"
    then have "position f t = (if t \<in> W then position d t else None)" "history L' t = history L t"
      by (auto simp: unsubscribe(2))
    then show "in_order i (es @ [e]) t (history L' t) (position f t)"
      using old [of t] not_steady by (auto simp: in_order_def split: option.splits)
  qed (auto simp: unsubscribe)
next
  case (discover i d u)
  note old = log_invD(2) [OF inv discover(3)]
  have n: "position d u = None" "history L u \<noteq> []" using discover(4) by (simp_all add: follows_now_def)
  show ?thesis
  proof (rule log_inv_update [OF inv, where i = i])
    fix f t assume f: "readers L' i = Some f"
    show "in_order i (es @ [e]) t (history L' t) (position f t)"
    proof (cases "t = u")
      case True
      have "in_order i (es @ [e]) u (history L u) (Some (length (history L u)))"
        by (rule in_order_start [where ms = "[last (history L u)]", OF _ n(2)])
          (use old [of u] n in \<open>auto simp: discover(1) trace_snoc\<close>)
      with f True show ?thesis by (auto simp: discover(2))
    next
      case False
      have "in_order i (es @ [e]) t (history L t @ []) (position d t)"
        by (rule in_order_same [OF old]) (simp_all add: discover(1) trace_snoc)
      with f False show ?thesis by (auto simp: discover(2))
    qed
  qed (auto simp: discover)
next
  case (deliver i d u n)
  note old = log_invD(2) [OF inv deliver(3)]
  show ?thesis
  proof (rule log_inv_update [OF inv, where i = i])
    fix f t assume f: "readers L' i = Some f"
    show "in_order i (es @ [e]) t (history L' t) (position f t)"
    proof (cases "t = u")
      case True
      have "in_order i (es @ [e]) u (history L u) (Some (Suc n))"
        by (rule in_order_deliver [OF _ deliver(5)])
          (use old [of u] deliver(4) in \<open>simp_all add: deliver(1) trace_snoc\<close>)
      with f True show ?thesis by (auto simp: deliver(2))
    next
      case False
      have "in_order i (es @ [e]) t (history L t @ []) (position d t)"
        by (rule in_order_same [OF old]) (use False in \<open>simp_all add: deliver(1) trace_snoc\<close>)
      with f False show ?thesis by (auto simp: deliver(2))
    qed
  qed (auto simp: deliver)
qed

lemma log_runs_inv:
  assumes "runs log_step log_new es L"
  shows "log_inv es L"
  using assms
proof (rule runs_invariant)
  show "log_inv [] log_new" by (simp add: log_inv_def log_new_def)
qed (rule log_inv_step)

end
