(* ===== verification/Log_Refinement.thy ===== *)
theory Log_Refinement
  imports Entitlement Log_Spec
begin

text \<open>
  The server is a publish/subscribe log: as long as no stream is full, every run of the server shows
  its clients what a run of the abstract server shows. Streams are then positions in the logs: what
  is in the stream of a topic is what follows the position.
\<close>

section \<open>What a step of the server shows\<close>

fun trace_step :: "'a externals \<Rightarrow> 'a action \<Rightarrow> log_event list" where
  "trace_step E (Accept i out) = [Opened i]"
| "trace_step E (Iterate i (On_command (Some (Publish m))) out) =
     (case message_bytes E m of Inl e \<Rightarrow> [] | Inr bs \<Rightarrow> [Published i (msg_topic m) bs])"
| "trace_step E (Iterate i (On_command (Some (Subscribe p))) out) = [Subscribed i p (carried out)]"
| "trace_step E (Iterate i (On_command (Some (Unsubscribe p))) out) = [Unsubscribed i p]"
| "trace_step E (Iterate i (On_command None) out) = [Closed i]"
| "trace_step E (Iterate i On_topic_event out) = List.map (Discovered i) (carried out)"
| "trace_step E (Iterate i (On_stream t ok) out) =
     List.map (Delivered i t) (carried out) @ (if ok \<or> carried out = [] then [] else [Closed i])"

definition trace_of :: "'a externals \<Rightarrow> 'a action list \<Rightarrow> log_event list" where
  "trace_of E acts = concat (List.map (trace_step E) acts)"

lemma written_step: "log_written t (trace_step E a) = published E t [a]"
proof -
  have none: "log_written t (List.map (Discovered i) xs) = []" "log_written t (List.map (Delivered i u) xs) = []"
    for i u xs by (induction xs) simp_all
  show ?thesis
    by (cases "(E, a)" rule: trace_step.cases) (simp_all add: none log_written_append split: sum.split)
qed

lemma written_trace: "log_written t (trace_of E acts) = published E t acts"
proof (induction acts)
  case (Cons a acts)
  then show ?case
    using published_append [of E t "[a]" acts]
    by (simp add: trace_of_def log_written_append written_step del: published.simps(2,3))
qed (simp add: trace_of_def)

section \<open>The simulation relation\<close>

text \<open>The steps that lose nothing: no stream in use is full, and the patterns stay in range.\<close>

definition lossless ::
  "('m, 'w, 'v, 's, 'h) runtime \<Rightarrow> ('w, 'v, 'h) views \<Rightarrow> ('m, 'w, 'v, 's, 'h) sys \<Rightarrow> 'a action \<Rightarrow> bool" where
  "lossless R V s a \<longleftrightarrow>
     (\<forall>i c t rx. sys_conns s i = Some c \<longrightarrow> stream_of R c t = Some rx \<longrightarrow>
        length (msg_pending V (sys_bus s) rx) < CHANNEL_BUFFER_SIZE) \<and> budgeted s a"

definition reader_sim ::
  "('m, 'w, 'v, 's, 'h) runtime \<Rightarrow> ('w, 'v, 'h) views \<Rightarrow> (rstring \<Rightarrow> bytes list) \<Rightarrow>
   ('m, 'w, 'v, 'h) bus \<Rightarrow> ('s, 'h) conn \<Rightarrow> reader \<Rightarrow> bool" where
  "reader_sim R V h b c d \<longleftrightarrow>
     filter_ok c \<and> wants d = {t. tree_check (subscriptions c) t} \<and>
     (\<forall>t. case stream_of R c t of
        None \<Rightarrow> position d t = None
      | Some rx \<Rightarrow> \<exists>n\<le>length (h t). position d t = Some n \<and> msg_pending V b rx = drop n (h t))"

definition log_sim ::
  "('m, 'w, 'v, 's, 'h) runtime \<Rightarrow> ('w, 'v, 'h) views \<Rightarrow> ('m, 'w, 'v, 's, 'h) sys \<Rightarrow> log_server \<Rightarrow> bool" where
  "log_sim R V s L \<longleftrightarrow>
     sys_inv R V s \<and> (\<forall>t. bus_abs R (sys_bus s) t = retains None (history L t)) \<and>
     (\<forall>i. case sys_conns s i of
        None \<Rightarrow> readers L i = None
      | Some c \<Rightarrow> \<exists>d. readers L i = Some d \<and> reader_sim R V (history L) (sys_bus s) c d)"

lemma reader_simI:
  assumes "filter_ok c" and "wants d = {t. tree_check (subscriptions c) t}"
    and "\<And>t. stream_of R c t = None \<Longrightarrow> position d t = None"
    and "\<And>t rx. stream_of R c t = Some rx \<Longrightarrow>
      \<exists>n\<le>length (h t). position d t = Some n \<and> msg_pending V b rx = drop n (h t)"
  shows "reader_sim R V h b c d"
  using assms by (auto simp: reader_sim_def split: option.split)

lemma reader_simD:
  assumes "reader_sim R V h b c d"
  shows "filter_ok c" and "wants d = {t. tree_check (subscriptions c) t}"
    and "stream_of R c t = None \<longleftrightarrow> position d t = None"
    and "stream_of R c t = Some rx \<Longrightarrow>
      \<exists>n\<le>length (h t). position d t = Some n \<and> msg_pending V b rx = drop n (h t)"
proof -
  show "filter_ok c" "wants d = {t. tree_check (subscriptions c) t}"
    using assms by (simp_all add: reader_sim_def)
  have c: "case stream_of R c t of None \<Rightarrow> position d t = None
      | Some rx \<Rightarrow> \<exists>n\<le>length (h t). position d t = Some n \<and> msg_pending V b rx = drop n (h t)"
    using assms by (simp add: reader_sim_def)
  then show "stream_of R c t = None \<longleftrightarrow> position d t = None" by (auto split: option.splits)
  show "\<exists>n\<le>length (h t). position d t = Some n \<and> msg_pending V b rx = drop n (h t)"
    if "stream_of R c t = Some rx"
    using c that by simp
qed

lemma log_simD:
  assumes "log_sim R V s L"
  shows "sys_inv R V s" and "bus_abs R (sys_bus s) t = retains None (history L t)"
    and "sys_conns s i = None \<Longrightarrow> readers L i = None"
    and "sys_conns s i = Some c \<Longrightarrow>
      \<exists>d. readers L i = Some d \<and> reader_sim R V (history L) (sys_bus s) c d"
proof -
  have c: "case sys_conns s i of None \<Rightarrow> readers L i = None
      | Some c \<Rightarrow> \<exists>d. readers L i = Some d \<and> reader_sim R V (history L) (sys_bus s) c d"
    using assms by (simp add: log_sim_def)
  then show "sys_conns s i = None \<Longrightarrow> readers L i = None"
    "sys_conns s i = Some c \<Longrightarrow>
      \<exists>d. readers L i = Some d \<and> reader_sim R V (history L) (sys_bus s) c d"
    by simp_all
qed (use assms in \<open>simp_all add: log_sim_def\<close>)

lemma log_simI:
  assumes "sys_inv R V s" and "\<And>t. bus_abs R (sys_bus s) t = retains None (history L t)"
    and "\<And>i. sys_conns s i = None \<Longrightarrow> readers L i = None"
    and "\<And>i c. sys_conns s i = Some c \<Longrightarrow>
      \<exists>d. readers L i = Some d \<and> reader_sim R V (history L) (sys_bus s) c d"
  shows "log_sim R V s L"
  using assms by (auto simp: log_sim_def split: option.split)

lemma retains_None: "retains None xs = None \<longleftrightarrow> xs = []"
  by (simp add: retains_def)

section \<open>One iteration, simulated\<close>

text \<open>A connection that does nothing, on a bus on which messages \<open>xs t\<close> arrive.\<close>

lemma reader_sim_idle:
  assumes sim: "reader_sim R V h b c d"
    and pend: "\<And>t rx. stream_of R c t = Some rx \<Longrightarrow> msg_pending V b' rx = msg_pending V b rx @ xs t"
  shows "reader_sim R V (\<lambda>t. h t @ xs t) b' c d"
proof (rule reader_simI)
  show "filter_ok c" "wants d = {t. tree_check (subscriptions c) t}" by (rule reader_simD [OF sim])+
  show "position d t = None" if "stream_of R c t = None" for t
    using that reader_simD(3) [OF sim] by blast
  fix t rx assume st: "stream_of R c t = Some rx"
  then obtain n where n: "n \<le> length (h t)" "position d t = Some n" "msg_pending V b rx = drop n (h t)"
    using reader_simD(4) [OF sim st] by blast
  then show "\<exists>n\<le>length (h t @ xs t). position d t = Some n \<and> msg_pending V b' rx = drop n (h t @ xs t)"
    using pend [OF st] by (intro exI [of _ n]) simp
qed

lemma log_sim_iterate:
  assumes laws: "runtime_laws R V" and sim: "log_sim R V s L" and room: "lossless R V s a"
    and a: "a = Iterate i br (out @ run_end go_on)" and c: "sys_conns s i = Some c"
    and run: "run_iteration R E br (c, sys_bus s) = (go_on, out, (c', b'))"
    and h: "history L' = (\<lambda>t. history L t @ publish_of E t br)"
    and other: "\<And>j. j \<noteq> i \<Longrightarrow> readers L' j = readers L j"
    and gone: "\<not> go_on \<Longrightarrow> readers L' i = None"
    and own: "go_on \<Longrightarrow> \<exists>d. readers L' i = Some d \<and> reader_sim R V (history L') b' c' d"
  shows "log_sim R V \<lparr>sys_bus = b', sys_conns = (sys_conns s)(i := (if go_on then Some c' else None))\<rparr> L'"
    (is "log_sim R V ?s L'")
proof (rule log_simI)
  note inv = log_simD(1) [OF sim]
  show "sys_inv R V ?s"
    using sys_step_inv [OF laws inv sys_step.iterate [OF c run]] .
  show "bus_abs R (sys_bus ?s) t = retains None (history L' t)" for t
    using iteration_last [OF laws sys_invD(1) [OF inv] run, of t] log_simD(2) [OF sim, of t]
    by (simp add: h retains_append)
  show "readers L' j = None" if "sys_conns ?s j = None" for j
    using that gone other log_simD(3) [OF sim, of j] by (cases "j = i") (auto split: if_splits)
  fix j f assume f: "sys_conns ?s j = Some f"
  show "\<exists>d. readers L' j = Some d \<and> reader_sim R V (history L') (sys_bus ?s) f d"
  proof (cases "j = i")
    case True
    with f own show ?thesis by (auto split: if_splits)
  next
    case False
    with f have f': "sys_conns s j = Some f" by simp
    then obtain d where d: "readers L j = Some d" "reader_sim R V (history L) (sys_bus s) f d"
      using log_simD(4) [OF sim] by blast
    have "msg_pending V b' rx = msg_pending V (sys_bus s) rx @ publish_of E t br"
      if st: "stream_of R f t = Some rx" for t rx
    proof -
      have "receives R V (sys_bus s) t rx" using sys_invD(2) [OF inv f'] st by (simp add: wired_def)
      moreover have "stream_of R c t \<noteq> Some rx" by (rule sys_invD(4) [OF inv f' c False st])
      moreover have "length (msg_pending V (sys_bus s) rx) < CHANNEL_BUFFER_SIZE"
        using room f' st by (auto simp: lossless_def)
      ultimately show ?thesis
        using iteration_exact [OF laws sys_invD(1) [OF inv] sys_invD(2) [OF inv c] run, of t rx] by simp
    qed
    from reader_sim_idle [OF d(2) this] d(1) other [OF False] show ?thesis by (auto simp: h)
  qed
qed

text \<open>What an iteration leaves in the streams of its own connection.\<close>

lemma own_stream:
  assumes laws: "runtime_laws R V" and sim: "log_sim R V s L" and room: "lossless R V s a"
    and c: "sys_conns s i = Some c" and st: "stream_of R c t = Some rx"
    and run: "run_iteration R E br (c, sys_bus s) = (go_on, out, (c', b'))"
  shows "forward_of t br out @ msg_pending V b' rx = msg_pending V (sys_bus s) rx @ publish_of E t br"
proof -
  note inv = log_simD(1) [OF sim]
  have "receives R V (sys_bus s) t rx" using sys_invD(2) [OF inv c] st by (simp add: wired_def)
  moreover have "length (msg_pending V (sys_bus s) rx) < CHANNEL_BUFFER_SIZE"
    using room c st by (auto simp: lossless_def)
  ultimately show ?thesis
    using iteration_exact [OF laws sys_invD(1) [OF inv] sys_invD(2) [OF inv c] run, of t rx] st by simp
qed

lemma reader_sim_join:
  assumes sim: "reader_sim R V h b c d" and ok: "filter_ok c'"
    and keep: "\<And>t rx. stream_of R c t = Some rx \<Longrightarrow>
      stream_of R c' t = Some rx \<and> msg_pending V b' rx = msg_pending V b rx"
    and fresh: "\<And>t rx. stream_of R c' t = Some rx \<Longrightarrow> stream_of R c t = None \<Longrightarrow> msg_pending V b' rx = []"
    and d': "wants d' = {t. tree_check (subscriptions c') t}"
      "\<And>t. position d' t = (if stream_of R c t = None \<and> stream_of R c' t \<noteq> None
         then Some (length (h t)) else position d t)"
  shows "reader_sim R V h b' c' d'"
proof (rule reader_simI [OF ok d'(1)])
  show "position d' t = None" if "stream_of R c' t = None" for t
  proof -
    have "stream_of R c t = None" using keep that by (cases "stream_of R c t") auto
    then show ?thesis using that reader_simD(3) [OF sim, of t] by (simp add: d'(2))
  qed
  show "\<exists>n\<le>length (h t). position d' t = Some n \<and> msg_pending V b' rx = drop n (h t)"
    if st: "stream_of R c' t = Some rx" for t rx
  proof (cases "stream_of R c t")
    case None
    then show ?thesis using st fresh [OF st None] by (simp add: d'(2))
  next
    case (Some rx')
    with keep [OF Some] st have "rx' = rx" by simp
    with reader_simD(4) [OF sim Some] keep [OF Some] Some show ?thesis by (auto simp: d'(2))
  qed
qed

text \<open>What joining topics does to the streams, in an iteration that forwards and publishes nothing.\<close>

lemma joined_streams:
  assumes laws: "runtime_laws R V" and sim: "log_sim R V s L" and room: "lossless R V s a"
    and c: "sys_conns s i = Some c"
    and run: "run_iteration R E br (c, sys_bus s) = (go_on, out, (c', b'))"
    and quiet: "\<And>t. forward_of t br out = []" "\<And>t. publish_of E t br = []"
  shows "stream_of R c t = Some rx \<Longrightarrow> msg_pending V b' rx = msg_pending V (sys_bus s) rx"
    and "stream_of R c' t = Some rx \<Longrightarrow> stream_of R c t = None \<Longrightarrow> msg_pending V b' rx = []"
proof -
  show "stream_of R c t = Some rx \<Longrightarrow> msg_pending V b' rx = msg_pending V (sys_bus s) rx"
    using own_stream [OF laws sim room c _ run, of t rx] quiet by simp
  note inv = log_simD(1) [OF sim]
  have "iteration_effect R V E br (c, sys_bus s) out (c', b')"
    by (rule run_iteration_effect [OF laws sys_invD(1) [OF inv] sys_invD(2) [OF inv c] run])
  then show "stream_of R c' t = Some rx \<Longrightarrow> stream_of R c t = None \<Longrightarrow> msg_pending V b' rx = []"
    unfolding iteration_effect_def fst_conv snd_conv by (metis option.distinct(1))
qed

lemma carried_retained:
  assumes "bus_abs R b t = retains None (h t)" and "h t \<noteq> []"
  shows "carried (retained R c b t) = (if stream_of R c t = None then [last (h t)] else [])"
  using assms by (simp add: retained_def retains_def)

lemma carried_all_retained:
  assumes "\<And>t. t \<in> set ts \<Longrightarrow> bus_abs R b t = retains None (h t)" and "\<And>t. t \<in> set ts \<Longrightarrow> h t \<noteq> []"
  shows "carried (concat (List.map (retained R c b) ts)) =
    List.map (\<lambda>t. last (h t)) (filter (\<lambda>t. stream_of R c t = None) ts)"
  using assms
proof (induction ts)
  case (Cons t ts)
  have "carried (retained R c b t) = (if stream_of R c t = None then [last (h t)] else [])"
    by (rule carried_retained) (use Cons.prems in simp_all)
  with Cons show ?case by (simp add: carried_append)
qed simp

definition simulated_step ::
  "('m, 'w, 'v, 's, 'h) runtime \<Rightarrow> ('w, 'v, 'h) views \<Rightarrow> 'a externals \<Rightarrow> 'a action \<Rightarrow> log_server \<Rightarrow>
   ('m, 'w, 'v, 's, 'h) sys \<Rightarrow> bool" where
  "simulated_step R V E a L s' \<longleftrightarrow> (\<exists>L'. runs log_step L (trace_step E a) L' \<and> log_sim R V s' L')"

lemma subscribe_simulated:
  assumes laws: "runtime_laws R V" and sim: "log_sim R V s L" and room: "lossless R V s a"
    and a: "a = Iterate i br (out @ run_end go_on)" and c: "sys_conns s i = Some c"
    and run: "run_iteration R E br (c, sys_bus s) = (go_on, out, (c', b'))"
    and br: "br = On_command (Some (Subscribe p))" and h: "handle_subscribe R p (c, sys_bus s) = (o', (c', b'))"
    and out: "carried out = carried o'" and go: "go_on"
  shows "simulated_step R V E a L
    \<lparr>sys_bus = b', sys_conns = (sys_conns s)(i := (if go_on then Some c' else None))\<rparr>"
proof -
  obtain d where d: "readers L i = Some d" "reader_sim R V (history L) (sys_bus s) c d"
    using log_simD(4) [OF sim c] by blast
  note e = handle_subscribe_effect [OF laws h] and abs = log_simD(2) [OF sim]
  have topics: "topic R (sys_bus s) t \<noteq> None \<longleftrightarrow> history L t \<noteq> []" for t
    using abs [of t] retains_None [of "history L t"] by (auto simp: bus_abs_def)
  let ?W = "{t. tree_check (subscriptions c') t}"
  define ts where "ts = filter (\<lambda>t. stream_of R c t = None)
    (filter (tree_check (subscriptions c')) (list_topics R (sys_bus s)))"
  define d' where "d' = \<lparr>wants = ?W, position =
    (\<lambda>t. if t \<in> set ts then Some (length (history L t)) else position d t)\<rparr>"
  have mem: "t \<in> set ts \<longleftrightarrow> stream_of R c t = None \<and> tree_check (subscriptions c') t \<and> history L t \<noteq> []" for t
    using list_topics_mem [OF laws, of t "sys_bus s"] topics [of t] by (auto simp: ts_def)
  have ms: "carried out = List.map (\<lambda>t. last (history L t)) ts"
    unfolding out e(4) e(2) [symmetric] ts_def
  proof (rule carried_all_retained [OF abs])
    show "history L t \<noteq> []"
      if "t \<in> set (filter (tree_check (subscriptions c')) (list_topics R (sys_bus s)))" for t
      using that list_topics_mem [OF laws, of t "sys_bus s"] topics [of t] by simp
  qed
  have budget: "weight (root (subscriptions c)) + (length p + 1) < 2 ^ 64"
    using room c by (simp add: lossless_def budgeted_def a br)
  have fok: "glob_inv (subscriptions c)" using reader_simD(1) [OF d(2)] by (simp add: filter_ok_def)
  have ok': "filter_ok c'" using gt.add_inv [OF fok budget] budget by (simp add: filter_ok_def e(2))
  have W: "?W \<subseteq> wants d \<union> {t. byte_chars t \<in> glob_lang p}"
    using tree_insert_check_gain [OF fok, of p] budget
    by (auto simp: reader_simD(2) [OF d(2)] e(2) glob_iff_lang)
  have set_ts: "set ts = {t. follows_now (history L) ?W d t}"
    using mem reader_simD(3) [OF d(2)] by (auto simp: follows_now_def)
  have dist: "distinct ts"
    using dashmap_lawsD(5) [OF runtime_lawsD(1) [OF laws]] by (simp add: ts_def list_topics_def)
  let ?L = "L\<lparr>readers := (readers L)(i \<mapsto> d')\<rparr>"
  have step: "log_step L (Subscribed i p (carried out)) ?L"
    using log_step.subscribe [OF d(1) W dist set_ts] by (simp add: ms d'_def)
  have quiet: "forward_of t br out = []" "publish_of E t br = []" for t by (simp_all add: br)
  note js = joined_streams [OF laws sim room c run quiet]
  have keep: "stream_of R c' t = Some rx" if "stream_of R c t = Some rx" for t rx
    using e(1) that by (simp add: joins_def stream_of_def)
  have "reader_sim R V (history L) b' c' d'"
  proof (rule reader_sim_join [OF d(2) ok'])
    show "stream_of R c' t = Some rx \<and> msg_pending V b' rx = msg_pending V (sys_bus s) rx"
      if "stream_of R c t = Some rx" for t rx
      using keep [OF that] js(1) [OF that] by blast
    show "position d' t = (if stream_of R c t = None \<and> stream_of R c' t \<noteq> None
        then Some (length (history L t)) else position d t)" for t
      using e(3) [of t] mem [of t] topics [of t] by (auto simp: d'_def e(2))
  qed (use js(2) in \<open>simp_all add: d'_def\<close>)
  then have "log_sim R V \<lparr>sys_bus = b', sys_conns = (sys_conns s)(i := (if go_on then Some c' else None))\<rparr> ?L"
    by (intro log_sim_iterate [OF laws sim room a c run]) (simp_all add: br go)
  then show ?thesis
    unfolding simulated_step_def using run_one [of log_step, OF step] by (auto simp: a br)
qed

lemma join_simulated:
  assumes laws: "runtime_laws R V" and sim: "log_sim R V s L" and room: "lossless R V s a"
    and a: "a = Iterate i br (out @ run_end go_on)" and c: "sys_conns s i = Some c"
    and run: "run_iteration R E br (c, sys_bus s) = (go_on, out, (c', b'))"
    and br: "br = On_topic_event" and tp: "topic R b1 = topic R (sys_bus s)"
    and m: "tree_check (subscriptions c) u"
    and h: "conn_subscribe_to_topic R u (c, b1) = (out, (c', b'))" and go: "go_on"
  shows "simulated_step R V E a L
    \<lparr>sys_bus = b', sys_conns = (sys_conns s)(i := (if go_on then Some c' else None))\<rparr>"
proof -
  obtain d where d: "readers L i = Some d" "reader_sim R V (history L) (sys_bus s) c d"
    using log_simD(4) [OF sim c] by blast
  note e = conn_subscribe_effect [OF laws h]
  have ab: "bus_abs R b1 t = retains None (history L t)" for t
    using log_simD(2) [OF sim, of t] by (simp add: bus_abs_def tp)
  have topics: "topic R b1 u \<noteq> None \<longleftrightarrow> history L u \<noteq> []"
    using ab [of u] retains_None [of "history L u"] by (auto simp: bus_abs_def)
  have subs: "subscriptions c' = subscriptions c" using e(1) by (simp add: joins_def)
  have ok': "filter_ok c'" using reader_simD(1) [OF d(2)] by (simp add: filter_ok_def subs)
  have quiet: "forward_of t br out = []" "publish_of E t br = []" for t by (simp_all add: br)
  note js = joined_streams [OF laws sim room c run quiet]
  have keep: "stream_of R c' t = Some rx \<and> msg_pending V b' rx = msg_pending V (sys_bus s) rx"
    if "stream_of R c t = Some rx" for t rx
    using e(1) that js(1) [OF that] by (simp add: joins_def)
  have simulated: "reader_sim R V (history L) b' c' d'"
    if "wants d' = {t. tree_check (subscriptions c') t}"
      "\<And>t. position d' t = (if stream_of R c t = None \<and> stream_of R c' t \<noteq> None
         then Some (length (history L t)) else position d t)" for d'
    by (rule reader_sim_join [OF d(2) ok' keep js(2) that])
  have W: "wants d = {t. tree_check (subscriptions c') t}"
    using reader_simD(2) [OF d(2)] by (simp add: subs)
  show ?thesis
  proof (cases "stream_of R c u = None \<and> history L u \<noteq> []")
    case False
    then have "out = []"
      using e(2) ab [of u] by (auto simp: retained_def retains_def)
    moreover have "stream_of R c' t = None" if "stream_of R c t = None" for t
      using e(3) [of t] that topics False by auto
    then have "reader_sim R V (history L) b' c' d" by (intro simulated W) auto
    then have "log_sim R V
        \<lparr>sys_bus = b', sys_conns = (sys_conns s)(i := (if go_on then Some c' else None))\<rparr> L"
      using d(1) by (intro log_sim_iterate [OF laws sim room a c run]) (simp_all add: br go)
    ultimately show ?thesis
      unfolding simulated_step_def using run_here [of log_step L] by (auto simp: a br)
  next
    case True
    then have new: "stream_of R c u = None" "history L u \<noteq> []" by simp_all
    have out: "carried out = [last (history L u)]"
      using carried_retained [where h = "history L", OF ab new(2)] new(1) e(2) by simp
    let ?d = "d\<lparr>position := (position d)(u \<mapsto> length (history L u))\<rparr>"
    let ?L = "L\<lparr>readers := (readers L)(i \<mapsto> ?d)\<rparr>"
    have "follows_now (history L) (wants d) d u"
      using new m reader_simD(2,3) [OF d(2)] by (simp add: follows_now_def)
    note step = log_step.discover [OF d(1) this]
    have "reader_sim R V (history L) b' c' ?d"
      by (intro simulated) (use e(3) topics new W in auto)
    then have "log_sim R V
        \<lparr>sys_bus = b', sys_conns = (sys_conns s)(i := (if go_on then Some c' else None))\<rparr> ?L"
      by (intro log_sim_iterate [OF laws sim room a c run]) (simp_all add: br go)
    then show ?thesis
      unfolding simulated_step_def using run_one [of log_step, OF step] by (auto simp: a br out)
  qed
qed

lemma unsubscribe_simulated:
  assumes laws: "runtime_laws R V" and sim: "log_sim R V s L" and room: "lossless R V s a"
    and a: "a = Iterate i br (out @ run_end go_on)" and c: "sys_conns s i = Some c"
    and run: "run_iteration R E br (c, sys_bus s) = (go_on, out, (c', b'))"
    and br: "br = On_command (Some (Unsubscribe p))" and h: "c' = handle_unsubscribe R p c" "b' = sys_bus s"
    and go: "go_on"
  shows "simulated_step R V E a L
    \<lparr>sys_bus = b', sys_conns = (sys_conns s)(i := (if go_on then Some c' else None))\<rparr>"
proof -
  obtain d where d: "readers L i = Some d" "reader_sim R V (history L) (sys_bus s) c d"
    using log_simD(4) [OF sim c] by blast
  note e = handle_unsubscribe_effect [OF laws, of p c]
  have fok: "glob_inv (subscriptions c)" "weight (root (subscriptions c)) < 2 ^ 64"
    using reader_simD(1) [OF d(2)] by (simp_all add: filter_ok_def)
  let ?W = "{t. tree_check (subscriptions c') t}"
  let ?d = "\<lparr>wants = ?W, position = (\<lambda>t. if t \<in> ?W then position d t else None)\<rparr>"
  let ?L = "L\<lparr>readers := (readers L)(i \<mapsto> ?d)\<rparr>"
  have "?W \<subseteq> wants d \<union> {[]}"
    using gt.drop_no_gain [OF fok] by (auto simp: reader_simD(2) [OF d(2)] h e(1))
  note step = log_step.unsubscribe [where p = p, OF d(1) this]
  have "reader_sim R V (history L) b' c' ?d"
  proof (rule reader_simI)
    show "filter_ok c'" using gt.drop_inv [OF fok(1), of p] fok(2) by (simp add: filter_ok_def h e)
    show "position ?d t = None" if "stream_of R c' t = None" for t
      using that reader_simD(3) [OF d(2), of t] by (auto simp: h e split: if_splits)
    show "\<exists>n\<le>length (history L t). position ?d t = Some n \<and> msg_pending V b' rx = drop n (history L t)"
      if "stream_of R c' t = Some rx" for t rx
      using that reader_simD(4) [OF d(2), of t rx] by (auto simp: h e split: if_splits)
  qed simp
  then have "log_sim R V \<lparr>sys_bus = b', sys_conns = (sys_conns s)(i := (if go_on then Some c' else None))\<rparr> ?L"
    by (intro log_sim_iterate [OF laws sim room a c run]) (simp_all add: br go)
  then show ?thesis
    unfolding simulated_step_def using run_one [of log_step, OF step] by (auto simp: a br)
qed

text \<open>An iteration that forwards nothing and leaves the connection as it was.\<close>

lemma idle_own:
  assumes laws: "runtime_laws R V" and sim: "log_sim R V s L" and room: "lossless R V s a"
    and c: "sys_conns s i = Some c"
    and run: "run_iteration R E br (c, sys_bus s) = (go_on, out, (c, b'))"
    and none: "\<And>t. forward_of t br out = []"
  shows "\<exists>d. readers L i = Some d \<and>
    reader_sim R V (\<lambda>t. history L t @ publish_of E t br) b' c d"
proof -
  obtain d where d: "readers L i = Some d" "reader_sim R V (history L) (sys_bus s) c d"
    using log_simD(4) [OF sim c] by blast
  have "msg_pending V b' rx = msg_pending V (sys_bus s) rx @ publish_of E t br"
    if "stream_of R c t = Some rx" for t rx
    using own_stream [OF laws sim room c that run] none by simp
  then have "reader_sim R V (\<lambda>t. history L t @ publish_of E t br) b' c d"
    by (rule reader_sim_idle [OF d(2)])
  with d(1) show ?thesis by (intro exI [of _ d]) (rule conjI)
qed

lemma stream_simulated:
  assumes laws: "runtime_laws R V" and sim: "log_sim R V s L" and room: "lossless R V s a"
    and a: "a = Iterate i br (out @ run_end go_on)" and c: "sys_conns s i = Some c"
    and run: "run_iteration R E br (c, sys_bus s) = (go_on, out, (c', b'))"
    and br: "br = On_stream u ok"
  shows "simulated_step R V E a L
    \<lparr>sys_bus = b', sys_conns = (sys_conns s)(i := (if go_on then Some c' else None))\<rparr>"
proof -
  have c': "c' = c" using stream_poll_quiet(1) run br by blast
  have no_pub: "publish_of E t br = []" for t by (simp add: br)
  note sim_it = log_sim_iterate [OF laws sim room a c run]
  show ?thesis
  proof (cases "carried out = []")
    case True
    have sent: "sent out = []" using sent_carried [of out] True by simp
    then have none: "forward_of t br out = []" for t by (simp add: br)
    have go: "go_on"
      using run True by (auto simp: br forward_message_to_client_def
          split: option.splits prod.splits recv_result.splits)
    have "\<exists>d. readers L i = Some d \<and> reader_sim R V (\<lambda>t. history L t @ publish_of E t br) b' c d"
      by (rule idle_own [OF laws sim room c run [unfolded c'] none])
    then have "log_sim R V
        \<lparr>sys_bus = b', sys_conns = (sys_conns s)(i := (if go_on then Some c' else None))\<rparr> L"
      by (intro sim_it) (simp_all add: no_pub go c')
    then show ?thesis
      unfolding simulated_step_def using run_here [of log_step L] True by (auto simp: a br)
  next
    case False
    obtain rx where st: "stream_of R c u = Some rx"
      using run False by (cases "stream_of R c u") (auto simp: br stream_of_def)
    obtain m where out: "carried out = [m]" "sent out = [m]" "go_on = ok"
      using run False st by (auto simp: br stream_of_def forward_message_to_client_def
          split: prod.splits recv_result.splits)
    obtain d where d: "readers L i = Some d" "reader_sim R V (history L) (sys_bus s) c d"
      using log_simD(4) [OF sim c] by blast
    obtain n where n: "n \<le> length (history L u)" "position d u = Some n"
        "msg_pending V (sys_bus s) rx = drop n (history L u)"
      using reader_simD(4) [OF d(2) st] by blast
    have pend: "drop n (history L u) = m # msg_pending V b' rx"
      using own_stream [OF laws sim room c st run] n(3) by (simp add: br out(2))
    have lt: "n < length (history L u)" using pend by (cases "n < length (history L u)") simp_all
    then have m: "history L u ! n = m" and rest: "msg_pending V b' rx = drop (Suc n) (history L u)"
      using pend Cons_nth_drop_Suc [OF lt] by simp_all
    let ?d = "d\<lparr>position := (position d)(u \<mapsto> Suc n)\<rparr>"
    let ?L = "L\<lparr>readers := (readers L)(i \<mapsto> ?d)\<rparr>"
    have step: "log_step L (Delivered i u m) ?L"
      using log_step.deliver [OF d(1) n(2) lt] by (simp add: m)
    have own: "reader_sim R V (history L) b' c ?d"
    proof (rule reader_simI)
      show "filter_ok c" "wants ?d = {t. tree_check (subscriptions c) t}"
        using reader_simD(1,2) [OF d(2)] by simp_all
      show "position ?d t = None" if "stream_of R c t = None" for t
        using that st reader_simD(3) [OF d(2), of t] by auto
      fix t rx' assume st': "stream_of R c t = Some rx'"
      show "\<exists>k\<le>length (history L t). position ?d t = Some k \<and> msg_pending V b' rx' = drop k (history L t)"
      proof (cases "t = u")
        case True
        with st st' rest lt show ?thesis by (intro exI [of _ "Suc n"]) simp
      next
        case False
        have "msg_pending V b' rx' = msg_pending V (sys_bus s) rx'"
          using own_stream [OF laws sim room c st' run] False by (simp add: br)
        with reader_simD(4) [OF d(2) st'] False show ?thesis by simp
      qed
    qed
    show ?thesis
    proof (cases ok)
      case True
      have "log_sim R V \<lparr>sys_bus = b', sys_conns = (sys_conns s)(i := (if go_on then Some c' else None))\<rparr> ?L"
        by (rule sim_it) (use own True in \<open>simp_all add: no_pub out(3) c'\<close>)
      then show ?thesis
        unfolding simulated_step_def using run_one [of log_step, OF step] True
        by (auto simp: a br out(1))
    next
      case False
      let ?L' = "?L\<lparr>readers := (readers ?L)(i := None)\<rparr>"
      have "log_step ?L (Closed i) ?L'" by (rule log_step.close_reader) simp
      from run_snoc [of log_step, OF run_one [of log_step, OF step] this]
      have "runs log_step L (trace_step E a) ?L'" using False by (simp add: a br out(1))
      moreover have "log_sim R V
          \<lparr>sys_bus = b', sys_conns = (sys_conns s)(i := (if go_on then Some c' else None))\<rparr> ?L'"
        by (rule sim_it) (use False in \<open>simp_all add: no_pub out(3)\<close>)
      ultimately show ?thesis unfolding simulated_step_def by blast
    qed
  qed
qed

lemma quiet_simulated:
  assumes laws: "runtime_laws R V" and sim: "log_sim R V s L" and room: "lossless R V s a"
    and a: "a = Iterate i br (out @ run_end go_on)" and c: "sys_conns s i = Some c"
    and run: "run_iteration R E br (c, sys_bus s) = (go_on, out, (c', b'))" and same: "c' = c"
    and br: "\<And>p. br \<noteq> On_command (Some (Subscribe p))" "\<And>p. br \<noteq> On_command (Some (Unsubscribe p))"
      "\<And>t ok. br \<noteq> On_stream t ok" and out: "carried out = []"
  shows "simulated_step R V E a L
    \<lparr>sys_bus = b', sys_conns = (sys_conns s)(i := (if go_on then Some c' else None))\<rparr>"
proof -
  obtain d where d: "readers L i = Some d" using log_simD(4) [OF sim c] by blast
  have none: "forward_of t br out = []" for t using br(3) by (cases br) auto
  note own = idle_own [OF laws sim room c run [unfolded same] none]
  let ?h = "\<lambda>t. history L t @ publish_of E t br"
  note sim_it = log_sim_iterate [OF laws sim room a c run]
  consider (publish) m where "br = On_command (Some (Publish m))" | (ends) "br = On_command None"
    | (event) "br = On_topic_event"
    using br by (metis branch.exhaust command.exhaust option.exhaust)
  then show ?thesis
  proof cases
    case (publish m)
    have go: "go_on" using run by (simp add: publish)
    let ?L = "L\<lparr>history := ?h\<rparr>"
    have "log_sim R V \<lparr>sys_bus = b', sys_conns = (sys_conns s)(i := (if go_on then Some c' else None))\<rparr> ?L"
      by (rule sim_it) (use own in \<open>simp_all add: same go\<close>)
    moreover have "runs log_step L (trace_step E a) ?L"
    proof (cases "message_bytes E m")
      case (Inl e)
      then have "?h = history L" by (auto simp: publish)
      with Inl show ?thesis using run_here [of log_step L] by (simp add: a publish)
    next
      case (Inr bs)
      have "?h = (history L)(msg_topic m := history L (msg_topic m) @ [bs])"
        by (auto simp: publish Inr)
      with log_step.publish [OF d, of "msg_topic m" bs] Inr show ?thesis
        by (simp add: a publish run_one)
    qed
    ultimately show ?thesis unfolding simulated_step_def by blast
  next
    case ends
    have go: "\<not> go_on" and h: "?h = history L" using run by (simp_all add: ends)
    let ?L = "L\<lparr>readers := (readers L)(i := None)\<rparr>"
    have "log_sim R V \<lparr>sys_bus = b', sys_conns = (sys_conns s)(i := (if go_on then Some c' else None))\<rparr> ?L"
      by (rule sim_it) (use h in \<open>simp_all add: go\<close>)
    then show ?thesis
      unfolding simulated_step_def using run_one [of log_step, OF log_step.close_reader [OF d]]
      by (auto simp: a ends)
  next
    case event
    have h: "?h = history L" by (simp add: event)
    have go: "go_on" using run by (auto simp: event split: prod.splits recv_result.splits)
    have "log_sim R V \<lparr>sys_bus = b', sys_conns = (sys_conns s)(i := (if go_on then Some c' else None))\<rparr> L"
      by (rule sim_it) (use own h in \<open>simp_all add: same go\<close>)
    then show ?thesis
      unfolding simulated_step_def using run_here [of log_step L] by (auto simp: a event out)
  qed
qed

lemma accept_simulated:
  assumes laws: "runtime_laws R V" and sim: "log_sim R V s L" and free: "sys_conns s i = None"
    and new: "conn_new R (sys_bus s) = (c, b)"
  shows "simulated_step R V E (Accept i run_start) L \<lparr>sys_bus = b, sys_conns = (sys_conns s)(i := Some c)\<rparr>"
proof -
  note inv = log_simD(1) [OF sim]
  note e = accept_effect [OF laws sys_invD(1) [OF inv] new]
  let ?L = "L\<lparr>readers := (readers L)(i \<mapsto> new_reader)\<rparr>"
  have "log_sim R V \<lparr>sys_bus = b, sys_conns = (sys_conns s)(i := Some c)\<rparr> ?L" (is "log_sim R V ?s ?L")
  proof (rule log_simI)
    show "sys_inv R V ?s" by (rule sys_step_inv [OF laws inv sys_step.accept [OF free new]])
    show "bus_abs R (sys_bus ?s) t = retains None (history ?L t)" for t
      using log_simD(2) [OF sim, of t] by (simp add: bus_abs_def e(7))
    show "readers ?L j = None" if "sys_conns ?s j = None" for j
      using that log_simD(3) [OF sim, of j] by (auto split: if_splits)
    fix j f assume f: "sys_conns ?s j = Some f"
    show "\<exists>d. readers ?L j = Some d \<and> reader_sim R V (history ?L) (sys_bus ?s) f d"
    proof (cases "j = i")
      case True
      have none: "\<not> tree_check glob_tree_new t" for t
        using new_tree_matches_nothing [of t] check_empty_topic [OF glob_tree_new_inv]
        by (cases "t = []") (auto simp: glob_tree_new_def)
      have "reader_sim R V (history L) b c new_reader"
        by (rule reader_simI)
          (use glob_tree_new_inv none in \<open>simp_all add: filter_ok_def e(4,9) new_reader_def glob_tree_new_def\<close>)
      with True f show ?thesis by simp
    next
      case False
      with f obtain d where d: "readers L j = Some d" "reader_sim R V (history L) (sys_bus s) f d"
        using log_simD(4) [OF sim] by auto
      from reader_sim_idle [OF d(2), of b "\<lambda>_. []"] d(1) False show ?thesis by (simp add: e(6))
    qed
  qed
  moreover have "readers L i = None" by (rule log_simD(3) [OF sim free])
  ultimately show ?thesis
    unfolding simulated_step_def using run_one [of log_step, OF log_step.open_reader] by auto
qed

lemma step_simulated:
  assumes laws: "runtime_laws R V" and sim: "log_sim R V s L" and room: "lossless R V s a"
    and step: "sys_step R E s a s'"
  shows "simulated_step R V E a L s'"
  using step
proof cases
  case (accept i c b)
  then show ?thesis using accept_simulated [OF laws sim accept(3,4)] by simp
next
  case (iterate i c br go_on out c' b')
  note facts = laws sim room iterate(1,3,4)
  show ?thesis
  proof (cases "\<exists>u ok. br = On_stream u ok")
    case True
    then show ?thesis using stream_simulated [OF facts] iterate(2) by blast
  next
    case False
    show ?thesis
      using laws iterate(4)
    proof (cases rule: iteration_cases)
      case same
      have "simulated_step R V E a L
          \<lparr>sys_bus = b', sys_conns = (sys_conns s)(i := (if go_on then Some c' else None))\<rparr>"
        by (rule quiet_simulated [OF facts same(1-3)]) (use False same(4) in blast)+
      then show ?thesis by (simp only: iterate(2))
    next
      case (subscribe p o')
      from subscribe_simulated [OF facts subscribe] show ?thesis by (simp only: iterate(2))
    next
      case (unsubscribe p)
      from unsubscribe_simulated [OF facts unsubscribe(1-3,5)] show ?thesis by (simp only: iterate(2))
    next
      case (join name b1)
      from join_simulated [OF facts join(1,2,4,5,6)] show ?thesis by (simp only: iterate(2))
    qed
  qed
qed

end
