(* ===== verification/Log_Claims.thy ===== *)
theory Log_Claims
  imports Log_Refinement
begin

text \<open>
  The refinement of the abstract log by the server, for whole runs, and what it gives a subscriber: a
  stretch of each topic's history without a gap.
\<close>

interpretation server_log: forward_simulation
  "\<lambda>s a s'. runtime_laws R V \<and> lossless R V s a \<and> sys_step R E s a s'" log_step "trace_step E" "log_sim R V"
  for R V E
  by unfold_locales (use step_simulated [unfolded simulated_step_def] in blast)

lemma reachable_runs:
  assumes "runtime_laws R V" and "reachable R E (lossless R V) w v acts s"
  shows "runs (\<lambda>s a s'. runtime_laws R V \<and> lossless R V s a \<and> sys_step R E s a s') (server_new R w v) acts s"
  using assms(2)
proof induction
  case start
  show ?case by (rule run_here)
next
  case (next_step acts s a s')
  show ?case by (rule run_snoc [OF next_step.IH]) (use next_step.hyps assms(1) in blast)
qed

lemma server_new_sim:
  assumes "runtime_laws R V"
  shows "log_sim R V (server_new R w v) log_new"
  using server_new_inv [OF assms]
  by (auto simp: log_sim_def log_new_def bus_abs_def server_new_def)

lemma reachable_log:
  assumes "runtime_laws R V" and "reachable R E (lossless R V) w v acts s"
  shows "\<exists>L. runs log_step log_new (trace_of E acts) L \<and> log_inv (trace_of E acts) L \<and> log_sim R V s L"
  using server_log.run_simulated [OF reachable_runs [OF assms] server_new_sim [OF assms(1)]]
    log_runs_inv [of "trace_of E acts"]
  unfolding trace_of_def by blast

section \<open>What a trace shows is what the handlers send\<close>

lemma show_events:
  "fold (show_event i) (List.map (Discovered j) ms) xs = (if j = i then xs @ ms else xs)"
  "fold (show_event i) (List.map (Delivered j t) ms) xs = (if j = i then xs @ ms else xs)"
  by (induction ms arbitrary: xs) simp_all

lemma shown_step:
  assumes laws: "runtime_laws R V" and step: "sys_step R E s a s'"
    and xs: "xs = carried out"
  shows "fold (show_event i) (trace_step E a) xs = carried (add_output i a out)"
  using step
proof cases
  case (accept j c b)
  then show ?thesis by (simp add: xs)
next
  case (iterate j c br go_on out' c' b)
  have eq: "fold (show_event i) (trace_step E a) xs = (if j = i then xs @ carried out' else xs)"
    using laws iterate(4)
  proof (cases rule: iteration_cases)
    case same
    then show ?thesis
      by (cases "(E, a)" rule: trace_step.cases)
        (auto simp: iterate(1) show_events split: sum.split)
  qed (simp_all add: iterate(1) show_events)
  then show ?thesis by (simp add: xs iterate(1) carried_append)
qed

lemma shown_trace:
  assumes laws: "runtime_laws R V" and run: "reachable R E ok w v acts s"
  shows "shown i (trace_of E acts) = carried (conn_outputs i acts)"
  using run
proof induction
  case start
  then show ?case by (simp add: trace_of_def)
next
  case (next_step acts s a s')
  have "shown i (trace_of E (acts @ [a])) = fold (show_event i) (trace_step E a) (shown i (trace_of E acts))"
    by (simp add: shown_def trace_of_def)
  with shown_step [OF laws next_step.hyps(3) next_step.IH] show ?case by (simp add: conn_outputs_snoc)
qed

section \<open>Properties\<close>

lemma run_7_lossless:
  "reachable rt0 ext0 (lossless rt0 views0) chans_new chans_new
     [act_1, act_2, act_3, act_4, act_5, act_4, act_7] sys_7"
proof -
  note defs = lossless_def sys_defs views0_def list_view_def stream_of_def rt0_def list_streammap_def
    CHANNEL_BUFFER_SIZE_def
  have l: "lossless rt0 views0 (server_new rt0 chans_new chans_new) act_1"
    "lossless rt0 views0 sys_1 act_2" "lossless rt0 views0 sys_2 act_3" "lossless rt0 views0 sys_3 act_4"
    "lossless rt0 views0 sys_4 act_5" "lossless rt0 views0 sys_5 act_4" "lossless rt0 views0 sys_6 act_7"
    using within_run [THEN within_budgeted] by (simp_all add: defs)
  note r = reachable.next_step [where R = rt0 and E = ext0 and ok = "lossless rt0 views0"]
  from r [OF r [OF r [OF r [OF r [OF r [OF r [OF reachable.start l(1) step_1] l(2) step_2] l(3) step_3]
    l(4) step_4] l(5) step_5] l(6) step_6] l(7) step_7]
  show ?thesis by simp
qed

text \<open>
  C3: the server refines the abstract publish/subscribe log. As long as no stream in use is full and the
  patterns stay in range, every run of the server, whatever the order of its steps, shows its clients
  exactly what a run of the abstract server shows, and ends in a state that the abstract one
  simulates: the topics' histories end in the retained messages, and each stream holds what follows
  its position in the history of its topic.
\<close>
theorem server_refines_log:
  assumes "runtime_laws R V" and "reachable R E (lossless R V) w v acts s"
  shows "\<exists>L. runs log_step log_new (trace_of E acts) L \<and> log_sim R V s L"
  using reachable_log [OF assms] by blast

theorem server_refines_log_witness:
  "\<exists>L. runs log_step log_new
     [Opened 0, Subscribed 0 (str ''a'') [], Opened 1, Published 1 (str ''a'') [1], Discovered 0 [1],
      Published 1 (str ''a'') [1], Delivered 0 (str ''a'') [1]] L \<and> log_sim rt0 views0 sys_7 L"
proof -
  have "trace_of ext0 [act_1, act_2, act_3, act_4, act_5, act_4, act_7] =
      [Opened 0, Subscribed 0 (str ''a'') [], Opened 1, Published 1 (str ''a'') [1], Discovered 0 [1],
       Published 1 (str ''a'') [1], Delivered 0 (str ''a'') [1]]"
    by (simp add: trace_of_def act_1_def act_2_def act_3_def act_4_def act_5_def act_7_def ext0_def
        msg_a_def out_of_def)
  with server_refines_log [OF runtime_laws0 run_7_lossless] show ?thesis by simp
qed

text \<open>
  C4: a subscriber misses nothing. As long as no stream in use is full and the patterns stay in range,
  what a connection that never unsubscribed was forwarded of a topic it follows, with what is still in
  its stream, is exactly the part of the topic's history after some message; and that message and the
  ones forwarded are among what its handler sent it, in the order of the history.
\<close>
theorem subscriber_sees_history:
  assumes laws: "runtime_laws R V" and run: "reachable R E (lossless R V) w v acts s"
    and c: "sys_conns s i = Some c" "stream_of R c t = Some rx" and steady: "steady i (trace_of E acts)"
  shows "\<exists>k. 0 < k \<and> k \<le> length (published E t acts) \<and>
    heard i t (trace_of E acts) @ msg_pending V (sys_bus s) rx = drop k (published E t acts) \<and>
    subseq (published E t acts ! (k - 1) # heard i t (trace_of E acts)) (carried (conn_outputs i acts))"
proof -
  obtain L where L: "log_inv (trace_of E acts) L" "log_sim R V s L" using reachable_log [OF laws run] by blast
  obtain d where d: "readers L i = Some d" "reader_sim R V (history L) (sys_bus s) c d"
    using log_simD(4) [OF L(2) c(1)] by blast
  have h: "history L t = published E t acts" using log_invD(1) [OF L(1)] by (simp add: written_trace)
  obtain n where n: "n \<le> length (published E t acts)" "position d t = Some n"
      "msg_pending V (sys_bus s) rx = drop n (published E t acts)"
    using reader_simD(4) [OF d(2) c(2)] by (auto simp: h)
  obtain k where k: "0 < k" "k \<le> n" "heard i t (trace_of E acts) = drop k (take n (published E t acts))"
      "subseq (drop (k - 1) (take n (published E t acts))) (shown i (trace_of E acts))"
    using log_invD(2) [OF L(1) d(1), of t] steady by (auto simp: n(2) in_order_Some in_step_def h)
  have "k - 1 < length (take n (published E t acts))" using k(1,2) n(1) by simp
  from Cons_nth_drop_Suc [OF this] k(1,2) n(1)
  have "drop (k - 1) (take n (published E t acts)) =
      published E t acts ! (k - 1) # drop k (take n (published E t acts))" by simp
  moreover have "drop k (take n (published E t acts)) @ drop n (published E t acts) =
      drop k (published E t acts)"
    using k(2) append_take_drop_id [of "n - k" "drop k (published E t acts)"] by (simp add: drop_take)
  ultimately show ?thesis
    using k n shown_trace [OF laws run] by (intro exI [of _ k]) simp
qed

theorem subscriber_sees_history_witness:
  "\<exists>k. 0 < k \<and> k \<le> length (published ext0 (str ''a'') [act_1, act_2, act_3, act_4, act_5, act_4, act_7]) \<and>
    heard 0 (str ''a'') (trace_of ext0 [act_1, act_2, act_3, act_4, act_5, act_4, act_7]) @
      msg_pending views0 (sys_bus sys_7) 2 =
      drop k (published ext0 (str ''a'') [act_1, act_2, act_3, act_4, act_5, act_4, act_7]) \<and>
    subseq (published ext0 (str ''a'') [act_1, act_2, act_3, act_4, act_5, act_4, act_7] ! (k - 1) #
        heard 0 (str ''a'') (trace_of ext0 [act_1, act_2, act_3, act_4, act_5, act_4, act_7]))
      (carried (conn_outputs 0 [act_1, act_2, act_3, act_4, act_5, act_4, act_7]))"
proof (rule subscriber_sees_history [OF runtime_laws0 run_7_lossless])
  show "sys_conns sys_7 0 = Some (conn_a tree_a [(str ''a'', 2)])" by (simp add: sys_7_def)
  show "stream_of rt0 (conn_a tree_a [(str ''a'', 2)]) (str ''a'') = Some 2"
    by (simp add: stream_of_def conn_a_def rt0_def list_streammap_def)
  show "steady 0 (trace_of ext0 [act_1, act_2, act_3, act_4, act_5, act_4, act_7])"
    by (simp add: steady_def trace_of_def act_1_def act_2_def act_3_def act_4_def act_5_def act_7_def
        ext0_def msg_a_def out_of_def)
qed

end
