(* ===== verification/Metrics.thy ===== *)
theory Metrics
  imports Prelude
begin

text \<open>
  \<open>lbroker/src/metrics.rs\<close>: the throughput and count metrics, their mutators, and the loop that
  collects updates and logs at an interval.
  A mutator and its metric are joined by an \<open>mpsc\<close> channel of \<open>tokio\<close>; the model takes the
  sequence of values the metric's receiver yields. The clock is an opaque type \<open>'i\<close> of instants.
  A round of \<open>listen_and_log\<close> is the instant at which \<open>listen\<close> starts, the updates received before
  the sleep ends, and the instant at which the metric is logged.
\<close>

section \<open>The trait\<close>

text \<open>\<open>listen_and_log\<close>, the provided method, over the methods \<open>listen\<close> and \<open>log_metric\<close>.\<close>

fun listen_and_log ::
  "('i \<Rightarrow> 'u list \<Rightarrow> 'm \<Rightarrow> 'm) \<Rightarrow> ('i \<Rightarrow> 'm \<Rightarrow> 'l \<times> 'm) \<Rightarrow> ('i \<times> 'u list \<times> 'i) list \<Rightarrow> 'm \<Rightarrow> 'l list \<times> 'm"
where
  "listen_and_log listen log_metric [] m = ([], m)"
| "listen_and_log listen log_metric ((t0, us, t1) # rounds) m =
     (let (line, m) = log_metric t1 (listen t0 us m);
          (lines, m) = listen_and_log listen log_metric rounds m
      in (line # lines, m))"

text \<open>What the trait promises: the value counts the updates, a log line shows name and value.\<close>

locale metric =
  fixes m_new :: "rstring \<Rightarrow> nat \<Rightarrow> 'm"
    and m_listen :: "'i \<Rightarrow> 'u list \<Rightarrow> 'm \<Rightarrow> 'm"
    and m_log :: "'i \<Rightarrow> 'm \<Rightarrow> 'l \<times> 'm"
    and m_value :: "'m \<Rightarrow> u64"
    and m_name :: "'m \<Rightarrow> rstring"
    and m_interval :: "'m \<Rightarrow> nat"
    and amount :: "'u \<Rightarrow> u64"
    and line_name :: "'l \<Rightarrow> rstring"
    and line_value :: "'l \<Rightarrow> u64"
  assumes new: "m_value (m_new n d) = 0" "m_name (m_new n d) = n" "m_interval (m_new n d) = d"
    and listen_value: "m_value (m_listen t us m) = m_value m + (\<Sum>u\<leftarrow>us. amount u)"
    and listen_frame: "m_name (m_listen t us m) = m_name m" "m_interval (m_listen t us m) = m_interval m"
    and log_line: "m_log t m = (l, m') \<Longrightarrow> line_name l = m_name m \<and> line_value l = m_value m"
    and log_frame: "m_log t m = (l, m') \<Longrightarrow> m_name m' = m_name m \<and> m_interval m' = m_interval m"
begin

lemma run_frame:
  "listen_and_log m_listen m_log rounds m = (ls, m') \<Longrightarrow>
   length ls = length rounds \<and> m_name m' = m_name m \<and> m_interval m' = m_interval m \<and>
   (\<forall>l\<in>set ls. line_name l = m_name m)"
proof (induction rounds arbitrary: m ls)
  case (Cons r rounds)
  obtain t0 us t1 where r: "r = (t0, us, t1)" by (cases r) auto
  obtain l m1 where l: "m_log t1 (m_listen t0 us m) = (l, m1)" by fastforce
  obtain ls' where ls': "listen_and_log m_listen m_log rounds m1 = (ls', m')" "ls = l # ls'"
    using Cons.prems by (auto simp: r l split: prod.splits)
  from Cons.IH [OF ls'(1)] log_line [OF l] log_frame [OF l] ls'(2) show ?case
    by (auto simp: listen_frame)
qed simp

end

text \<open>A metric that starts again after each line, and one that keeps its value.\<close>

locale resetting_metric = metric +
  assumes log_resets: "m_log t m = (l, m') \<Longrightarrow> m_value m' = 0"
begin

lemma lines_are_rounds:
  "listen_and_log m_listen m_log rounds m = (ls, m') \<Longrightarrow> m_value m = 0 \<Longrightarrow>
   List.map line_value ls = List.map (\<lambda>(t0, us, t1). \<Sum>u\<leftarrow>us. amount u) rounds \<and> m_value m' = 0"
proof (induction rounds arbitrary: m ls)
  case (Cons r rounds)
  obtain t0 us t1 where r: "r = (t0, us, t1)" by (cases r) auto
  obtain l m1 where l: "m_log t1 (m_listen t0 us m) = (l, m1)" by fastforce
  obtain ls' where ls': "listen_and_log m_listen m_log rounds m1 = (ls', m')" "ls = l # ls'"
    using Cons.prems by (auto simp: r l split: prod.splits)
  from Cons.IH [OF ls'(1) log_resets [OF l]] log_line [OF l] ls'(2) Cons.prems(2) show ?case
    by (simp add: listen_value r)
qed simp

end

locale cumulative_metric = metric +
  assumes log_keeps: "m_log t m = (l, m') \<Longrightarrow> m_value m' = m_value m"
begin

lemma value_is_total:
  "listen_and_log m_listen m_log rounds m = (ls, m') \<Longrightarrow>
   m_value m' = m_value m + (\<Sum>(t0, us, t1)\<leftarrow>rounds. \<Sum>u\<leftarrow>us. amount u)"
proof (induction rounds arbitrary: m ls)
  case (Cons r rounds)
  obtain t0 us t1 where r: "r = (t0, us, t1)" by (cases r) auto
  obtain l m1 where l: "m_log t1 (m_listen t0 us m) = (l, m1)" by fastforce
  obtain ls' where ls': "listen_and_log m_listen m_log rounds m1 = (ls', m')"
    using Cons.prems by (auto simp: r l split: prod.splits)
  from Cons.IH [OF ls'] log_keeps [OF l] show ?case by (simp add: listen_value r)
qed simp

end

section \<open>Throughput\<close>

text \<open>The message a \<open>ThroughputMutator\<close> sends for one increment.\<close>

definition throughput_mutator_increment :: u64 where
  "throughput_mutator_increment = 1"

record 'i throughput =
  tp_name :: rstring
  tp_value :: u64
  tp_start :: "'i option"
  tp_interval :: nat

definition throughput_new :: "rstring \<Rightarrow> nat \<Rightarrow> 'i throughput" where
  "throughput_new name interval =
     \<lparr>tp_name = name, tp_value = 0, tp_start = None, tp_interval = interval\<rparr>"

definition throughput_value :: "'i throughput \<Rightarrow> u64" where
  "throughput_value self = tp_value self"

definition throughput_log_interval :: "'i throughput \<Rightarrow> nat" where
  "throughput_log_interval self = tp_interval self"

definition throughput_increment :: "u64 \<Rightarrow> 'i throughput \<Rightarrow> 'i throughput" where
  "throughput_increment by_n self = self\<lparr>tp_value := tp_value self + by_n\<rparr>"

text \<open>
  \<open>rate\<close> computes with \<open>f64\<close>: \<open>per_second v start now\<close> stands for the quotient of the value and the
  elapsed seconds, \<open>zero\<close> for \<open>0.\<close>
\<close>

definition throughput_rate :: "(u64 \<Rightarrow> 'i \<Rightarrow> 'i \<Rightarrow> 'f) \<Rightarrow> 'f \<Rightarrow> 'i \<Rightarrow> 'i throughput \<Rightarrow> 'f" where
  "throughput_rate per_second zero now self =
     (case tp_start self of
        Some start \<Rightarrow> per_second (tp_value self) start now
      | None \<Rightarrow> zero)"

definition throughput_reset :: "'i \<Rightarrow> 'i throughput \<Rightarrow> 'i throughput" where
  "throughput_reset now self = self\<lparr>tp_value := 0, tp_start := Some now\<rparr>"

text \<open>The line \<open>log_metric\<close> writes: metric name, value, rate.\<close>

definition throughput_log_metric ::
  "(u64 \<Rightarrow> 'i \<Rightarrow> 'i \<Rightarrow> 'f) \<Rightarrow> 'f \<Rightarrow> 'i \<Rightarrow> 'i throughput \<Rightarrow> (rstring \<times> u64 \<times> 'f) \<times> 'i throughput" where
  "throughput_log_metric per_second zero now self =
     ((tp_name self, tp_value self, throughput_rate per_second zero now self),
      throughput_reset now self)"

definition throughput_listen :: "'i \<Rightarrow> u64 list \<Rightarrow> 'i throughput \<Rightarrow> 'i throughput" where
  "throughput_listen now updates self =
     fold throughput_increment updates (self\<lparr>tp_start := Some now\<rparr>)"

lemma fold_throughput_increment:
  "tp_value (fold throughput_increment us m) = tp_value m + (\<Sum>u\<leftarrow>us. u)"
  "tp_name (fold throughput_increment us m) = tp_name m"
  "tp_interval (fold throughput_increment us m) = tp_interval m"
  by (induction us arbitrary: m) (simp_all add: throughput_increment_def add.assoc)

interpretation tp: resetting_metric throughput_new throughput_listen
  "throughput_log_metric per_second zero" throughput_value tp_name throughput_log_interval "\<lambda>u. u" fst "\<lambda>l. fst (snd l)"
  for per_second :: "u64 \<Rightarrow> 'i \<Rightarrow> 'i \<Rightarrow> 'f" and zero
  by unfold_locales
    (auto simp: throughput_new_def throughput_listen_def fold_throughput_increment
      throughput_log_metric_def throughput_reset_def throughput_value_def throughput_log_interval_def)

section \<open>Count\<close>

text \<open>The messages a \<open>CountMutator\<close> sends: \<open>n\<close>, and \<open>n * -1\<close>.\<close>

definition count_mutator_add :: "i64 \<Rightarrow> i64" where
  "count_mutator_add n = n"

definition count_mutator_subtract :: "i64 \<Rightarrow> i64" where
  "count_mutator_subtract n = n * - 1"

record count =
  c_name :: rstring
  c_value :: u64
  c_interval :: nat

definition count_new :: "rstring \<Rightarrow> nat \<Rightarrow> count" where
  "count_new name interval = \<lparr>c_name = name, c_value = 0, c_interval = interval\<rparr>"

definition count_value :: "count \<Rightarrow> u64" where
  "count_value self = c_value self"

definition count_log_interval :: "count \<Rightarrow> nat" where
  "count_log_interval self = c_interval self"

definition count_add :: "u64 \<Rightarrow> count \<Rightarrow> count" where
  "count_add n self = self\<lparr>c_value := c_value self + n\<rparr>"

definition count_subtract :: "u64 \<Rightarrow> count \<Rightarrow> count" where
  "count_subtract n self = self\<lparr>c_value := c_value self - n\<rparr>"

definition count_update :: "i64 \<Rightarrow> count \<Rightarrow> count" where
  "count_update i self =
     (if 0 \<le> sint i then count_add i self else count_subtract (i * - 1) self)"

definition count_listen :: "'i \<Rightarrow> i64 list \<Rightarrow> count \<Rightarrow> count" where
  "count_listen now updates self = fold count_update updates self"

definition count_log_metric :: "'i \<Rightarrow> count \<Rightarrow> (rstring \<times> u64) \<times> count" where
  "count_log_metric now self = ((c_name self, c_value self), self)"

lemma count_update_value: "c_value (count_update i m) = c_value m + i"
  by (simp add: count_update_def count_add_def count_subtract_def)

lemma count_update_frame:
  "c_name (count_update i m) = c_name m" "c_interval (count_update i m) = c_interval m"
  by (simp_all add: count_update_def count_add_def count_subtract_def)

lemma fold_count_update:
  "c_value (fold count_update us m) = c_value m + (\<Sum>u\<leftarrow>us. u)"
  "c_name (fold count_update us m) = c_name m"
  "c_interval (fold count_update us m) = c_interval m"
  by (induction us arbitrary: m) (simp_all add: count_update_value count_update_frame add.assoc)

interpretation cm: cumulative_metric count_new count_listen count_log_metric
  count_value c_name count_log_interval "\<lambda>u. u" fst snd
  by unfold_locales
    (auto simp: count_new_def count_listen_def fold_count_update count_log_metric_def count_value_def
      count_log_interval_def)

section \<open>Properties\<close>

text \<open>
  Every line a new throughput metric logs carries its name and reports exactly the increments
  received since the previous line, none lost and none counted twice (in \<open>u64\<close> arithmetic), and
  after each line the metric starts again from zero.
\<close>
theorem throughput_lines:
  assumes "listen_and_log throughput_listen (throughput_log_metric per_second zero) rounds
    (throughput_new name d) = (ls, m)"
  shows "List.map (\<lambda>l. (fst l, fst (snd l))) ls =
      List.map (\<lambda>(t0, us, t1). (name, \<Sum>u\<leftarrow>us. u)) rounds \<and>
    throughput_value m = 0 \<and> throughput_log_interval m = d"
proof -
  have v: "List.map (\<lambda>l. fst (snd l)) ls = List.map (\<lambda>(t0, us, t1). \<Sum>u\<leftarrow>us. u) rounds"
      "throughput_value m = 0"
    using tp.lines_are_rounds [OF assms tp.new(1)] by auto
  have f: "length ls = length rounds" "\<forall>l\<in>set ls. fst l = name" "throughput_log_interval m = d"
    using tp.run_frame [OF assms] by (auto simp: throughput_new_def throughput_log_interval_def)
  have "List.map (\<lambda>l. (fst l, fst (snd l))) ls = List.map (Pair name) (List.map (\<lambda>l. fst (snd l)) ls)"
    using f(2) by (auto simp: comp_def)
  also have "\<dots> = List.map (\<lambda>(t0, us, t1). (name, \<Sum>u\<leftarrow>us. u)) rounds"
    unfolding v(1) by (auto simp: comp_def)
  finally show ?thesis using v(2) f(3) by simp
qed

theorem throughput_lines_witness:
  "List.map (\<lambda>l. (fst l, fst (snd l))) [(str ''commands'', 2 :: u64, 7 :: nat)] =
     List.map (\<lambda>(t0, us, t1). (str ''commands'', \<Sum>u\<leftarrow>us. u)) [(0 :: nat, [1, 1 :: u64], 5 :: nat)] \<and>
   throughput_value \<lparr>tp_name = str ''commands'', tp_value = 0, tp_start = Some (5 :: nat), tp_interval = 10\<rparr> = 0 \<and>
   throughput_log_interval \<lparr>tp_name = str ''commands'', tp_value = 0, tp_start = Some (5 :: nat), tp_interval = 10\<rparr> = 10"
  by (rule throughput_lines [where per_second = "\<lambda>_ _ _. 7" and zero = 0])
    (simp add: throughput_listen_def throughput_log_metric_def throughput_new_def
      throughput_increment_def throughput_rate_def throughput_reset_def)

end
