(* ===== verification/Server_Run.thy ===== *)
theory Server_Run
  imports Metrics Tcp_Adapter Bus
begin

text \<open>
  \<open>Server\<close> and \<open>MetricsMutator\<close> of \<open>lbroker/src/server.rs\<close>: what a server is made of, the three
  metrics it registers, and its accept loop. The socket calls are inputs: the result of \<open>bind\<close>, and
  the results of \<open>accept\<close> in order. What the handlers do from then on is in theory \<open>System\<close>.
\<close>

record ('m, 'w, 'v, 'h) server =
  srv_port :: "16 word"
  srv_bus :: "('m, 'w, 'v, 'h) bus"
  srv_buffer_config :: buffer_config

definition make_server ::
  "('m, 'w, 'v, 's, 'h) runtime \<Rightarrow> 'w \<Rightarrow> 'v \<Rightarrow> 16 word \<Rightarrow> buffer_config \<Rightarrow> ('m, 'w, 'v, 'h) server" where
  "make_server R w v port cfg =
     \<lparr>srv_port = port, srv_bus = bus_new R w v, srv_buffer_config = cfg\<rparr>"

text \<open>The metrics that \<open>register_metrics\<close> starts; a mutator of each goes to every connection.\<close>

record 'i server_metrics =
  command_throughput :: "'i throughput"
  connection_count :: count
  messages_sent :: "'i throughput"

definition register_metrics :: "'i server_metrics" where
  "register_metrics =
     \<lparr>command_throughput = throughput_new (str ''commands'') (unat M_COMMANDS_INTERVAL_S),
      connection_count = count_new (str ''connections'') (unat M_CONNECTIONS_INTERVAL_S),
      messages_sent = throughput_new (str ''messages-sent'') (unat M_MESSAGES_SENT_INTERVAL_S)\<rparr>"

text \<open>
  \<open>run\<close>: bind, then accept and spawn until an accept fails, which ends the loop with its error
  (\<open>?\<close>). The result is the sockets a connection was spawned for, each with the server's buffer
  configuration, and the error.
\<close>

fun accept_loop :: "buffer_config \<Rightarrow> ('e + 'sock) list \<Rightarrow> ('sock \<times> buffer_config) list \<times> 'e option" where
  "accept_loop cfg [] = ([], None)"
| "accept_loop cfg (Inr socket # results) =
     (let (spawned, e) = accept_loop cfg results in ((socket, cfg) # spawned, e))"
| "accept_loop cfg (Inl e # results) = ([], Some e)"

definition server_run ::
  "('m, 'w, 'v, 'h) server \<Rightarrow> 'e + unit \<Rightarrow> ('e + 'sock) list \<Rightarrow>
   ('sock \<times> buffer_config) list \<times> 'e option" where
  "server_run self bind results =
     (case bind of
        Inl e \<Rightarrow> ([], Some e)
      | Inr listener \<Rightarrow> accept_loop (srv_buffer_config self) results)"

lemma accept_loop_all:
  "accept_loop cfg (List.map Inr socks) = (List.map (\<lambda>s. (s, cfg)) socks, None)"
  by (induction socks) simp_all

text \<open>
  One failed accept ends the server's accept loop: the connections before it are served, with
  the server's buffer configuration, and every later one is turned away, whatever it is.
\<close>
theorem accept_error_ends_server:
  "server_run self (Inr ()) (List.map Inr socks @ Inl e # later) =
     (List.map (\<lambda>s. (s, srv_buffer_config self)) socks, Some e)"
  by (simp add: server_run_def) (induction socks, simp_all)

end
