(* ===== verification/Metric_Tasks.thy ===== *)
theory Metric_Tasks
  imports Server_Run Mpsc
begin

text \<open>
  A metric as a task (\<open>lbroker/src/metrics.rs\<close>): any number of mutators put updates into its channel, the
  task takes them out in \<open>listen\<close>, and wakes up to log. The four kinds of step interleave at will; a
  mutator waits while the channel is full. Whatever the interleaving, no update is lost.
\<close>

section \<open>Mutators, channel and task\<close>

record ('m, 'q, 'u, 'l) metric_task =
  mt_metric :: 'm
  mt_channel :: 'q
  mt_sent :: "'u list"
  mt_lines :: "'l list"

text \<open>A new metric has an empty channel; \<open>mt_sent\<close> and \<open>mt_lines\<close> record what happened since.\<close>

definition metric_task_new :: "('q, 'u) mpsc \<Rightarrow> 'm \<Rightarrow> ('m, 'q, 'u, 'l) metric_task" where
  "metric_task_new C m =
     \<lparr>mt_metric = m, mt_channel = mq_channel C CHANNEL_BUFFER_SIZE, mt_sent = [], mt_lines = []\<rparr>"

text \<open>
  \<open>start\<close> is the beginning of a call of \<open>listen\<close>, \<open>update\<close> what it does with a value it receives, \<open>logm\<close> is
  \<open>log_metric\<close>. A call of \<open>listen\<close> that the sleep cancels has received nothing it has not applied.
\<close>

inductive metric_step ::
  "('q, 'u) mpsc \<Rightarrow> ('i \<Rightarrow> 'm \<Rightarrow> 'm) \<Rightarrow> ('u \<Rightarrow> 'm \<Rightarrow> 'm) \<Rightarrow> ('i \<Rightarrow> 'm \<Rightarrow> 'l \<times> 'm) \<Rightarrow>
   ('m, 'q, 'u, 'l) metric_task \<Rightarrow> ('m, 'q, 'u, 'l) metric_task \<Rightarrow> bool" for C start update logm where
  mutate: "mq_send C u (mt_channel s) = Some q \<Longrightarrow>
     metric_step C start update logm s (s\<lparr>mt_channel := q, mt_sent := mt_sent s @ [u]\<rparr>)"
| listen: "metric_step C start update logm s (s\<lparr>mt_metric := start t (mt_metric s)\<rparr>)"
| receive: "mq_recv C (mt_channel s) = Some (u, q) \<Longrightarrow>
     metric_step C start update logm s (s\<lparr>mt_channel := q, mt_metric := update u (mt_metric s)\<rparr>)"
| wake: "logm t (mt_metric s) = (l, m) \<Longrightarrow>
     metric_step C start update logm s (s\<lparr>mt_metric := m, mt_lines := mt_lines s @ [l]\<rparr>)"

inductive metric_run ::
  "('q, 'u) mpsc \<Rightarrow> ('i \<Rightarrow> 'm \<Rightarrow> 'm) \<Rightarrow> ('u \<Rightarrow> 'm \<Rightarrow> 'm) \<Rightarrow> ('i \<Rightarrow> 'm \<Rightarrow> 'l \<times> 'm) \<Rightarrow> 'm \<Rightarrow>
   ('m, 'q, 'u, 'l) metric_task \<Rightarrow> bool" for C start update logm m where
  metric_start: "metric_run C start update logm m (metric_task_new C m)"
| metric_next: "metric_run C start update logm m s \<Longrightarrow> metric_step C start update logm s s' \<Longrightarrow>
     metric_run C start update logm m s'"

section \<open>Nothing is lost\<close>

text \<open>
  An invariant of the metric and the lines, over the updates received so far, that the calls keep
  is one of the task; what was sent is what was received and what is in the channel.
\<close>

lemma metric_run_received:
  assumes laws: "mpsc_laws C" and run: "metric_run C start update logm m s"
    and init: "P [] m []"
    and starts: "\<And>us m ls t. P us m ls \<Longrightarrow> P us (start t m) ls"
    and updates: "\<And>us m ls u. P us m ls \<Longrightarrow> P (us @ [u]) (update u m) ls"
    and logs: "\<And>us m ls t l m'. P us m ls \<Longrightarrow> logm t m = (l, m') \<Longrightarrow> P us m' (ls @ [l])"
  shows "\<exists>us. mt_sent s = us @ mq_contents C (mt_channel s) \<and> P us (mt_metric s) (mt_lines s)"
  using run
proof induction
  case metric_start
  show ?case using init by (simp add: metric_task_new_def channel_new(1) [OF laws])
next
  case (metric_next s s')
  then obtain us where us: "mt_sent s = us @ mq_contents C (mt_channel s)" "P us (mt_metric s) (mt_lines s)"
    by blast
  from metric_next.hyps(2) show ?case
  proof cases
    case (mutate u q)
    then show ?thesis using us send_some(2) [OF laws mutate(2)] by auto
  next
    case (listen t)
    then show ?thesis using us starts by auto
  next
    case (receive u q)
    then have "mt_sent s' = (us @ [u]) @ mq_contents C (mt_channel s')"
      using us(1) recv_iff(2) [OF laws receive(2)] by simp
    moreover have "P (us @ [u]) (mt_metric s') (mt_lines s')"
      using updates [OF us(2)] by (simp add: receive(1))
    ultimately show ?thesis by blast
  next
    case (wake t l m)
    then show ?thesis using us logs by auto
  qed
qed

section \<open>Throughput\<close>

definition throughput_start :: "'i \<Rightarrow> 'i throughput \<Rightarrow> 'i throughput" where
  "throughput_start now self = self\<lparr>tp_start := Some now\<rparr>"

lemma throughput_listen_steps:
  "throughput_listen now us self = fold throughput_increment us (throughput_start now self)"
  by (simp add: throughput_listen_def throughput_start_def)

abbreviation throughput_run where
  "throughput_run C per_second zero \<equiv>
     metric_run C throughput_start throughput_increment (throughput_log_metric per_second zero)"

text \<open>What was logged, with the value since, is the number of updates, while that is in range.\<close>

definition tp_total :: "u64 list \<Rightarrow> 'i throughput \<Rightarrow> (rstring \<times> u64 \<times> 'f) list \<Rightarrow> bool" where
  "tp_total us m ls \<longleftrightarrow>
     ((\<forall>u\<in>set us. u = throughput_mutator_increment) \<longrightarrow> length us < 2 ^ 64 \<longrightarrow>
        (\<Sum>l\<leftarrow>ls. unat (fst (snd l))) + unat (tp_value m) = length us)"

lemma throughput_task_total:
  assumes laws: "mpsc_laws C"
    and run: "throughput_run C per_second zero (throughput_new name d) s"
    and ones: "\<forall>u\<in>set (mt_sent s). u = throughput_mutator_increment" and bound: "length (mt_sent s) < 2 ^ 64"
  shows "(\<Sum>l\<leftarrow>mt_lines s. unat (fst (snd l))) + unat (tp_value (mt_metric s)) +
    length (mq_contents C (mt_channel s)) = length (mt_sent s)"
proof -
  have "\<exists>us. mt_sent s = us @ mq_contents C (mt_channel s) \<and> tp_total us (mt_metric s) (mt_lines s)"
  proof (rule metric_run_received [OF laws run])
    show "tp_total [] (throughput_new name d) []" by (simp add: tp_total_def throughput_new_def)
    show "tp_total us (throughput_start t m) ls" if "tp_total us m ls" for us m ls t
      using that by (simp add: tp_total_def throughput_start_def)
    show "tp_total (us @ [u]) (throughput_increment u m) ls" if "tp_total us m ls" for us m ls u
      unfolding tp_total_def
    proof (intro impI)
      assume u: "\<forall>u\<in>set (us @ [u]). u = throughput_mutator_increment" "length (us @ [u]) < 2 ^ 64"
      then have old: "(\<Sum>l\<leftarrow>ls. unat (fst (snd l))) + unat (tp_value m) = length us"
        using that by (simp add: tp_total_def)
      then have "unat (tp_value m) + 1 < 2 ^ 64" using u(2) by simp
      with old u(1) show "(\<Sum>l\<leftarrow>ls. unat (fst (snd l))) + unat (tp_value (throughput_increment u m)) =
          length (us @ [u])"
        by (simp add: throughput_increment_def throughput_mutator_increment_def unat_u64_Suc)
    qed
    show "tp_total us m' (ls @ [l])"
      if "tp_total us m ls" "throughput_log_metric per_second zero t m = (l, m')" for us m ls t l m'
      using that by (auto simp: tp_total_def throughput_log_metric_def throughput_reset_def)
  qed
  then obtain us where us: "mt_sent s = us @ mq_contents C (mt_channel s)" "tp_total us (mt_metric s) (mt_lines s)"
    by blast
  have "(\<Sum>l\<leftarrow>mt_lines s. unat (fst (snd l))) + unat (tp_value (mt_metric s)) = length us"
    using us(2) ones bound by (simp add: tp_total_def us(1))
  then show ?thesis by (simp add: us(1))
qed

section \<open>Count\<close>

abbreviation count_run where
  "count_run C \<equiv> metric_run C (\<lambda>(now :: unit) m. m) count_update count_log_metric"

lemma count_task_received:
  assumes laws: "mpsc_laws C" and run: "count_run C (count_new name d) s"
  shows "\<exists>us. mt_sent s = us @ mq_contents C (mt_channel s) \<and> c_value (mt_metric s) = (\<Sum>u\<leftarrow>us. u)"
  using laws run
proof (rule metric_run_received [where P = "\<lambda>us m ls. c_value m = (\<Sum>u\<leftarrow>us. u)"])
  show "c_value (count_new name d) = (\<Sum>u\<leftarrow>[]. u)" by (simp add: count_new_def)
qed (simp_all add: count_update_value count_log_metric_def)

end
