(* ===== verification/Metric_Claims.thy ===== *)
theory Metric_Claims
  imports Metric_Tasks Provenance
begin

text \<open>
  The two throughput metrics of the whole server: what they log is how many commands the handlers
  handled, and how many messages they forwarded from their streams.
\<close>

section \<open>What the handlers report\<close>

text \<open>The outputs of all handlers, and the number of commands handled, in a sequence of steps.\<close>

fun emitted :: "'a action list \<Rightarrow> conn_output list" where
  "emitted [] = []"
| "emitted (Accept i out # acts) = out @ emitted acts"
| "emitted (Iterate i br out # acts) = out @ emitted acts"

fun handled :: "'a action list \<Rightarrow> nat" where
  "handled [] = 0"
| "handled (Iterate i (On_command (Some cmd)) out # acts) = Suc (handled acts)"
| "handled (a # acts) = handled acts"

lemma emitted_append: "emitted (xs @ ys) = emitted xs @ emitted ys"
  by (induction xs rule: emitted.induct) auto

lemma handled_append: "handled (xs @ ys) = handled xs + handled ys"
  by (induction xs rule: handled.induct) auto

definition reported :: "conn_output \<Rightarrow> conn_output list \<Rightarrow> nat" where
  "reported x out = length (filter (\<lambda>y. y = x) out)"

lemma reported_simps [simp]:
  "reported x [] = 0" "reported x (y # out) = (if y = x then 1 else 0) + reported x out"
  "reported x (xs @ ys) = reported x xs + reported x ys"
  by (simp_all add: reported_def)

lemma reported_start_end [simp]:
  "reported Command_increment run_start = 0" "reported Command_increment (run_end go_on) = 0"
  "reported Sent_increment run_start = 0" "reported Sent_increment (run_end go_on) = 0"
  by (simp_all add: run_start_def run_end_def)

definition only_retained :: "conn_output list \<Rightarrow> bool" where
  "only_retained out \<longleftrightarrow> (\<forall>x\<in>set out. \<exists>m. x = Try_send m)"

lemma only_retained_counts:
  "only_retained out \<Longrightarrow> reported Command_increment out = 0 \<and> reported Sent_increment out = 0 \<and> sent out = []"
  unfolding only_retained_def by (induction out) auto

lemma retained_only: "only_retained (concat (List.map (retained R c b) ts))"
  by (auto simp: only_retained_def retained_def split: if_splits option.splits)

lemma iteration_reports:
  assumes laws: "runtime_laws R V" and run: "run_iteration R E br (c, b) = (go_on, out, (c', b'))"
  shows "reported Command_increment out = handled [Iterate i br out'] \<and>
    reported Sent_increment out = length (sent out)"
proof (cases br)
  case (On_command cmd)
  show ?thesis
  proof (cases cmd)
    case None
    with run On_command show ?thesis by simp
  next
    case (Some cmd')
    obtain o' where o': "out = Command_increment # Log_command (command_log (value_debug E) cmd') # o'"
        "handle_command R E cmd' (c, b) = (go_on, o', (c', b'))"
      using run On_command Some by (auto simp: Let_def split: prod.splits)
    have "only_retained o'"
    proof (cases cmd')
      case (Subscribe p)
      then have "handle_subscribe R p (c, b) = (o', (c', b'))" using o'(2) by simp
      from handle_subscribe_effect(4) [OF laws this] show ?thesis using retained_only by simp
    qed (use o'(2) in \<open>simp_all add: only_retained_def\<close>)
    from only_retained_counts [OF this] show ?thesis by (simp add: o'(1) On_command Some)
  qed
next
  case On_topic_event
  have "only_retained out"
  proof (cases "out = []")
    case False
    then obtain r v where poll: "bc_recv (rt_events R) (topic_events c) (event_channels b) = (r, v)"
        and "\<exists>e. r = Received e"
      using run On_topic_event by (auto split: prod.splits recv_result.splits)
    then obtain name where "r = Received (Created name)" by (metis topic_event.exhaust)
    with run On_topic_event poll
    have hn: "handle_new_topic R name (c, b\<lparr>event_channels := v\<rparr>) = (out, (c', b'))" by simp
    with False have "conn_subscribe_to_topic R name (c, b\<lparr>event_channels := v\<rparr>) = (out, (c', b'))"
      by (auto simp: handle_new_topic_def split: if_splits)
    from conn_subscribe_effect(2) [OF laws this]
    show ?thesis using retained_only [of R c "b\<lparr>event_channels := v\<rparr>" "[name]"] by simp
  qed (simp add: only_retained_def)
  from only_retained_counts [OF this] show ?thesis by (simp add: On_topic_event)
next
  case (On_stream u ok)
  have "out = [] \<or> (\<exists>m. out = [Sent_increment, Send_bytes m])"
    using run On_stream by (auto simp: forward_message_to_client_def
        split: option.splits prod.splits recv_result.splits)
  then show ?thesis by (auto simp: On_stream)
qed

lemma reachable_reports:
  assumes laws: "runtime_laws R V" and run: "reachable R E ok w v acts s"
  shows "reported Command_increment (emitted acts) = handled acts \<and>
    reported Sent_increment (emitted acts) = length (sent (emitted acts))"
  using run
proof induction
  case (next_step acts s a s')
  from next_step.hyps(3) show ?case
  proof cases
    case (accept i c b)
    with next_step.IH show ?thesis by (simp add: emitted_append handled_append sent_append)
  next
    case (iterate i c br go_on out c' b)
    from iteration_reports [OF laws iterate(4), of i "out @ run_end go_on"] next_step.IH
    show ?thesis by (simp add: iterate(1) emitted_append handled_append sent_append)
  qed
qed simp

section \<open>Properties\<close>

text \<open>The updates that a throughput metric's mutators send for the outputs of the handlers.\<close>

definition increments :: "conn_output \<Rightarrow> conn_output list \<Rightarrow> u64 list" where
  "increments x out = List.map (\<lambda>_. throughput_mutator_increment) (filter (\<lambda>y. y = x) out)"

lemma increments_length: "length (increments x out) = reported x out"
  by (simp add: increments_def reported_def)

lemma metric_counts:
  assumes mq: "mpsc_laws C" and run: "throughput_run C per_second zero (throughput_new name d) mt"
    and sent: "mt_sent mt = increments x out" and bound: "length out < 2 ^ 64"
  shows "(\<Sum>l\<leftarrow>mt_lines mt. unat (fst (snd l))) + unat (tp_value (mt_metric mt)) +
    length (mq_contents C (mt_channel mt)) = reported x out"
proof -
  have "length (mt_sent mt) < 2 ^ 64"
    using bound length_filter_le [of "\<lambda>y. y = x" out] unfolding sent increments_length reported_def
    by linarith
  moreover have "\<forall>u\<in>set (mt_sent mt). u = throughput_mutator_increment" by (auto simp: sent increments_def)
  ultimately show ?thesis using throughput_task_total [OF mq run] by (simp only: sent increments_length)
qed

text \<open>
  C39: the throughput metrics are exact. In every run of the server, however the mutators, the metrics'
  channels and tasks and their wake-ups interleave: what the commands metric has logged, with its value
  since its last line and the updates still in its channel, is the number of commands the handlers
  handled; and what the messages-sent metric has, in the same way, is the number of messages the
  handlers forwarded from streams. Retained messages are not counted.
\<close>
theorem throughput_metrics_exact:
  assumes laws: "runtime_laws R V" and run: "reachable R E ok w v acts s"
    and mq: "mpsc_laws C" and bound: "length (emitted acts) < 2 ^ 64"
    and cmds: "throughput_run C per_second zero (command_throughput register_metrics) mc"
      "mt_sent mc = increments Command_increment (emitted acts)"
    and msgs: "throughput_run C per_second zero (messages_sent register_metrics) mm"
      "mt_sent mm = increments Sent_increment (emitted acts)"
  shows "(\<Sum>l\<leftarrow>mt_lines mc. unat (fst (snd l))) + unat (tp_value (mt_metric mc)) +
      length (mq_contents C (mt_channel mc)) = handled acts \<and>
    (\<Sum>l\<leftarrow>mt_lines mm. unat (fst (snd l))) + unat (tp_value (mt_metric mm)) +
      length (mq_contents C (mt_channel mm)) = length (sent (emitted acts))"
proof -
  note r = reachable_reports [OF laws run]
  have m: "command_throughput register_metrics = throughput_new (str ''commands'') (unat M_COMMANDS_INTERVAL_S)"
    "messages_sent register_metrics = throughput_new (str ''messages-sent'') (unat M_MESSAGES_SENT_INTERVAL_S)"
    by (simp_all add: register_metrics_def)
  from metric_counts [OF mq cmds(1) [unfolded m] cmds(2) bound]
    metric_counts [OF mq msgs(1) [unfolded m] msgs(2) bound] r
  show ?thesis by simp
qed

text \<open>
  For the run of two clients: the commands metric has received the first of its three updates and
  logged it, received the second, and has the third in its channel; the messages-sent metric has
  received its only update.
\<close>

definition task :: "rstring \<Rightarrow> u64 \<Rightarrow> nat \<Rightarrow> nat option \<Rightarrow> u64 list \<Rightarrow> u64 list \<Rightarrow>
   (rstring \<times> u64 \<times> nat) list \<Rightarrow> (nat throughput, nat \<times> u64 list, u64, rstring \<times> u64 \<times> nat) metric_task" where
  "task name n d t q us ls = \<lparr>mt_metric = \<lparr>tp_name = name, tp_value = n, tp_start = t, tp_interval = d\<rparr>,
     mt_channel = (CHANNEL_BUFFER_SIZE, q), mt_sent = us, mt_lines = ls\<rparr>"

abbreviation run0 where
  "run0 \<equiv> throughput_run list_mpsc (\<lambda>_ _ _. 7 :: nat) 0"

lemma list_calls:
  "length q < n \<Longrightarrow> mq_send list_mpsc m (n, q) = Some (n, q @ [m])"
  "mq_recv list_mpsc (n, m # q) = Some (m, (n, q))" "mq_channel list_mpsc n = (n, [])"
  "mq_contents list_mpsc (n, q) = q"
  by (simp_all add: list_mpsc_def)

lemma task_start: "run0 (throughput_new name d) (task name 0 d None [] [] [])"
  using metric_start [of list_mpsc throughput_start throughput_increment
      "throughput_log_metric (\<lambda>_ _ _. 7 :: nat) 0" "throughput_new name d"]
  by (simp add: metric_task_new_def task_def throughput_new_def list_calls)

lemma task_mutate:
  assumes "run0 m (task name n d t q us ls)" and "length q < CHANNEL_BUFFER_SIZE"
  shows "run0 m (task name n d t (q @ [1]) (us @ [1]) ls)"
proof (rule metric_next [OF assms(1)])
  show "metric_step list_mpsc throughput_start throughput_increment
      (throughput_log_metric (\<lambda>_ _ _. 7 :: nat) 0)
      (task name n d t q us ls) (task name n d t (q @ [1]) (us @ [1]) ls)"
    using mutate [where C = list_mpsc and u = 1 and s = "task name n d t q us ls" and start = throughput_start and
      update = throughput_increment and logm = "throughput_log_metric (\<lambda>_ _ _. 7 :: nat) 0"] assms(2)
    by (simp add: task_def list_calls)
qed

lemma task_receive:
  assumes "run0 m (task name n d t (u # q) us ls)"
  shows "run0 m (task name (n + u) d t q us ls)"
proof (rule metric_next [OF assms])
  show "metric_step list_mpsc throughput_start throughput_increment
      (throughput_log_metric (\<lambda>_ _ _. 7 :: nat) 0)
      (task name n d t (u # q) us ls) (task name (n + u) d t q us ls)"
    using receive [where C = list_mpsc and s = "task name n d t (u # q) us ls" and start = throughput_start and
      update = throughput_increment and logm = "throughput_log_metric (\<lambda>_ _ _. 7 :: nat) 0"]
    by (simp add: task_def list_calls throughput_increment_def)
qed

lemma task_wake:
  assumes "run0 m (task name n d None q us ls)"
  shows "run0 m (task name 0 d (Some now) q us (ls @ [(name, n, 0)]))"
proof (rule metric_next [OF assms])
  show "metric_step list_mpsc throughput_start throughput_increment
      (throughput_log_metric (\<lambda>_ _ _. 7 :: nat) 0)
      (task name n d None q us ls) (task name 0 d (Some now) q us (ls @ [(name, n, 0)]))"
    using wake [where t = now and C = list_mpsc and s = "task name n d None q us ls" and start = throughput_start and
      update = throughput_increment and logm = "throughput_log_metric (\<lambda>_ _ _. 7 :: nat) 0"]
    by (simp add: task_def throughput_log_metric_def throughput_rate_def throughput_reset_def)
qed

abbreviation acts_7 where
  "acts_7 \<equiv> [act_1, act_2, act_3, act_4, act_5, act_4, act_7]"

lemma emitted_7: "emitted acts_7 =
    [Connection_add 1] @ out_of (Subscribe (str ''a'')) @ [Connection_add 1] @ out_of (Publish msg_a) @ [Try_send [1]] @
    out_of (Publish msg_a) @ [Sent_increment, Send_bytes [1]]"
  by (simp add: act_1_def act_2_def act_3_def act_4_def act_5_def act_7_def run_start_def)

theorem throughput_metrics_exact_witness:
  "(\<Sum>l\<leftarrow>[(str ''commands'', 1 :: u64, 0 :: nat)]. unat (fst (snd l))) + unat (1 :: u64) + length [1 :: u64] =
     handled acts_7 \<and>
   unat (1 :: u64) = length (sent (emitted acts_7))"
proof -
  let ?c = "\<lambda>n t q us ls. task (str ''commands'') n (unat M_COMMANDS_INTERVAL_S) t q us ls"
  let ?m = "\<lambda>n q us. task (str ''messages-sent'') n (unat M_MESSAGES_SENT_INTERVAL_S) None q us []"
  have reg: "command_throughput register_metrics = throughput_new (str ''commands'') (unat M_COMMANDS_INTERVAL_S)"
    "messages_sent register_metrics = throughput_new (str ''messages-sent'') (unat M_MESSAGES_SENT_INTERVAL_S)"
    by (simp_all add: register_metrics_def)
  have first: "run0 (throughput_new name d) (task name 1 d None [] [1] [])" for name d
  proof -
    have "run0 (throughput_new name d) (task name 0 d None [1] [1] [])"
      using task_mutate [OF task_start] by simp
    from task_receive [OF this] show ?thesis by simp
  qed
  have "run0 (command_throughput register_metrics) (?c 0 (Some 5) [] [1] [(str ''commands'', 1, 0)])"
    using task_wake [OF first] by (simp add: reg)
  from task_mutate [OF this]
  have "run0 (command_throughput register_metrics) (?c 0 (Some 5) [1] [1, 1] [(str ''commands'', 1, 0)])"
    by simp
  from task_mutate [OF task_receive [OF this]]
  have c: "run0 (command_throughput register_metrics)
      (?c 1 (Some 5) [1] [1, 1, 1] [(str ''commands'', 1, 0)])"
    by simp
  have m: "run0 (messages_sent register_metrics) (?m 1 [] [1])" using first by (simp add: reg)
  have "mt_sent (?c 1 (Some 5) [1] [1, 1, 1] [(str ''commands'', 1, 0)]) =
      increments Command_increment (emitted acts_7)"
    "mt_sent (?m 1 [] [1]) = increments Sent_increment (emitted acts_7)"
    by (simp_all add: task_def increments_def emitted_7 out_of_def throughput_mutator_increment_def
        act_1_def act_2_def act_3_def act_4_def act_5_def act_7_def run_start_def)
  from throughput_metrics_exact [OF runtime_laws0 run_7 list_mpsc_laws _ c this(1) m this(2)]
  show ?thesis by (simp add: emitted_7 out_of_def task_def list_mpsc_def)
qed

end
