(* ===== verification/Connection_Metric.thy ===== *)
theory Connection_Metric
  imports Metric_Claims
begin

text \<open>
  The connections metric of the whole server: what the handlers put into its channel as they start and
  end (\<open>run_start\<close>, \<open>run_end\<close>), the task that takes the updates out, and its value against the number of
  connections that are live.
\<close>

section \<open>The updates of one handler\<close>

text \<open>The messages that the handlers' calls of the count's mutator put into its channel.\<close>

fun count_updates :: "conn_output list \<Rightarrow> i64 list" where
  "count_updates [] = []"
| "count_updates (Connection_add n # out) = count_mutator_add n # count_updates out"
| "count_updates (Connection_subtract n # out) = count_mutator_subtract n # count_updates out"
| "count_updates (x # out) = count_updates out"

lemma count_updates_append: "count_updates (xs @ ys) = count_updates xs @ count_updates ys"
  by (induction xs rule: count_updates.induct) simp_all

lemma count_updates_none:
  "(\<And>n. Connection_add n \<notin> set out \<and> Connection_subtract n \<notin> set out) \<Longrightarrow> count_updates out = []"
  by (induction out rule: count_updates.induct) auto

text \<open>Under one number connections are counted in and out by turns.\<close>

definition turns :: "nat \<Rightarrow> i64 list" where
  "turns n = List.map (\<lambda>k. if even k then 1 else - 1) [0..<n]"

lemma turns_simps [simp]: "turns 0 = []" "turns (Suc n) = turns n @ [if even n then 1 else - 1]"
  by (simp_all add: turns_def)

lemma turns_sum: "(\<Sum>u\<leftarrow>turns n. sint u) = (if odd n then 1 else 0)"
  by (induction n) auto

lemma prefix_turns: "prefix xs (turns n) \<Longrightarrow> \<exists>m\<le>n. xs = turns m"
proof (induction n)
  case (Suc n)
  then show ?case by (cases "xs = turns (Suc n)") (auto simp: le_Suc_eq)
qed simp

lemma reachable_turns:
  assumes "reachable R E ok w v acts s"
  shows "\<exists>n. count_updates (outputs i acts) = turns n \<and> (odd n \<longleftrightarrow> sys_conns s i \<noteq> None)"
  using assms
proof induction
  case start
  then show ?case by (intro exI [of _ 0]) (simp add: server_new_def)
next
  case (next_step acts s a s')
  then obtain n where n: "count_updates (outputs i acts) = turns n" "odd n \<longleftrightarrow> sys_conns s i \<noteq> None"
    by blast
  from next_step.hyps(3) show ?case
  proof cases
    case (accept j c b)
    show ?thesis
    proof (cases "j = i")
      case True
      with n accept have "count_updates (outputs i (acts @ [a])) = turns (Suc n)" "odd (Suc n)"
        by (simp_all add: outputs_append count_updates_append run_start_def count_mutator_add_def)
      with True accept(2) show ?thesis by (intro exI [of _ "Suc n"]) simp
    next
      case False
      with n accept(1,2) show ?thesis by (intro exI [of _ n]) (simp add: outputs_append)
    qed
  next
    case (iterate j c br go_on out c' b)
    have none: "count_updates out = []"
      using iteration_outputs(1,2) [OF iterate(4)] by (intro count_updates_none) blast
    show ?thesis
    proof (cases "j = i \<and> \<not> go_on")
      case True
      with n iterate have "count_updates (outputs i (acts @ [a])) = turns (Suc n)" "\<not> odd (Suc n)"
        by (simp_all add: outputs_append count_updates_append none count_mutator_subtract_def)
      with True iterate(2) show ?thesis by (intro exI [of _ "Suc n"]) simp
    next
      case False
      then have "count_updates (outputs i (acts @ [a])) = turns n"
        using n(1) by (auto simp: iterate(1) outputs_append count_updates_append none)
      with False n(2) iterate(2,3) show ?thesis by (intro exI [of _ n]) auto
    qed
  qed
qed

section \<open>All handlers on one channel\<close>

text \<open>What the channel was given, each update with the connection it came from, and one connection's part.\<close>

definition sent_by :: "nat \<Rightarrow> (nat \<times> i64) list \<Rightarrow> i64 list" where
  "sent_by i us = List.map snd (filter (\<lambda>p. fst p = i) us)"

lemma sent_by_append: "sent_by i (xs @ ys) = sent_by i xs @ sent_by i ys"
  by (simp add: sent_by_def)

lemma sent_by_sum:
  assumes "finite I" and "fst ` set us \<subseteq> I"
  shows "(\<Sum>p\<leftarrow>us. sint (snd p)) = (\<Sum>i\<in>I. \<Sum>u\<leftarrow>sent_by i us. sint u)"
  using assms(2)
proof (induction us)
  case (Cons p us)
  have "(\<Sum>i\<in>I. \<Sum>u\<leftarrow>sent_by i (p # us). sint u) =
      (\<Sum>i\<in>I. (if i = fst p then sint (snd p) else 0) + (\<Sum>u\<leftarrow>sent_by i us. sint u))"
    by (intro sum.cong) (auto simp: sent_by_def)
  also have "\<dots> = sint (snd p) + (\<Sum>i\<in>I. \<Sum>u\<leftarrow>sent_by i us. sint u)"
    using Cons.prems assms(1) by (simp add: sum.distrib)
  finally show ?case using Cons by simp
qed (simp add: sent_by_def)

text \<open>Whatever part of it was received, its sum is the number of connections it shows as live.\<close>

lemma turns_total:
  assumes "\<And>i. \<exists>n. sent_by i us = turns n"
  shows "(\<Sum>p\<leftarrow>us. sint (snd p)) = int (card {i. odd (length (sent_by i us))})"
proof -
  let ?I = "fst ` set us"
  have one: "(\<Sum>u\<leftarrow>sent_by i us. sint u) = (if odd (length (sent_by i us)) then 1 else 0)" for i
    using assms [of i] turns_sum by (auto simp: turns_def)
  have sub: "{i. odd (length (sent_by i us))} \<subseteq> ?I"
    by (force simp: sent_by_def filter_empty_conv dest!: odd_pos)
  have "(\<Sum>p\<leftarrow>us. sint (snd p)) = (\<Sum>i\<in>?I. if odd (length (sent_by i us)) then 1 else 0)"
    using sent_by_sum [of ?I us] by (simp add: one)
  also have "\<dots> = int (card (?I \<inter> {i. odd (length (sent_by i us))}))"
    by (simp add: sum.If_cases)
  also have "?I \<inter> {i. odd (length (sent_by i us))} = {i. odd (length (sent_by i us))}" using sub by blast
  finally show ?thesis .
qed

lemma turns_few: "card {i. odd (length (sent_by i us))} \<le> length us"
proof -
  have "{i. odd (length (sent_by i us))} \<subseteq> fst ` set us"
    by (force simp: sent_by_def filter_empty_conv dest!: odd_pos)
  then have "card {i. odd (length (sent_by i us))} \<le> card (fst ` set us)" by (intro card_mono) auto
  also have "\<dots> \<le> length us" by (rule order.trans [OF card_image_le card_length]) simp
  finally show ?thesis .
qed

lemma word_sum_of_int: "(\<Sum>u\<leftarrow>us. u) = (of_int (\<Sum>u\<leftarrow>us. sint u) :: i64)"
  by (induction us) simp_all

end
