(* ===== verification/Event_Lag.thy ===== *)
theory Event_Lag
  imports Entitlement
begin

text \<open>
  What a lost topic event means. A handler whose receiver of topic events fell behind is told by
  \<open>recv\<close> that events were dropped; the branch of its \<open>select!\<close> that matches \<open>Ok(event)\<close> ignores this
  (\<open>lbroker/src/server.rs\<close>), and the handler does not look for the topics it did not hear of.
\<close>

section \<open>Where pending events come from\<close>

text \<open>A pending event was pending before, or is that of a topic created just now.\<close>

definition event_sources ::
  "('m, 'w, 'v, 's, 'h) runtime \<Rightarrow> ('w, 'v, 'h) views \<Rightarrow> ('m, 'w, 'v, 'h) bus \<Rightarrow>
   ('m, 'w, 'v, 'h) bus \<Rightarrow> bool" where
  "event_sources R V b b' \<longleftrightarrow>
     (\<forall>rx t. Created t \<in> set (ev_pending V b' rx) \<longrightarrow>
        Created t \<in> set (ev_pending V b rx) \<or> topic R b t = None)"

lemma event_sourcesD:
  assumes src: "event_sources R V b b'" and t: "Created t \<in> set (ev_pending V b' rx)" "topic R b t \<noteq> None"
  shows "Created t \<in> set (ev_pending V b rx)"
  using src [unfolded event_sources_def, rule_format, of t rx, OF t(1)] t(2) by blast

lemma event_sources_same: "event_channels b' = event_channels b \<Longrightarrow> event_sources R V b b'"
  by (simp add: event_sources_def)

lemma announce_sources:
  assumes laws: "runtime_laws R V" and t: "topic R b t = None"
  shows "event_sources R V b (announce_topic R t (entry_or_insert_new R t b))"
proof -
  obtain ok v where s: "bc_send (rt_events R) (topic_events_tx b) (Created t) (event_channels b) = (ok, v)"
    by fastforce
  note l = sendD [OF runtime_lawsD(4) [OF laws] s]
  have sub: "set (pending (ev_view V) v rx) \<subseteq> insert (Created t) (set (ev_pending V b rx))" for rx
  proof (cases "listens (ev_view V) (event_channels b) rx = Some (topic_events_tx b)")
    case True
    from set_mono_suffix [OF l(4) [OF this]] show ?thesis by auto
  next
    case False
    then show ?thesis by (auto simp: l(3))
  qed
  show ?thesis
    unfolding event_sources_def
  proof (intro allI impI)
    fix rx u
    assume "Created u \<in> set (ev_pending V (announce_topic R t (entry_or_insert_new R t b)) rx)"
    then have "Created u \<in> set (pending (ev_view V) v rx)" by (simp add: announce_topic_def s)
    with sub [of rx] t show "Created u \<in> set (ev_pending V b rx) \<or> topic R b u = None" by auto
  qed
qed

lemma send_sources:
  assumes laws: "runtime_laws R V" and inv: "bus_inv R V b"
  shows "event_sources R V b (snd (bus_send R t m b))"
proof -
  obtain b1 td where b1: "bus_send R t m b = store_and_send R t m b1" "topic R b1 t = Some td"
    "bus_inv R V b1" "topic R b t \<noteq> None \<Longrightarrow> b1 = b"
    "topic R b t = None \<Longrightarrow> b1 = snd (create_topic R t b)"
    using bus_send_unfold [OF laws inv] by metis
  have "event_channels (snd (bus_send R t m b)) = event_channels b1"
    unfolding b1(1) by (rule store_and_send_effect(8) [OF laws b1(3,2) surjective_pairing])
  moreover have "event_sources R V b b1"
    using b1(4,5) announce_sources [OF laws, of b t]
    by (cases "topic R b t") (auto simp: create_topic_absent [OF laws] event_sources_def)
  ultimately show ?thesis by (simp add: event_sources_def)
qed

lemma iteration_sources:
  assumes laws: "runtime_laws R V" and inv: "bus_inv R V b"
    and run: "run_iteration R E br (c, b) = (go_on, out, (c', b'))"
  shows "event_sources R V b b'"
proof (cases "\<exists>m. br = On_command (Some (Publish m))")
  case True
  then obtain m where "b' = handle_publish R E m b" using run by auto
  then show ?thesis using send_sources [OF laws inv]
    by (auto simp: handle_publish_def event_sources_same split: sum.split)
next
  case publish: False
  show ?thesis
  proof (cases "br = On_topic_event")
    case True
    obtain b1 r where e: "ev_pending V b (topic_events c) =
        (case r of Received x \<Rightarrow> [x] | _ \<Rightarrow> []) @ ev_pending V b1 (topic_events c)"
      "\<And>rx. rx \<noteq> topic_events c \<Longrightarrow> ev_pending V b1 rx = ev_pending V b rx"
      "joins R V (c, b1) (c', b')"
      using event_step [OF laws run [unfolded True]] by metis
    have "set (ev_pending V b1 rx) \<subseteq> set (ev_pending V b rx)" for rx
      using e(1,2) by (cases "rx = topic_events c") auto
    moreover have "event_channels b' = event_channels b1" using e(3) by (simp add: joins_def bus_quiet_def)
    ultimately show ?thesis by (auto simp: event_sources_def)
  next
    case False
    from laws run show ?thesis
    proof (cases rule: iteration_cases)
      case (subscribe p o')
      then show ?thesis
        using handle_subscribe_effect(1) [OF laws subscribe(2)]
        by (simp add: event_sources_def joins_def bus_quiet_def)
    next
      case same
      have "br = On_command None \<or> (\<exists>u ok. br = On_stream u ok)"
        using publish False same(2,3) by (metis branch.exhaust command.exhaust option.exhaust)
      then have "event_channels b' = event_channels b"
        using run by (auto simp: forward_message_to_client_def
            split: option.splits prod.splits recv_result.splits)
      then show ?thesis by (rule event_sources_same)
    qed (use False in \<open>simp_all add: event_sources_same\<close>)
  qed
qed

section \<open>A missed topic\<close>

text \<open>The topic \<open>t\<close> exists, and the connection \<open>i\<close>, if there is one, has no stream of it and no event to come.\<close>

definition missed ::
  "('m, 'w, 'v, 's, 'h) runtime \<Rightarrow> ('w, 'v, 'h) views \<Rightarrow> nat \<Rightarrow> rstring \<Rightarrow> ('m, 'w, 'v, 's, 'h) sys \<Rightarrow> bool" where
  "missed R V i t s \<longleftrightarrow>
     topic R (sys_bus s) t \<noteq> None \<and>
     (\<forall>c. sys_conns s i = Some c \<longrightarrow>
        stream_of R c t = None \<and> Created t \<notin> set (ev_pending V (sys_bus s) (topic_events c)))"

text \<open>No subscription by the connection \<open>i\<close>.\<close>

definition subscribes_not :: "nat \<Rightarrow> ('m, 'w, 'v, 's, 'h) sys \<Rightarrow> 'a action \<Rightarrow> bool" where
  "subscribes_not i s a \<longleftrightarrow>
     (case a of Iterate j (On_command (Some (Subscribe p))) out \<Rightarrow> j \<noteq> i | _ \<Rightarrow> True)"

lemma missed_iteration:
  assumes laws: "runtime_laws R V" and inv: "bus_inv R V b"
    and run: "run_iteration R E br (c, b) = (go_on, out, (c', b'))"
    and t: "topic R b t \<noteq> None" "stream_of R c t = None" "Created t \<notin> set (ev_pending V b (topic_events c))"
    and no: "\<And>p. br \<noteq> On_command (Some (Subscribe p))"
  shows "stream_of R c' t = None"
  using laws run
proof (cases rule: iteration_cases)
  case (unsubscribe p)
  then show ?thesis using t(2) by (simp add: handle_unsubscribe_effect [OF laws])
next
  case (join name b1)
  obtain b1 r where e: "ev_pending V b (topic_events c) =
      (case r of Received x \<Rightarrow> [x] | _ \<Rightarrow> []) @ ev_pending V b1 (topic_events c)"
    "\<And>name. r = Received (Created name) \<Longrightarrow> handle_new_topic R name (c, b1) = (out, (c', b'))"
    "(\<And>name. r \<noteq> Received (Created name)) \<Longrightarrow> c' = c \<and> b' = b1"
    using event_step [OF laws run [unfolded join(1)]] by metis
  show ?thesis
  proof (cases "\<exists>u. r = Received (Created u)")
    case True
    then obtain u where u: "r = Received (Created u)" by blast
    with e(1) t(3) have "u \<noteq> t" by auto
    then show ?thesis
      using e(2) [OF u] conn_subscribe_effect(3) [OF laws, of u c b1 out c' b' t] t(2)
      by (auto simp: handle_new_topic_def simp del: conn_subscribe_to_topic.simps split: if_splits)
  next
    case False
    then show ?thesis using e(3) t(2) by auto
  qed
qed (use no t(2) in simp_all)

lemma missed_step:
  assumes laws: "runtime_laws R V" and inv: "sys_inv R V s" and m: "missed R V i t s"
    and no: "subscribes_not i s a" and step: "sys_step R E s a s'"
  shows "missed R V i t s'" and "forwarded i t [a] = []"
proof -
  have "missed R V i t s' \<and> forwarded i t [a] = []"
    using step
  proof cases
    case (accept j c b)
    note e = accept_effect [OF laws sys_invD(1) [OF inv] accept(4)]
    have "topic_events c \<noteq> topic_events d" if "sys_conns s k = Some d" for k d
      using sys_invD(2) [OF inv that] e(5) by (auto simp: wired_def)
    then show ?thesis using m by (auto simp: missed_def accept(1,2) e(4,7,8))
  next
    case (iterate j c br go_on out c' b)
    note bi = sys_invD(1) [OF inv] and w = sys_invD(2) [OF inv iterate(3)]
    have e: "iteration_effect R V E br (c, sys_bus s) out (c', b)"
      by (rule run_iteration_effect [OF laws bi w iterate(4)])
    have t: "topic R (sys_bus s) t \<noteq> None" using m by (simp add: missed_def)
    have ext: "bus_ext R V (sys_bus s) b" "topic_events c' = topic_events c"
      using e by (simp_all add: iteration_effect_def)
    have new: "Created t \<in> set (ev_pending V (sys_bus s) rx)" if "Created t \<in> set (ev_pending V b rx)" for rx
      by (rule event_sourcesD [OF iteration_sources [OF laws bi iterate(4)] that t])
    have own: "stream_of R c t = None" "Created t \<notin> set (ev_pending V (sys_bus s) (topic_events c))" if "j = i"
      using m iterate(3) that by (simp_all add: missed_def)
    have "stream_of R c' t = None" if "j = i"
      using no by (intro missed_iteration [OF laws bi iterate(4) t own [OF that]])
        (auto simp: subscribes_not_def iterate(1) that)
    then have "missed R V i t s'"
      using m new ext(2) own bus_ext_topic [OF ext(1) t]
      by (auto simp: missed_def iterate(2) split: if_splits)
    moreover have "forward_of t br out = []" if "j = i"
      using e own(1) [OF that] by (simp add: iteration_effect_def)
    ultimately show ?thesis by (simp add: iterate(1))
  qed
  then show "missed R V i t s'" "forwarded i t [a] = []" by simp_all
qed

section \<open>Properties\<close>

text \<open>
  C13: a topic whose creation event was lost stays unheard. Let a topic exist of which a connection has
  neither a stream nor a creation event to come, as after its event was dropped from a full channel.
  Then, whether its patterns match or not, and whatever happens on the server, publications to the
  topic included, it does not get a stream of the topic and forwards nothing from it until it
  subscribes to something again.
\<close>
theorem missed_topic_stays_missed:
  assumes laws: "runtime_laws R V" and run: "reachable R E ok w v acts s"
    and missed: "t \<in> set (list_topics R (sys_bus s))" "sys_conns s i = Some c" "stream_of R c t = None"
      "Created t \<notin> set (ev_pending V (sys_bus s) (topic_events c))"
    and path: "sys_path R E (subscribes_not i) s acts' s'"
  shows "forwarded i t acts' = [] \<and> (\<forall>c'. sys_conns s' i = Some c' \<longrightarrow> stream_of R c' t = None)"
proof -
  note inv = reachable_inv [OF laws run]
  have "forwarded i t acts' = [] \<and> missed R V i t s'"
    using path
  proof induction
    case path_here
    then show ?case using missed by (simp add: missed_def list_topics_mem [OF laws])
  next
    case (path_step acts s1 a s2)
    note m = missed_step [OF laws sys_path_inv [OF laws inv path_step.hyps(1)] conjunct2 [OF path_step.IH]
        path_step.hyps(2,3)]
    with path_step.IH show ?case by (simp add: forwarded_append)
  qed
  then show ?thesis by (simp add: missed_def)
qed

text \<open>
  The second client of the run of two clients takes the creation event of \<open>a\<close> before it has any
  subscription; it is sent nothing of what it goes on to publish on \<open>a\<close>.
\<close>

definition sys_deaf :: "(nat \<times> nat \<times> bytes list) list \<Rightarrow> sys0" where
  "sys_deaf rs = \<lparr>sys_bus = bus_of topic_a (msg_chans rs) [(5, 1, []), (2, 1, [])],
     sys_conns = (sys_conns sys_5)(1 := Some conn_b)\<rparr>"

definition act_deaf :: "unit action" where
  "act_deaf = Iterate 1 On_topic_event []"

lemma step_deaf: "sys_step rt0 ext0 sys_5 act_deaf (sys_deaf [(2, 1, [])])"
proof -
  have "run_iteration rt0 ext0 On_topic_event (conn_b, sys_bus sys_5) =
      (True, [], conn_b, sys_bus (sys_deaf [(2, 1, [])]))"
    by (simp add: sys_deaf_def sys_defs rt0_simps handle_new_topic_def check_a Let_def)
  from sys_step.iterate [OF _ this, of 1] show ?thesis
    by (simp add: act_deaf_def) (simp add: sys_deaf_def, simp add: sys_defs)
qed

lemma step_publish: "sys_step rt0 ext0 (sys_deaf [(2, 1, [])]) act_4 (sys_deaf [(2, 1, [[1]])])"
proof -
  have run: "run_iteration rt0 ext0 (On_command (Some (Publish msg_a))) (conn_b, sys_bus (sys_deaf [(2, 1, [])])) =
      (True, out_of (Publish msg_a), conn_b, sys_bus (sys_deaf [(2, 1, [[1]])]))"
    by (simp add: sys_deaf_def sys_defs rt0_simps handle_publish_def ext0_def msg_a_def out_of_def Let_def)
  have conns: "sys_conns (sys_deaf [(2, 1, [])]) 1 = Some conn_b" by (simp add: sys_deaf_def)
  have eq: "\<lparr>sys_bus = sys_bus (sys_deaf [(2, 1, [[1]])]),
      sys_conns = (sys_conns (sys_deaf [(2, 1, [])]))(1 \<mapsto> conn_b)\<rparr> = sys_deaf [(2, 1, [[1]])]"
    by (simp add: sys_deaf_def)
  from sys_step.iterate [OF conns run] show ?thesis unfolding act_4_def by (simp only: if_True eq run_end_simps append_Nil2)
qed

lemma run_deaf:
  "reachable rt0 ext0 (\<lambda>_ _. True) chans_new chans_new
     ([act_1, act_2, act_3, act_4, act_5] @ [act_deaf]) (sys_deaf [(2, 1, [])])"
proof (rule reachable.next_step [OF _ _ step_deaf])
  show "reachable rt0 ext0 (\<lambda>_ _. True) chans_new chans_new [act_1, act_2, act_3, act_4, act_5] sys_5"
    using reachable_any [OF reach0_snoc [OF run_4 within_run(5) step_5]] by simp
qed simp

lemma path_deaf:
  "sys_path rt0 ext0 (subscribes_not 1) (sys_deaf [(2, 1, [])]) [act_4] (sys_deaf [(2, 1, [[1]])])"
  using path_step [of rt0 ext0 "subscribes_not 1", OF path_here _ step_publish]
  by (simp add: subscribes_not_def act_4_def)

theorem missed_topic_stays_missed_witness:
  "forwarded 1 (str ''a'') [act_4] = [] \<and> stream_of rt0 conn_b (str ''a'') = None"
proof -
  let ?s = "sys_deaf [(2, 1, [])]"
  have "str ''a'' \<in> set (list_topics rt0 (sys_bus ?s))" "sys_conns ?s 1 = Some conn_b"
    "stream_of rt0 conn_b (str ''a'') = None"
    "Created (str ''a'') \<notin> set (ev_pending views0 (sys_bus ?s) (topic_events conn_b))"
    by (simp_all add: sys_deaf_def sys_defs rt0_def list_topics_def list_dashmap_def list_streammap_def
        stream_of_def views0_def list_view_def)
  from missed_topic_stays_missed [OF runtime_laws0 run_deaf this path_deaf]
  show ?thesis by (simp add: sys_deaf_def)
qed

end
