(* ===== verification/Glob_Cost.thy ===== *)
theory Glob_Cost
  imports Glob_Correct
begin

text \<open>
  What a check costs: the number of calls of \<open>_match_string_worker\<close> (\<open>glob_tree/src/lib.rs\<close>), which
  backtracks without memory of where it has been.
\<close>

section \<open>Counting the calls\<close>

text \<open>The matcher again, with the number of calls beside its result; \<open>or_else\<close> is a test that returns early.\<close>

definition or_else :: "nat \<times> bool \<Rightarrow> nat \<times> bool \<Rightarrow> nat \<times> bool" where
  "or_else a b = (if snd a then a else (fst a + fst b, snd b))"

definition called :: "nat \<times> bool \<Rightarrow> nat \<times> bool" where
  "called r = (Suc (fst r), snd r)"

function count_worker :: "node \<Rightarrow> bytes \<Rightarrow> nat \<Rightarrow> nat \<times> bool" where
  "count_worker self s pos =
     called
       (if (case node_token self of
              None \<Rightarrow> False
            | Some t \<Rightarrow>
                length s \<le> pos \<or>
                t \<notin> set [byte_char (s ! pos), MULTI_CHARACTER_WILDCARD, SINGLE_CHARACTER_WILDCARD])
        then (0, False)
        else
          let next_pos = (if node_token self \<noteq> None then pos + 1 else pos) in
          if next_pos < length s then
            or_else (case bt_get (node_children self) (byte_char (s ! next_pos)) of
                  Some node \<Rightarrow> count_worker node s next_pos | None \<Rightarrow> (0, False))
              (or_else (case bt_get (node_children self) SINGLE_CHARACTER_WILDCARD of
                    Some node \<Rightarrow> count_worker node s next_pos | None \<Rightarrow> (0, False))
                (or_else (if node_token self = Some MULTI_CHARACTER_WILDCARD
                      then count_worker self s next_pos else (0, False))
                  (case bt_get (node_children self) MULTI_CHARACTER_WILDCARD of
                    Some node \<Rightarrow> count_worker node s next_pos | None \<Rightarrow> (0, False))))
          else (0, is_terminal self))"
  by pat_completeness auto
termination
  by (relation "measures [\<lambda>(n, s, pos). length s - pos, \<lambda>(n, s, pos). size n]")
    (auto simp: size_bt_get split: option.splits)

declare count_worker.simps [simp del]

lemma or_else_simps [simp]:
  "snd (or_else a b) \<longleftrightarrow> snd a \<or> snd b" "fst (or_else a b) \<le> fst a + fst b"
  "or_else (m, False) b = (m + fst b, snd b)"
  by (auto simp: or_else_def)

lemma called_simps [simp]: "snd (called r) \<longleftrightarrow> snd r" "fst (called r) = Suc (fst r)"
  by (simp_all add: called_def)

text \<open>It is the matcher.\<close>

lemma count_worker_result: "snd (count_worker n s pos) = match_string_worker n s pos"
proof (induction n s pos rule: count_worker.induct)
  case (1 n s pos)
  show ?case
    unfolding count_worker.simps [of n s pos] match_string_worker.simps [of n s pos]
    using 1 by (auto simp: Let_def split: option.splits)
qed

text \<open>A guarded call of one of the node's children.\<close>

definition child_calls :: "node \<Rightarrow> rchar \<Rightarrow> bytes \<Rightarrow> nat \<Rightarrow> nat \<times> bool" where
  "child_calls n c s pos =
     (case bt_get (node_children n) c of Some node \<Rightarrow> count_worker node s pos | None \<Rightarrow> (0, False))"

lemma count_worker_root:
  assumes "node_token n = None"
  shows "count_worker n s pos =
    called (if pos < length s
      then or_else (child_calls n (byte_char (s ! pos)) s pos)
        (or_else (child_calls n SINGLE_CHARACTER_WILDCARD s pos)
          (or_else (0, False) (child_calls n MULTI_CHARACTER_WILDCARD s pos)))
      else (0, is_terminal n))"
  by (simp add: count_worker.simps [of n s pos] child_calls_def assms)

lemma count_worker_token:
  assumes "node_token n = Some t"
  shows "count_worker n s pos =
    called (if length s \<le> pos \<or> t \<notin> {byte_char (s ! pos), MULTI_CHARACTER_WILDCARD, SINGLE_CHARACTER_WILDCARD}
      then (0, False)
      else if Suc pos < length s
      then or_else (child_calls n (byte_char (s ! Suc pos)) s (Suc pos))
        (or_else (child_calls n SINGLE_CHARACTER_WILDCARD s (Suc pos))
          (or_else (if t = MULTI_CHARACTER_WILDCARD then count_worker n s (Suc pos) else (0, False))
            (child_calls n MULTI_CHARACTER_WILDCARD s (Suc pos))))
      else (0, is_terminal n))"
  by (simp add: count_worker.simps [of n s pos] child_calls_def assms)

section \<open>At most four calls for each\<close>

lemma or_else_le: "fst a \<le> x \<Longrightarrow> fst b \<le> y \<Longrightarrow> fst (or_else a b) \<le> x + y"
  using or_else_simps(2) [of a b] by linarith

lemma count_worker_bound:
  assumes "wf_node n" and "node_token n \<noteq> None"
  shows "3 * fst (count_worker n s pos) < 4 ^ Suc (length s - pos)"
  using assms
proof (induction "length s - pos" arbitrary: n pos)
  case 0
  then obtain t where "node_token n = Some t" by auto
  from count_worker_token [OF this] 0(1) show ?case by simp
next
  case (Suc m)
  obtain t where t: "node_token n = Some t" using Suc.prems(2) by auto
  have m: "m = length s - Suc pos" using Suc.hyps(2) by simp
  let ?k = "(4 ^ Suc m - 1) div 3 :: nat"
  have le: "x \<le> ?k" if "3 * x < 4 ^ Suc m" for x :: nat using that by linarith
  have child: "fst (child_calls n c s (Suc pos)) \<le> ?k" for c
  proof (cases "bt_get (node_children n) c")
    case (Some ch)
    then have "wf_node ch" "node_token ch \<noteq> None" using Suc.prems(1) by (auto simp: wf_node_iff [of n])
    from le [OF Suc.hyps(1) [OF m this, folded m]] show ?thesis by (simp add: child_calls_def Some)
  qed (simp add: child_calls_def)
  have self: "fst (if t = MULTI_CHARACTER_WILDCARD then count_worker n s (Suc pos) else (0, False)) \<le> ?k"
    using le [OF Suc.hyps(1) [OF m Suc.prems, folded m]] by simp
  have "fst (count_worker n s pos) \<le> Suc (?k + (?k + (?k + ?k)))"
    using or_else_le [OF child or_else_le [OF child or_else_le [OF self child]]]
    by (simp add: count_worker_token [OF t, of s pos])
  moreover have "3 * ?k \<le> 4 ^ Suc m - 1" by simp
  ultimately have "3 * fst (count_worker n s pos) \<le> 3 + 4 * (4 ^ Suc m - 1)" by linarith
  also have "\<dots> < 4 * 4 ^ Suc m" using one_le_power [of "4 :: nat" "Suc m"] by linarith
  finally show ?case by (simp only: Suc.hyps(2) [symmetric] power_Suc)
qed

section \<open>A pattern of stars\<close>

text \<open>The node of the first of \<open>k + 1\<close> stars, after the pattern was inserted into an empty tree.\<close>

fun star_node :: "nat \<Rightarrow> node" where
  "star_node 0 = Node (Some MULTI_CHARACTER_WILDCARD) [] 2"
| "star_node (Suc k) = Node (Some MULTI_CHARACTER_WILDCARD) [(MULTI_CHARACTER_WILDCARD, star_node k)] 1"

lemma insert_stars:
  "insert_at (node_new (Some MULTI_CHARACTER_WILDCARD)) (replicate k MULTI_CHARACTER_WILDCARD) = star_node k"
  by (induction k) (simp_all add: node_new_def increment_count_def insert_child_def set_child_def)

lemma star_tree:
  "root (tree_insert glob_tree_new (replicate (Suc k) MULTI_CHARACTER_WILDCARD)) =
     Node None [(MULTI_CHARACTER_WILDCARD, star_node k)] 0"
  using insert_stars [of k]
  by (simp add: tree_insert_def glob_tree_new_def insert_child_def set_child_def node_new_def)

lemma star_node_token [simp]: "node_token (star_node k) = Some MULTI_CHARACTER_WILDCARD"
  by (cases k) simp_all

lemma star_not_terminal: "0 < k \<Longrightarrow> \<not> is_terminal (star_node k)"
  by (cases k; cases "k - 1") (simp_all add: is_terminal_def child_count_def)

text \<open>Each star is tried again on the next byte, and so is the next star: twice the work for every byte.\<close>

lemma star_calls:
  assumes "\<And>b. b \<in> set s \<Longrightarrow> byte_char b \<noteq> MULTI_CHARACTER_WILDCARD"
    and "length s = pos + Suc m" and "m < k"
  shows "count_worker (star_node k) s pos = (2 ^ Suc m - 1, False)"
  using assms(2,3)
proof (induction m arbitrary: k pos)
  case 0
  then show ?case by (simp add: count_worker_token called_def star_not_terminal)
next
  case (Suc m)
  then obtain k' where k: "k = Suc k'" by (cases k) auto
  have next_char: "byte_char (s ! Suc pos) \<noteq> MULTI_CHARACTER_WILDCARD" using assms(1) Suc.prems(1) by simp
  have single: "child_calls (star_node k) SINGLE_CHARACTER_WILDCARD s (Suc pos) = (0, False)"
    by (simp add: child_calls_def k MULTI_CHARACTER_WILDCARD_def SINGLE_CHARACTER_WILDCARD_def)
  have direct: "child_calls (star_node k) (byte_char (s ! Suc pos)) s (Suc pos) = (0, False)"
    using next_char by (simp add: child_calls_def k)
  have again: "count_worker (star_node k) s (Suc pos) = (2 ^ Suc m - 1, False)"
    using Suc.prems by (intro Suc.IH) simp_all
  have multi: "child_calls (star_node k) MULTI_CHARACTER_WILDCARD s (Suc pos) = (2 ^ Suc m - 1, False)"
    using Suc.prems Suc.IH [of "Suc pos" k'] by (simp add: child_calls_def k)
  have "count_worker (star_node k) s pos = (Suc (2 ^ Suc m - 1 + (2 ^ Suc m - 1)), False)"
    using Suc.prems by (simp add: count_worker_token direct single again multi called_def)
  moreover have "Suc (2 ^ Suc m - 1 + (2 ^ Suc m - 1)) = 2 ^ Suc (Suc m) - (1 :: nat)"
    by (cases "2 ^ m :: nat") simp_all
  ultimately show ?case by simp
qed

section \<open>Properties\<close>

definition check_calls :: "glob_tree \<Rightarrow> rstring \<Rightarrow> nat" where
  "check_calls self s = fst (count_worker (root self) (as_bytes s) 0)"

text \<open>
  C8: the cost of a check. On a string of \<open>n\<close> bytes, \<open>check\<close> takes at most \<open>4 ^ (n + 1)\<close> calls of the
  matcher, whatever well-formed tree and whatever string, and exponentially many it can take: if no byte of
  the string is a star itself, then with a single pattern of \<open>n + 1\<close> stars in the tree it takes exactly
  \<open>2 ^ n\<close> calls, to say no. (A star in the string also matches the stars of the pattern literally, which
  changes the count.)
\<close>
theorem check_cost:
  assumes "glob_inv t"
  shows "check_calls t s \<le> 4 ^ Suc (length (as_bytes s)) \<and>
    (MULTI_CHARACTER_WILDCARD \<notin> set (byte_chars s) \<longrightarrow>
     (let stars = tree_insert glob_tree_new (replicate (Suc (length (as_bytes s))) MULTI_CHARACTER_WILDCARD)
      in \<not> tree_check stars s \<and> check_calls stars s = 2 ^ length (as_bytes s)))"
proof (intro conjI impI)
  have root: "node_token (root t) = None" "wf_node (root t)" using assms by (simp_all add: glob_inv_def)
  let ?n = "length (as_bytes s)" and ?k = "(4 ^ Suc (length (as_bytes s)) - 1) div 3 :: nat"
  have child: "fst (child_calls (root t) c (as_bytes s) 0) \<le> ?k" for c
  proof (cases "bt_get (node_children (root t)) c")
    case (Some ch)
    then have "wf_node ch" "node_token ch \<noteq> None" using root(2) by (auto simp: wf_node_iff [of "root t"])
    from count_worker_bound [OF this, of "as_bytes s" 0] show ?thesis by (simp add: child_calls_def Some)
  qed (simp add: child_calls_def)
  have "fst (or_else (0, False) (child_calls (root t) MULTI_CHARACTER_WILDCARD (as_bytes s) 0)) \<le> ?k"
    using child by simp
  from or_else_le [OF child or_else_le [OF child this]]
  have "check_calls t s \<le> Suc (?k + (?k + ?k))"
    by (simp add: check_calls_def count_worker_root [OF root(1)])
  also have "\<dots> \<le> 4 ^ Suc ?n" using one_le_power [of "4 :: nat" "Suc ?n"] by linarith
  finally show "check_calls t s \<le> 4 ^ Suc ?n" .
  assume star: "MULTI_CHARACTER_WILDCARD \<notin> set (byte_chars s)"
  let ?t = "tree_insert glob_tree_new (replicate (Suc ?n) MULTI_CHARACTER_WILDCARD)"
  have ne: "byte_char b \<noteq> MULTI_CHARACTER_WILDCARD" if "b \<in> set (as_bytes s)" for b
    using star that by (force simp: byte_chars_def)
  have "count_worker (root ?t) (as_bytes s) 0 = (2 ^ ?n, False)"
    unfolding star_tree
  proof (cases ?n)
    case 0
    then show "count_worker (Node None [(MULTI_CHARACTER_WILDCARD, star_node ?n)] 0) (as_bytes s) 0 = (2 ^ ?n, False)"
      by (simp add: count_worker_root called_def is_terminal_def)
  next
    case (Suc m)
    then have "byte_char (as_bytes s ! 0) \<noteq> MULTI_CHARACTER_WILDCARD" using ne by simp
    then show "count_worker (Node None [(MULTI_CHARACTER_WILDCARD, star_node ?n)] 0) (as_bytes s) 0 = (2 ^ ?n, False)"
      using star_calls [OF ne, where pos = 0 and m = m and k = "Suc m"] Suc
      by (simp add: count_worker_root child_calls_def called_def
          MULTI_CHARACTER_WILDCARD_def SINGLE_CHARACTER_WILDCARD_def)
  qed
  then show "let stars = ?t in \<not> tree_check stars s \<and> check_calls stars s = 2 ^ ?n"
    using count_worker_result [of "root ?t" "as_bytes s" 0]
    by (simp add: check_calls_def tree_check_def match_string_def)
qed

theorem check_cost_witness:
  "check_calls glob_tree_new (str ''abc'') \<le> 4 ^ Suc (length (as_bytes (str ''abc''))) \<and>
   (let stars = tree_insert glob_tree_new (replicate (Suc (length (as_bytes (str ''abc'')))) MULTI_CHARACTER_WILDCARD)
    in \<not> tree_check stars (str ''abc'') \<and> check_calls stars (str ''abc'') = 2 ^ length (as_bytes (str ''abc'')))"
proof -
  have "MULTI_CHARACTER_WILDCARD \<notin> set (byte_chars (str ''abc''))" by code_simp
  with check_cost [OF glob_tree_new_inv, of "str ''abc''"] show ?thesis by (simp only: simp_thms not_False_eq_True)
qed

end
