(* ===== verification/Glob_Tests.thy ===== *)
theory Glob_Tests
  imports Glob_Removal
begin

text \<open>
  The unit tests of \<open>glob_tree/src/lib.rs\<close>, run on the model: each is the body of the test, with its
  assertions as the value (a panic is False). They check that the definitions compute what the code
  is expected to compute on the inputs its authors chose.
\<close>

definition test_check :: bool where
  "test_check =
     (let t = glob_tree_new;
          a1 = (\<not> tree_check t (str ''metrics''));
          t = tree_insert t (str ''metrics'')
      in a1 \<and> tree_check t (str ''metrics''))"

definition test_remove :: bool where
  "test_remove =
     (let t = glob_tree_new;
          t = tree_insert t (str ''metrics'');
          a1 = tree_check t (str ''metrics'')
      in case tree_remove t (str ''metrics'') of
           Inl e \<Rightarrow> False
         | Inr t \<Rightarrow> a1 \<and> node_children (root t) = [] \<and> \<not> tree_check t (str ''metrics''))"

definition test_wildcard_simple :: bool where
  "test_wildcard_simple =
     (let t = tree_insert glob_tree_new [MULTI_CHARACTER_WILDCARD]
      in tree_check t (str ''foo''))"

definition test_inner_wildcard :: bool where
  "test_inner_wildcard =
     (let t = glob_tree_new;
          pattern = str ''fooo'' @ [MULTI_CHARACTER_WILDCARD] @ str ''ar'';
          t = tree_insert t pattern
      in tree_check t (str ''fooozar'') \<and> tree_check t (str ''fooo/zbasfjadfasldfjah/ar'') \<and>
         \<not> tree_check t (str ''fooo/zbasfjadfasldfjah/'') \<and> \<not> tree_check t (str ''fooozarnt''))"

definition test_partial_match :: bool where
  "test_partial_match =
     (let t = tree_insert glob_tree_new (str ''testing'') in \<not> tree_check t (str ''test''))"

definition test_check_with_overlapping :: bool where
  "test_check_with_overlapping =
     (let t = tree_insert glob_tree_new (str ''testing'');
          t = tree_insert t (str ''test'')
      in tree_check t (str ''test''))"

definition test_contains :: bool where
  "test_contains =
     (let t = tree_insert glob_tree_new (str ''testing'') in tree_contains t (str ''testing''))"

definition test_doesnt_contain_substring :: bool where
  "test_doesnt_contain_substring =
     (let t = tree_insert glob_tree_new (str ''testing'') in \<not> tree_contains t (str ''test''))"

definition test_node_list_strings :: bool where
  "test_node_list_strings =
     (let a = node_new (Some (hd (str ''a'')));
          b = node_new (Some (hd (str ''b'')));
          c = node_new (Some (hd (str ''c'')));
          b2 = node_new (Some (hd (str ''b'')));
          d = node_new (Some (hd (str ''d'')));
          c = insert_child c d;
          c = increment_count c;
          b = insert_child b c;
          b = insert_child b b2;
          b = increment_count b;
          b = increment_count b;
          a = insert_child a b;
          a = increment_count a;
          a = increment_count a
      in list_strings a = [str ''abb'', str ''abc'', str ''abcd''])"

text \<open>
  The assertion of the test compares the results of two calls of \<open>sort\<close>, which are both \<open>()\<close>;
  \<open>test_list_meant\<close> is what it means to assert.
\<close>

definition test_list_patterns :: "rstring list" where
  "test_list_patterns =
     [str ''.venv'', str ''.DS_STORE'', str ''~/Documents/Important/2024/*'', str ''*.exe'']"

definition test_list :: bool where
  "test_list =
     (let patterns = test_list_patterns;
          t = fold (\<lambda>pattern t. tree_insert t pattern) patterns glob_tree_new;
          (patterns, unit1) = (sort patterns, ());
          (listed, unit2) = (sort (tree_list t), ())
      in unit1 = unit2)"

definition test_list_meant :: bool where
  "test_list_meant =
     (let patterns = test_list_patterns;
          t = fold (\<lambda>pattern t. tree_insert t pattern) patterns glob_tree_new
      in sort patterns = sort (tree_list t))"

definition test_node_child_count :: bool where
  "test_node_child_count =
     (let node = node_new (Some (hd (str ''a'')));
          a1 = (child_count node = 0);
          node = insert_child node (node_new (Some (hd (str ''b''))))
      in a1 \<and> child_count node = 1)"

definition test_fixed_length_wildcard_simple :: bool where
  "test_fixed_length_wildcard_simple =
     (let t = tree_insert glob_tree_new (str ''ab?d'')
      in tree_check t (str ''abcd'') \<and> \<not> tree_check t (str ''abccd''))"

definition test_fixed_length_wildcard_overlapping_variable_length_wildcard :: bool where
  "test_fixed_length_wildcard_overlapping_variable_length_wildcard =
     (let t = tree_insert glob_tree_new (str ''ab?d'');
          t = tree_insert t (str ''ab*'')
      in tree_check t (str ''abcd'') \<and> tree_check t (str ''abccd''))"

definition test_empty_string_matches_empty_pattern :: bool where
  "test_empty_string_matches_empty_pattern =
     (let t = tree_insert glob_tree_new (str '''') in tree_check t (str ''''))"

lemma glob_tests_pass:
  "test_check" "test_remove" "test_wildcard_simple" "test_inner_wildcard" "test_partial_match"
  "test_check_with_overlapping" "test_contains" "test_doesnt_contain_substring"
  "test_node_list_strings" "test_list" "test_node_child_count" "test_fixed_length_wildcard_simple"
  "test_fixed_length_wildcard_overlapping_variable_length_wildcard"
  "test_empty_string_matches_empty_pattern"
  by code_simp+

lemma test_list_meant_passes: "test_list_meant"
  by code_simp

end
