(* ===== verification/Bus_Tests.thy ===== *)
theory Bus_Tests
  imports System
begin

text \<open>
  The unit tests of the bus in \<open>lbroker/src/server.rs\<close>, run on the model with any libraries that
  behave as documented (the parameters \<open>R\<close> and the predicate \<open>runtime_laws\<close>): each is the body of the
  test, with its assertions as the value. A panic, and a receive that is not ready (the test's
  timeout), are False.
\<close>

definition test_bus_topic_creation_and_subscription ::
  "('m, 'w, 'v, 's, 'h) runtime \<Rightarrow> 'w \<Rightarrow> 'v \<Rightarrow> bool" where
  "test_bus_topic_creation_and_subscription R w v =
     (let bus = bus_new R w v;
          topic_name = str ''test.topic'';
          (created, bus) = create_topic R topic_name bus;
          (again, bus) = create_topic R topic_name bus;
          (result, bus) = subscribe_to_topic R topic_name bus
      in created \<and> \<not> again \<and>
         (case result of
            None \<Rightarrow> False
          | Some (receiver, last_msg) \<Rightarrow>
              last_msg = None \<and> topic_name \<in> set (list_topics R bus)))"

definition test_bus_send_creates_topic ::
  "('m, 'w, 'v, 's, 'h) runtime \<Rightarrow> 'w \<Rightarrow> 'v \<Rightarrow> bool" where
  "test_bus_send_creates_topic R w v =
     (let bus = bus_new R w v;
          topic_name = str ''auto.created.topic'';
          message = [1, 2, 3, 4];
          (sent_result, bus) = bus_send R topic_name message bus
      in sent_result = Inr () \<and> topic_name \<in> set (list_topics R bus))"

definition test_bus_topic_events ::
  "('m, 'w, 'v, 's, 'h) runtime \<Rightarrow> 'w \<Rightarrow> 'v \<Rightarrow> bool" where
  "test_bus_topic_events R w v =
     (let bus = bus_new R w v;
          (events, bus) = subscribe_to_topic_events R bus;
          topic_name = str ''event.test'';
          (created, bus) = create_topic R topic_name bus
      in case bc_recv (rt_events R) events (event_channels bus) of
           (Received (Created name), v) \<Rightarrow> name = topic_name
         | _ \<Rightarrow> False)"

definition test_message_buffering_for_late_subscribers ::
  "('m, 'w, 'v, 's, 'h) runtime \<Rightarrow> 'w \<Rightarrow> 'v \<Rightarrow> bool" where
  "test_message_buffering_for_late_subscribers R w v =
     (let bus = bus_new R w v;
          topic = str ''buffered.topic'';
          (created, bus) = create_topic R topic bus;
          (r1, bus) = bus_send R topic [1, 2, 3] bus;
          (r2, bus) = bus_send R topic [4, 5, 6] bus;
          (r3, bus) = bus_send R topic [7, 8, 9] bus;
          (result, bus) = subscribe_to_topic R topic bus
      in case result of
           None \<Rightarrow> False
         | Some (receiver, last_msg) \<Rightarrow>
             last_msg = Some [7, 8, 9] \<and>
             (let (r4, bus) = bus_send R topic [10, 11, 12] bus
              in case bc_recv (rt_messages R) receiver (message_channels bus) of
                   (Received msg, w) \<Rightarrow> msg = [10, 11, 12]
                 | _ \<Rightarrow> False))"

definition test_race_condition_prevention_with_buffering ::
  "('m, 'w, 'v, 's, 'h) runtime \<Rightarrow> 'w \<Rightarrow> 'v \<Rightarrow> bool" where
  "test_race_condition_prevention_with_buffering R w v =
     (let bus = bus_new R w v;
          topic_streams = sm_new (rt_streams R);
          (topic_events, bus) = subscribe_to_topic_events R bus;
          subscriptions = tree_insert glob_tree_new (str ''sensor.*'');
          a1 = (length (list_topics R bus) = 0);
          (r, bus) = bus_send R (str ''sensor.temperature'') [42, 43, 44] bus
      in case bc_recv (rt_events R) topic_events (event_channels bus) of
           (Received (Created topic_name), v) \<Rightarrow>
             a1 \<and> topic_name = str ''sensor.temperature'' \<and> tree_check subscriptions topic_name \<and>
             (case subscribe_to_topic R topic_name (bus\<lparr>event_channels := v\<rparr>) of
                (Some (receiver, last_msg), bus) \<Rightarrow> last_msg = Some [42, 43, 44]
              | (None, bus) \<Rightarrow> True)
         | _ \<Rightarrow> False)"

section \<open>What the tests need of the bus\<close>

lemma create_on_new:
  assumes laws: "runtime_laws R V"
  obtains b where "create_topic R t (bus_new R w v) = (True, b)" "bus_inv R V b"
    "bus_abs R b = (bus_abs R (bus_new R w v))(t \<mapsto> None)"
proof -
  note n = bus_new_effect [OF laws, of w v]
  have "create_topic R t (bus_new R w v) = (True, snd (create_topic R t (bus_new R w v)))"
    by (simp add: create_topic_absent [OF laws n(2)])
  then show ?thesis using create_topic_effect(1,3) [OF laws n refl, of t] by (rule that)
qed

lemma subscribe_known:
  assumes laws: "runtime_laws R V" and inv: "bus_inv R V b" and t: "bus_abs R b t = Some lm"
  obtains rx b' where "subscribe_to_topic R t b = (Some (rx, lm), b')" "bus_inv R V b'"
    "bus_abs R b' = bus_abs R b" "receives R V b' t rx" "msg_pending V b' rx = []"
    "\<not> msg_lagging V b' rx"
proof -
  obtain td where td: "topic R b t = Some td" "lm = last_message td" using t by (auto simp: bus_abs_def)
  obtain rx w where sub: "bc_subscribe (rt_messages R) (sender td) (message_channels b) = (rx, w)"
    by fastforce
  let ?b = "b\<lparr>message_channels := w\<rparr>"
  have s: "subscribe_to_topic R t b = (Some (rx, lm), ?b)"
    using td sub by (simp add: subscribe_to_topic_def topic_def get_last_message_def)
  show ?thesis
    using subscribe_effect [OF laws inv s] subscribeD(5) [OF runtime_lawsD(3) [OF laws] sub]
    by (intro that [OF s]) simp_all
qed

lemma events_subscribed:
  assumes laws: "runtime_laws R V" and inv: "bus_inv R V b"
  obtains rx b' where "subscribe_to_topic_events R b = (rx, b')" "bus_inv R V b'"
    "topic R b' = topic R b" "ev_pending V b' rx = []" "\<not> ev_lagging V b' rx"
    "listens (ev_view V) (event_channels b') rx = Some (topic_events_tx b')"
proof -
  obtain rx v where s: "bc_subscribe (rt_events R) (topic_events_tx b) (event_channels b) = (rx, v)"
    by fastforce
  note l = subscribeD [OF runtime_lawsD(4) [OF laws] s]
  let ?b = "b\<lparr>event_channels := v\<rparr>"
  have tp: "topic R ?b = topic R b" by (simp add: topic_def fun_eq_iff)
  show ?thesis
  proof (rule that [of rx ?b])
    show "subscribe_to_topic_events R b = (rx, ?b)" by (simp add: subscribe_to_topic_events_def s)
    show "bus_inv R V ?b" using inv by (simp add: bus_inv_def tp l)
  qed (simp_all add: tp l)
qed

lemma recv_pending:
  assumes "broadcast_laws B V" and "pending V w rx = [x]" and "\<not> lagging V w rx"
  obtains w' where "bc_recv B rx w = (Received x, w')"
proof -
  obtain r w' where r: "bc_recv B rx w = (r, w')" by fastforce
  note l = recvD [OF assms(1) r]
  have "r = Received x" using l(4,5,7) assms(2,3) by (cases r) auto
  with r that show ?thesis by blast
qed

lemma list_topics_known: "runtime_laws R V \<Longrightarrow> bus_abs R b t \<noteq> None \<Longrightarrow> t \<in> set (list_topics R b)"
  by (simp add: list_topics_mem bus_abs_def)

lemma no_topics:
  assumes laws: "runtime_laws R V" and none: "\<And>t. topic R b t = None"
  shows "list_topics R b = []"
proof (cases "list_topics R b")
  case (Cons t ts)
  then have "t \<in> set (list_topics R b)" by simp
  then have False by (simp add: list_topics_mem [OF laws] none)
  then show ?thesis ..
qed

section \<open>The tests pass\<close>

lemma creation_test:
  assumes laws: "runtime_laws R V"
  shows "test_bus_topic_creation_and_subscription R w v"
proof -
  obtain b where b: "create_topic R (str ''test.topic'') (bus_new R w v) = (True, b)" "bus_inv R V b"
      "bus_abs R b = (bus_abs R (bus_new R w v))(str ''test.topic'' \<mapsto> None)"
    using create_on_new [OF laws] by metis
  have ex: "bus_abs R b (str ''test.topic'') = Some None" by (simp add: b(3))
  then have again: "create_topic R (str ''test.topic'') b = (False, b)"
    by (intro create_topic_existing [OF laws]) (auto simp: bus_abs_def)
  obtain rx b' where s: "subscribe_to_topic R (str ''test.topic'') b = (Some (rx, None), b')"
      "bus_abs R b' = bus_abs R b"
    using subscribe_known [OF laws b(2) ex] by metis
  have "str ''test.topic'' \<in> set (list_topics R b')"
    by (rule list_topics_known [OF laws]) (simp add: s(2) ex)
  then show ?thesis by (simp add: test_bus_topic_creation_and_subscription_def b(1) again s(1))
qed

lemma send_creates_test:
  assumes laws: "runtime_laws R V"
  shows "test_bus_send_creates_topic R w v"
proof -
  let ?b = "bus_new R w v"
  have inv: "bus_inv R V ?b" by (rule bus_new_effect(1) [OF laws])
  note e = bus_send_effect [OF laws inv surjective_pairing,
      where t = "str ''auto.created.topic''" and m = "[1, 2, 3, 4]"]
  have "str ''auto.created.topic'' \<in>
      set (list_topics R (snd (bus_send R (str ''auto.created.topic'') [1, 2, 3, 4] ?b)))"
    by (rule list_topics_known [OF laws]) (simp add: e(4))
  with e(1) show ?thesis by (simp add: test_bus_send_creates_topic_def case_prod_unfold)
qed

lemma events_test:
  assumes laws: "runtime_laws R V"
  shows "test_bus_topic_events R w v"
proof -
  note n = bus_new_effect [OF laws, of w v]
  obtain rx b where b: "subscribe_to_topic_events R (bus_new R w v) = (rx, b)" "bus_inv R V b"
      "topic R b = topic R (bus_new R w v)" "ev_pending V b rx = []" "\<not> ev_lagging V b rx"
      "listens (ev_view V) (event_channels b) rx = Some (topic_events_tx b)"
    using events_subscribed [OF laws n(1)] by metis
  let ?t = "str ''event.test''"
  have none: "topic R b ?t = None" by (simp add: b(3) n(2))
  let ?b = "snd (create_topic R ?t b)"
  have "ev_pending V ?b rx = [Created ?t]"
    using create_topic_effect(8) [OF laws b(2) none refl b(6)] b(4) by simp
  moreover have "\<not> ev_lagging V ?b rx"
    using create_topic_lagging(2) [OF laws b(2) none b(6)] b(4,5) by simp
  ultimately obtain v' where "bc_recv (rt_events R) rx (event_channels ?b) = (Received (Created ?t), v')"
    using recv_pending [OF runtime_lawsD(4) [OF laws]] by metis
  then show ?thesis by (simp add: test_bus_topic_events_def b(1) case_prod_unfold)
qed

lemma late_subscriber_test:
  assumes laws: "runtime_laws R V"
  shows "test_message_buffering_for_late_subscribers R w v"
proof -
  let ?t = "str ''buffered.topic''"
  obtain b where b: "create_topic R ?t (bus_new R w v) = (True, b)" "bus_inv R V b"
    using create_on_new [OF laws] by metis
  let ?s = "\<lambda>m b. snd (bus_send R ?t m b)"
  have inv: "bus_inv R V (?s m b)" if "bus_inv R V b" for m b
    by (rule bus_send_effect(2) [OF laws that surjective_pairing])
  let ?b = "?s [7, 8, 9] (?s [4, 5, 6] (?s [1, 2, 3] b))"
  have i: "bus_inv R V ?b" by (intro inv b(2))
  have "bus_abs R ?b ?t = Some (Some [7, 8, 9])"
    by (simp add: bus_send_effect(4) [OF laws inv [OF inv [OF b(2)]] surjective_pairing])
  then obtain rx b' where s: "subscribe_to_topic R ?t ?b = (Some (rx, Some [7, 8, 9]), b')" "bus_inv R V b'"
      "receives R V b' ?t rx" "msg_pending V b' rx = []" "\<not> msg_lagging V b' rx"
    using subscribe_known [OF laws i] by metis
  have "msg_pending V (?s [10, 11, 12] b') rx = [[10, 11, 12]]"
    using bus_send_effect(5) [OF laws s(2) surjective_pairing s(3)] s(4) by simp
  moreover have "\<not> msg_lagging V (?s [10, 11, 12] b') rx"
    using bus_send_lagging [OF laws s(2), of ?t rx] s(4,5) by simp
  ultimately obtain w' where "bc_recv (rt_messages R) rx (message_channels (?s [10, 11, 12] b')) =
      (Received [10, 11, 12], w')"
    using recv_pending [OF runtime_lawsD(3) [OF laws]] by metis
  with s(1) show ?thesis
    by (simp add: test_message_buffering_for_late_subscribers_def b(1) case_prod_unfold)
qed

lemma sensor_check: "tree_check (tree_insert glob_tree_new (str ''sensor.*'')) (str ''sensor.temperature'')"
  by code_simp

lemma race_test:
  assumes laws: "runtime_laws R V"
  shows "test_race_condition_prevention_with_buffering R w v"
proof -
  note n = bus_new_effect [OF laws, of w v]
  obtain rx b where b: "subscribe_to_topic_events R (bus_new R w v) = (rx, b)" "bus_inv R V b"
      "topic R b = topic R (bus_new R w v)" "ev_pending V b rx = []" "\<not> ev_lagging V b rx"
      "listens (ev_view V) (event_channels b) rx = Some (topic_events_tx b)"
    using events_subscribed [OF laws n(1)] by metis
  let ?t = "str ''sensor.temperature''"
  let ?b = "snd (bus_send R ?t [42, 43, 44] b)"
  have none: "topic R b u = None" for u by (simp add: b(3) n(2))
  note e = bus_send_effect [OF laws b(2) surjective_pairing, where t = ?t and m = "[42, 43, 44]"]
  have "ev_pending V ?b rx = [Created ?t]" using e(9) [OF none b(6)] b(4) by simp
  moreover have "\<not> ev_lagging V ?b rx" using bus_send_ev_lagging [OF laws b(2,6)] b(4,5) by simp
  ultimately obtain v' where r: "bc_recv (rt_events R) rx (event_channels ?b) = (Received (Created ?t), v')"
    using recv_pending [OF runtime_lawsD(4) [OF laws]] by metis
  note ev = event_poll_effect [OF laws r]
  have "bus_abs R (?b\<lparr>event_channels := v'\<rparr>) = bus_abs R ?b" by (simp add: bus_abs_def ev(2) fun_eq_iff)
  then have "bus_abs R (?b\<lparr>event_channels := v'\<rparr>) ?t = Some (Some [42, 43, 44])" by (simp add: e(4))
  then obtain rx' b' where "subscribe_to_topic R ?t (?b\<lparr>event_channels := v'\<rparr>) =
      (Some (rx', Some [42, 43, 44]), b')"
    using subscribe_known [OF laws ev(4) [OF e(2)]] by metis
  then show ?thesis
    by (simp add: test_race_condition_prevention_with_buffering_def b(1) case_prod_unfold r
        no_topics [OF laws none] sensor_check)
qed

section \<open>Properties\<close>

text \<open>
  The bus passes its own tests. With any libraries that behave as documented, every assertion of
  these five tests of the bus holds and none of their timeouts is reached.
\<close>
theorem bus_tests_pass:
  assumes "runtime_laws R V"
  shows "test_bus_topic_creation_and_subscription R w v \<and> test_bus_send_creates_topic R w v \<and>
    test_bus_topic_events R w v \<and> test_message_buffering_for_late_subscribers R w v \<and>
    test_race_condition_prevention_with_buffering R w v"
  by (simp add: creation_test [OF assms] send_creates_test [OF assms] events_test [OF assms]
      late_subscriber_test [OF assms] race_test [OF assms])

theorem bus_tests_pass_witness:
  "test_bus_topic_creation_and_subscription rt0 chans_new chans_new \<and>
   test_bus_send_creates_topic rt0 chans_new chans_new \<and> test_bus_topic_events rt0 chans_new chans_new \<and>
   test_message_buffering_for_late_subscribers rt0 chans_new chans_new \<and>
   test_race_condition_prevention_with_buffering rt0 chans_new chans_new"
  by (rule bus_tests_pass [OF runtime_laws0])

end
