(* ===== verification/Stream_Tests.thy ===== *)
theory Stream_Tests
  imports Bus_Tests
begin

text \<open>
  The two unit tests of \<open>lbroker/src/server.rs\<close> that use the bus through a map of streams of their
  own: they call \<open>len\<close> and \<open>next\<close> of \<open>StreamMap\<close> (in a handler's loop, the stream that \<open>next\<close> yields is
  an input of the iteration).
\<close>

section \<open>The calls\<close>

text \<open>
  \<open>next\<close> polls the streams in an order of its own and yields what the first that is ready has, with its
  key; which one that is among those ready is the parameter \<open>pick\<close>. None is a stream that waits.
\<close>

definition ready_streams :: "('m, 'w, 'v, 's, 'h) runtime \<Rightarrow> 's \<Rightarrow> 'w \<Rightarrow> rstring list" where
  "ready_streams R streams w =
     filter (\<lambda>k. case sm_get (rt_streams R) streams k of
         Some receiver \<Rightarrow> fst (bc_recv (rt_messages R) receiver w) \<noteq> Not_ready
       | None \<Rightarrow> False) (sm_keys (rt_streams R) streams)"

definition stream_map_next ::
  "('m, 'w, 'v, 's, 'h) runtime \<Rightarrow> (rstring list \<Rightarrow> rstring) \<Rightarrow> 's \<Rightarrow> 'w \<Rightarrow>
   ((rstring \<times> bytes recv_result) \<times> 'w) option" where
  "stream_map_next R pick streams w =
     (if ready_streams R streams w = [] then None
      else
        let k = pick (ready_streams R streams w) in
        (case sm_get (rt_streams R) streams k of
           Some receiver \<Rightarrow> (let (r, w) = bc_recv (rt_messages R) receiver w in Some ((k, r), w))
         | None \<Rightarrow> None))"

definition stream_map_len :: "('m, 'w, 'v, 's, 'h) runtime \<Rightarrow> 's \<Rightarrow> nat" where
  "stream_map_len R streams = length (sm_keys (rt_streams R) streams)"

section \<open>The tests\<close>

definition test_stream_map_unified_stream ::
  "('m, 'w, 'v, 's, 'h) runtime \<Rightarrow> (rstring list \<Rightarrow> rstring) \<Rightarrow> 'w \<Rightarrow> 'v \<Rightarrow> bool" where
  "test_stream_map_unified_stream R pick w v =
     (let bus = bus_new R w v;
          topic_streams = sm_new (rt_streams R);
          topic1 = str ''topic.one'';
          topic2 = str ''topic.two'';
          (created1, bus) = create_topic R topic1 bus;
          (created2, bus) = create_topic R topic2 bus;
          (result1, bus) = subscribe_to_topic R topic1 bus;
          (result2, bus) = subscribe_to_topic R topic2 bus
      in case (result1, result2) of
           (Some (receiver1, last_msg1), Some (receiver2, last_msg2)) \<Rightarrow>
             (let topic_streams = sm_insert (rt_streams R) topic_streams topic1 receiver1;
                  topic_streams = sm_insert (rt_streams R) topic_streams topic2 receiver2;
                  (sent1, bus) = bus_send R topic1 [1, 2, 3] bus;
                  (sent2, bus) = bus_send R topic2 [4, 5, 6] bus
              in case stream_map_next R pick topic_streams (message_channels bus) of
                   None \<Rightarrow> False
                 | Some ((t, r), w) \<Rightarrow>
                     (case stream_map_next R pick topic_streams w of
                        None \<Rightarrow> False
                      | Some ((t', r'), w') \<Rightarrow>
                          list_ex (\<lambda>x. x = topic1) [t, t'] \<and> list_ex (\<lambda>x. x = topic2) [t, t']))
         | _ \<Rightarrow> False)"

definition test_stream_map_unsubscribe ::
  "('m, 'w, 'v, 's, 'h) runtime \<Rightarrow> 'w \<Rightarrow> 'v \<Rightarrow> bool" where
  "test_stream_map_unsubscribe R w v =
     (let bus = bus_new R w v;
          topic_streams = sm_new (rt_streams R);
          topic = str ''unsubscribe.test'';
          (created, bus) = create_topic R topic bus
      in case subscribe_to_topic R topic bus of
           (Some (receiver, last_msg), bus) \<Rightarrow>
             (let subscribed = sm_insert (rt_streams R) topic_streams topic receiver;
                  unsubscribed = sm_remove (rt_streams R) subscribed topic
              in stream_map_len R subscribed = 1 \<and> stream_map_len R unsubscribed = 0)
         | (None, bus) \<Rightarrow> False)"

section \<open>What is ready\<close>

lemma subscribe_lagging:
  assumes laws: "runtime_laws R V" and s: "subscribe_to_topic R t b = (Some (rx, lm), b')"
  shows "msg_lagging V b' = (msg_lagging V b)(rx := False)"
proof -
  obtain td where td: "topic R b t = Some td"
    using s by (auto simp: subscribe_to_topic_def topic_def split: option.splits)
  obtain rx' w where sub: "bc_subscribe (rt_messages R) (sender td) (message_channels b) = (rx', w)"
    by fastforce
  have "rx' = rx" "b' = b\<lparr>message_channels := w\<rparr>"
    using s td sub by (simp_all add: subscribe_to_topic_def topic_def)
  then show ?thesis using subscribeD(5) [OF runtime_lawsD(3) [OF laws] sub] by (simp add: fun_eq_iff)
qed

lemma recv_ready_iff:
  assumes laws: "broadcast_laws B V" and lag: "\<not> lagging V w rx"
  shows "fst (bc_recv B rx w) \<noteq> Not_ready \<longleftrightarrow> pending V w rx \<noteq> []"
proof -
  obtain r w' where r: "bc_recv B rx w = (r, w')" by fastforce
  note l = recvD [OF laws r]
  show ?thesis using l(4,5,7) lag by (cases r) (auto simp: r)
qed

text \<open>
  When no stream is lagging and one has something, \<open>next\<close> yields the oldest value of one of those that
  have something, and leaves the others.
\<close>

lemma next_ready:
  assumes laws: "runtime_laws R V" and pick: "\<And>ks. ks \<noteq> [] \<Longrightarrow> pick ks \<in> set ks"
    and lag: "\<And>k rx. sm_get (rt_streams R) m k = Some rx \<Longrightarrow> \<not> lagging (msg_view V) w rx"
    and some: "sm_get (rt_streams R) m k0 = Some rx0" "pending (msg_view V) w rx0 \<noteq> []"
  obtains k rx x w' where "stream_map_next R pick m w = Some ((k, Received x), w')"
    "sm_get (rt_streams R) m k = Some rx"
    "pending (msg_view V) w rx = x # pending (msg_view V) w' rx"
    "\<And>rx'. rx' \<noteq> rx \<Longrightarrow> pending (msg_view V) w' rx' = pending (msg_view V) w rx'"
    "\<And>rx'. lagging (msg_view V) w' rx' \<Longrightarrow> lagging (msg_view V) w rx'"
proof -
  note bl = runtime_lawsD(3) [OF laws] and sm = streammap_lawsD [OF runtime_lawsD(2) [OF laws]]
  let ?ks = "ready_streams R m w"
  have "k0 \<in> set ?ks" using some by (simp add: ready_streams_def sm(5) recv_ready_iff [OF bl lag])
  then have "?ks \<noteq> []" by auto
  from pick [OF this] obtain rx where
    rx: "sm_get (rt_streams R) m (pick ?ks) = Some rx" "fst (bc_recv (rt_messages R) rx w) \<noteq> Not_ready"
    by (auto simp: ready_streams_def split: option.splits)
  obtain r w' where r: "bc_recv (rt_messages R) rx w = (r, w')" by fastforce
  note l = recvD [OF bl r]
  obtain x where x: "r = Received x" using rx(2) l(7) lag [OF rx(1)] r by (cases r) auto
  show ?thesis
  proof (rule that)
    show "stream_map_next R pick m w = Some ((pick ?ks, Received x), w')"
      using \<open>?ks \<noteq> []\<close> by (simp add: stream_map_next_def Let_def rx(1) r x)
    show "lagging (msg_view V) w rx'" if "lagging (msg_view V) w' rx'" for rx'
      using that l(6) l(9) [of rx'] by (cases "rx' = rx") auto
  qed (use rx(1) l(3,4) x in simp_all)
qed

lemma next_two:
  assumes laws: "runtime_laws R V" and pick: "\<And>ks. ks \<noteq> [] \<Longrightarrow> pick ks \<in> set ks"
    and m: "\<And>k. sm_get (rt_streams R) m k =
      (if k = t2 then Some rx2 else if k = t1 then Some rx1 else None)"
    and ne: "t1 \<noteq> t2" "rx1 \<noteq> rx2"
    and lag: "\<not> lagging (msg_view V) w rx1" "\<not> lagging (msg_view V) w rx2"
    and p: "pending (msg_view V) w rx1 = [x1]" "pending (msg_view V) w rx2 = [x2]"
  shows "\<exists>t r w1 t' r' w2. stream_map_next R pick m w = Some ((t, r), w1) \<and>
    stream_map_next R pick m w1 = Some ((t', r'), w2) \<and> {t, t'} = {t1, t2}"
proof -
  have lags: "\<not> lagging (msg_view V) w rx" if "sm_get (rt_streams R) m k = Some rx" for k rx
    using that lag by (auto simp: m split: if_splits)
  obtain k rx x w1 where 1: "stream_map_next R pick m w = Some ((k, Received x), w1)"
    "sm_get (rt_streams R) m k = Some rx"
    "pending (msg_view V) w rx = x # pending (msg_view V) w1 rx"
    "\<And>rx'. rx' \<noteq> rx \<Longrightarrow> pending (msg_view V) w1 rx' = pending (msg_view V) w rx'"
    "\<And>rx'. lagging (msg_view V) w1 rx' \<Longrightarrow> lagging (msg_view V) w rx'"
  proof (rule next_ready [OF laws pick lags])
    show "sm_get (rt_streams R) m t1 = Some rx1" using ne by (simp add: m)
    show "pending (msg_view V) w rx1 \<noteq> []" by (simp add: p)
  qed blast+
  have kr: "k = t1 \<and> rx = rx1 \<or> k = t2 \<and> rx = rx2" using 1(2) by (auto simp: m split: if_splits)
  define k' where "k' = (if k = t1 then t2 else t1)"
  define rx' where "rx' = (if k = t1 then rx2 else rx1)"
  have k': "{k, k'} = {t1, t2}" "sm_get (rt_streams R) m k' = Some rx'" "rx' \<noteq> rx"
      "pending (msg_view V) w rx' \<noteq> []"
    using kr p ne by (auto simp: m k'_def rx'_def)
  have mine: "pending (msg_view V) w1 rx = []" using 1(3) p kr by auto
  have other: "pending (msg_view V) w1 rx' \<noteq> []" using k'(3,4) 1(4) by simp
  have lags1: "\<not> lagging (msg_view V) w1 rx" if "sm_get (rt_streams R) m k = Some rx" for k rx
    using lags [OF that] 1(5) by blast
  obtain j rj y w2 where 2: "stream_map_next R pick m w1 = Some ((j, Received y), w2)"
      "sm_get (rt_streams R) m j = Some rj" "pending (msg_view V) w1 rj \<noteq> []"
  proof (rule next_ready [where pick = pick and m = m and w = w1, OF laws])
    show "pick ks \<in> set ks" if "ks \<noteq> []" for ks by (rule pick [OF that])
    show "sm_get (rt_streams R) m k' = Some rx'" by (rule k'(2))
  qed (use other in \<open>auto dest: lags1\<close>)
  have "rj \<noteq> rx" using 2(3) mine by blast
  have "j = k'" using 2(2) \<open>rj \<noteq> rx\<close> kr ne by (auto simp: m k'_def split: if_splits)
  with 1(1) 2(1) k'(1) show ?thesis by blast
qed

section \<open>The tests pass\<close>

lemma unsubscribe_test:
  assumes laws: "runtime_laws R V"
  shows "test_stream_map_unsubscribe R w v"
proof -
  let ?t = "str ''unsubscribe.test''"
  note sm = streammap_lawsD [OF runtime_lawsD(2) [OF laws]]
  obtain b where b: "create_topic R ?t (bus_new R w v) = (True, b)" "bus_inv R V b"
      "bus_abs R b = (bus_abs R (bus_new R w v))(?t \<mapsto> None)"
    using create_on_new [OF laws] by metis
  obtain rx b' where s: "subscribe_to_topic R ?t b = (Some (rx, None), b')"
    using subscribe_known [OF laws b(2), of ?t None] b(3) by (metis fun_upd_same)
  let ?m = "sm_insert (rt_streams R) (sm_new (rt_streams R)) ?t rx"
  have keys: "set (sm_keys (rt_streams R) ?m) = {?t}" by (auto simp: sm(1,3,5) split: if_splits)
  have "length (sm_keys (rt_streams R) ?m) = 1"
    using distinct_card [OF sm(6) [of ?m]] by (simp add: keys)
  moreover have "x \<notin> set (sm_keys (rt_streams R) (sm_remove (rt_streams R) ?m ?t))" for x
    by (simp add: sm(1,3,4,5))
  then have "sm_keys (rt_streams R) (sm_remove (rt_streams R) ?m ?t) = []"
    by (metis last_in_set)
  ultimately show ?thesis
    by (simp add: test_stream_map_unsubscribe_def b(1) s stream_map_len_def)
qed

text \<open>The first half of the test: two topics, and a receiver of each that has nothing yet.\<close>

lemma two_subscribed:
  assumes laws: "runtime_laws R V" and ne: "t1 \<noteq> t2"
  obtains b1 rx1 b3 rx2 b4 where "create_topic R t1 (bus_new R w v) = (True, b1)"
    "subscribe_to_topic R t1 (snd (create_topic R t2 b1)) = (Some (rx1, None), b3)"
    "subscribe_to_topic R t2 b3 = (Some (rx2, None), b4)" "bus_inv R V b4" "rx1 \<noteq> rx2"
    "receives R V b4 t1 rx1" "receives R V b4 t2 rx2" "msg_pending V b4 rx1 = []" "msg_pending V b4 rx2 = []"
    "\<not> msg_lagging V b4 rx1" "\<not> msg_lagging V b4 rx2"
proof -
  obtain b1 where b1: "create_topic R t1 (bus_new R w v) = (True, b1)" "bus_inv R V b1"
      "bus_abs R b1 = (bus_abs R (bus_new R w v))(t1 \<mapsto> None)"
    using create_on_new [OF laws] by metis
  have "bus_abs R b1 t2 = None"
    using ne bus_new_effect(2) [OF laws, of w v] by (simp add: b1(3)) (simp add: bus_abs_def)
  then have none: "topic R b1 t2 = None" by (simp add: bus_abs_def)
  define b2 where "b2 = snd (create_topic R t2 b1)"
  note e2 = create_topic_effect(1,3) [OF laws b1(2) none b2_def]
  have a2: "bus_abs R b2 t1 = Some None" "bus_abs R b2 t2 = Some None" by (simp_all add: e2(2) b1(3) ne)
  obtain rx1 b3 where s1: "subscribe_to_topic R t1 b2 = (Some (rx1, None), b3)" "bus_inv R V b3"
      "bus_abs R b3 = bus_abs R b2" "receives R V b3 t1 rx1" "msg_pending V b3 rx1 = []"
      "\<not> msg_lagging V b3 rx1"
    using subscribe_known [OF laws e2(1) a2(1)] by metis
  obtain rx2 b4 where s2: "subscribe_to_topic R t2 b3 = (Some (rx2, None), b4)" "bus_inv R V b4"
      "receives R V b4 t2 rx2" "msg_pending V b4 rx2 = []" "\<not> msg_lagging V b4 rx2"
    using subscribe_known [OF laws s1(2)] a2(2) s1(3) by metis
  note e = subscribe_effect [OF laws s1(2) s2(1)]
  have rx: "rx1 \<noteq> rx2" using e(6) s1(4) by blast
  have lag1: "\<not> msg_lagging V b4 rx1" using subscribe_lagging [OF laws s2(1)] rx s1(6) by simp
  have r1: "receives R V b4 t1 rx1" "msg_pending V b4 rx1 = []"
    using bus_ext_receives [OF e(4) s1(4)] rx s1(5) by (simp_all add: e(7))
  show ?thesis
    by (rule that [OF b1(1) s1(1) [unfolded b2_def] s2(1,2) rx r1(1) s2(3) r1(2) s2(4) lag1 s2(5)])
qed

lemma unified_test:
  assumes laws: "runtime_laws R V" and pick: "\<And>ks. ks \<noteq> [] \<Longrightarrow> pick ks \<in> set ks"
  shows "test_stream_map_unified_stream R pick w v"
proof -
  let ?t1 = "str ''topic.one''" and ?t2 = "str ''topic.two''"
  note sm = streammap_lawsD [OF runtime_lawsD(2) [OF laws]]
  have ne: "?t1 \<noteq> ?t2" by (simp add: str_def)
  obtain b1 rx1 b3 rx2 b4 where b: "create_topic R ?t1 (bus_new R w v) = (True, b1)"
      "subscribe_to_topic R ?t1 (snd (create_topic R ?t2 b1)) = (Some (rx1, None), b3)"
      "subscribe_to_topic R ?t2 b3 = (Some (rx2, None), b4)" and inv: "bus_inv R V b4" and rx: "rx1 \<noteq> rx2"
    and r: "receives R V b4 ?t1 rx1" "receives R V b4 ?t2 rx2"
    and p: "msg_pending V b4 rx1 = []" "msg_pending V b4 rx2 = []"
    and l: "\<not> msg_lagging V b4 rx1" "\<not> msg_lagging V b4 rx2"
    using two_subscribed [OF laws ne] by metis
  define b5 where "b5 = snd (bus_send R ?t1 [1, 2, 3] b4)"
  define b6 where "b6 = snd (bus_send R ?t2 [4, 5, 6] b5)"
  have nr: "\<not> receives R V b4 ?t1 rx2" using receives_unique [OF inv r(2)] ne by metis
  have f: "CHANNEL_BUFFER_SIZE > 0" by (simp add: CHANNEL_BUFFER_SIZE_def)
  note s5 = bus_send_effect [OF laws inv surjective_pairing, where t = ?t1 and m = "[1, 2, 3]",
      folded b5_def]
  have p5: "msg_pending V b5 rx1 = [[1, 2, 3]]" "msg_pending V b5 rx2 = []"
    using s5(5) [OF r(1)] s5(7) [OF nr] by (simp_all add: p f)
  have l5: "\<not> msg_lagging V b5 rx1" "\<not> msg_lagging V b5 rx2"
    using l by (simp_all add: b5_def bus_send_lagging [OF laws inv] p f)
  have r5: "receives R V b5 ?t1 rx1" "receives R V b5 ?t2 rx2"
    using bus_ext_receives [OF s5(3)] r by blast+
  have nr5: "\<not> receives R V b5 ?t2 rx1" using receives_unique [OF s5(2) r5(1)] ne by metis
  note s6 = bus_send_effect [OF laws s5(2) surjective_pairing, where t = ?t2 and m = "[4, 5, 6]",
      folded b6_def]
  have p6: "msg_pending V b6 rx1 = [[1, 2, 3]]" "msg_pending V b6 rx2 = [[4, 5, 6]]"
    using s6(5) [OF r5(2)] s6(7) [OF nr5] by (simp_all add: p5 f)
  have l6: "\<not> msg_lagging V b6 rx1" "\<not> msg_lagging V b6 rx2"
    using l5 by (simp_all add: b6_def bus_send_lagging [OF laws s5(2)] p5 f nr5)
  let ?m = "sm_insert (rt_streams R) (sm_insert (rt_streams R) (sm_new (rt_streams R)) ?t1 rx1) ?t2 rx2"
  have m: "sm_get (rt_streams R) ?m k = (if k = ?t2 then Some rx2 else if k = ?t1 then Some rx1 else None)" for k
    by (simp add: sm(1,3))
  obtain t x w1 t' x' w2 where n: "stream_map_next R pick ?m (message_channels b6) = Some ((t, x), w1)"
      "stream_map_next R pick ?m w1 = Some ((t', x'), w2)" "{t, t'} = {?t1, ?t2}"
    using next_two [OF laws pick m ne rx l6 p6] by blast
  have "?t1 \<in> {t, t'}" "?t2 \<in> {t, t'}" by (simp_all only: n(3) insertI1 insertI2 singletonI)
  then have both: "list_ex (\<lambda>x. x = ?t1) [t, t']" "list_ex (\<lambda>x. x = ?t2) [t, t']" by auto
  show ?thesis
    unfolding test_stream_map_unified_stream_def Let_def
    by (simp only: b b5_def [symmetric] b6_def [symmetric] n(1,2) both
        prod.case option.case case_prod_unfold snd_conv fst_conv simp_thms)
qed

section \<open>Properties\<close>

text \<open>
  The two tests of the bus with a map of streams pass, with any libraries that behave as documented and
  in whatever order \<open>next\<close> polls the streams.
\<close>
theorem stream_tests_pass:
  assumes "runtime_laws R V" and "\<And>ks. ks \<noteq> [] \<Longrightarrow> pick ks \<in> set ks"
  shows "test_stream_map_unified_stream R pick w v \<and> test_stream_map_unsubscribe R w v"
  by (simp add: unified_test [OF assms] unsubscribe_test [OF assms(1)])

theorem stream_tests_pass_witness:
  "test_stream_map_unified_stream rt0 last chans_new chans_new \<and> test_stream_map_unsubscribe rt0 chans_new chans_new"
  by (rule stream_tests_pass [OF runtime_laws0]) simp

end
