(* ===== verification/Codec_Tests.thy ===== *)
theory Codec_Tests
  imports Interface
begin

text \<open>
  The unit tests of the codec in \<open>lbroker/src/interface.rs\<close>, run on the model: what a framed writer
  makes of one command is read back by a framed reader, and bad data is an error. At the end of the
  stream the reader gives nothing if its buffer is empty, and an error if bytes are left.
\<close>

datatype 'a reader_next = Stream_end | Next_error | Next_item 'a

definition reader_next :: "(bytes \<Rightarrow> (rmp_error + 'a) \<times> bytes) \<Rightarrow> bytes \<Rightarrow> 'a reader_next" where
  "reader_next from_read buf0 =
     (case decode from_read buf0 of
        (Inr (Some item), buf) \<Rightarrow> Next_item item
      | (Inr None, buf) \<Rightarrow> if buf = [] then Stream_end else Next_error
      | (Inl e, buf) \<Rightarrow> Next_error)"

definition test_sends_and_receives ::
  "('v command \<Rightarrow> rstring + bytes) \<Rightarrow> (bytes \<Rightarrow> (rmp_error + 'v command) \<times> bytes) \<Rightarrow> 'v \<Rightarrow> bool" where
  "test_sends_and_receives serialize from_read value =
     (let topic = str ''test'';
          message = \<lparr>msg_topic = topic, msg_value = value\<rparr>;
          command = Publish message;
          (result, written) = encode serialize command []
      in case result of
           Inl e \<Rightarrow> False
         | Inr _ \<Rightarrow>
             (case reader_next from_read written of
                Stream_end \<Rightarrow> False
              | Next_error \<Rightarrow> False
              | Next_item c2 \<Rightarrow> command = c2))"

definition test_receives_bad_data ::
  "(bytes \<Rightarrow> (rmp_error + 'v command) \<times> bytes) \<Rightarrow> bool" where
  "test_receives_bad_data from_read =
     (case reader_next from_read [12, 120, 27] of
        Stream_end \<Rightarrow> False | Next_error \<Rightarrow> True | Next_item c \<Rightarrow> False)"

text \<open>The first passes whenever the command can be serialized, the second whenever reading fails.\<close>

lemma sends_and_receives_passes:
  assumes "rmp_reads_back from_read serialize"
    and "serialize (Publish \<lparr>msg_topic = str ''test'', msg_value = value\<rparr>) = Inr bs"
  shows "test_sends_and_receives serialize from_read value"
  using decode_item [OF assms, of "[]"]
  by (simp add: test_sends_and_receives_def reader_next_def encode_def assms(2))

lemma receives_bad_data_passes:
  assumes "fst (from_read [12, 120, 27]) = Inl e"
  shows "test_receives_bad_data from_read"
  using assms
  by (cases "from_read [12, 120, 27]"; cases e)
    (simp_all add: test_receives_bad_data_def reader_next_def decode_def)

end
