(* ===== verification/Spec2Isabelle.thy ===== *)
theory Spec2Isabelle
  imports Cli Load_Generator End_To_End Subscribe_Threads Log_Claims Connection_Metric Event_Lag Glob_Cost Glob_Tests Stream_Tests Codec_Tests
begin

text \<open>
  A verification development for \<^emph>\<open>lbroker\<close>, a publish/subscribe broker in Rust, and the crate
  \<^emph>\<open>glob_tree\<close> that selects the topics a client listens to.

  \<^bold>\<open>The program.\<close> A client (\<open>lbroker/src/client.rs\<close>) sends commands, encoded with msgpack
  (\<open>interface.rs\<close>), over TCP. On the server (\<open>server.rs\<close>) a \<open>TcpAdapter\<close> reads commands from the
  socket and writes message bytes to it; a \<open>ConnectionHandler\<close> per client keeps the client's patterns
  in a glob tree (\<open>glob_tree/src/lib.rs\<close>) and a stream for each topic it listens to; all handlers
  share a \<open>Bus\<close>, which has a broadcast channel and the last message of every topic and one more
  channel on which the creation of topics is announced. \<open>metrics.rs\<close> counts connections, commands
  and messages; \<open>main.rs\<close>, \<open>config.rs\<close> and \<open>buffer_config.rs\<close> choose the configuration.

  \<^bold>\<open>The theories.\<close>
  \<^item> \<open>Prelude\<close>: characters, strings, UTF-8, \<open>u64\<close>. \<open>Key_Map\<close>: the ordered map under a node's
    children (\<open>BTreeMap\<close>) as an interface (locale \<open>key_map\<close>) and as a sorted association list.
  \<^item> \<open>Glob_Spec\<close>: what a pattern means, as a language of strings. \<open>Glob_Node\<close>: \<open>Node\<close> and the
    matcher \<open>_match_string_worker\<close>. \<open>Glob_List\<close>: the listing. \<open>Glob_Tree\<close>: \<open>GlobTree\<close> with
    insert, check, contains, list, remove, and its invariant. \<open>Glob_Remove\<close>, \<open>Glob_History\<close>,
    \<open>Glob_Unique\<close>: what removals do to a tree, how a tree's counts relate to the patterns inserted,
    and that those determine it. \<open>Glob_Insert\<close>: what an insertion cannot add. \<open>Glob_Correct\<close>,
    \<open>Glob_Removal\<close>: the properties of the tree. \<open>Glob_Cost\<close>: the number of calls a check makes.
  \<^item> \<open>Topic_Filter\<close>: what a handler relies on of its subscriptions (locale \<open>topic_filter\<close>, and
    \<open>pattern_filter\<close> where the patterns have a meaning), with the glob tree as the instance.
  \<^item> \<open>Buffer_Config\<close>, \<open>Cli\<close>: configuration and the decisions of \<open>main\<close>. \<open>Metrics\<close>: the trait
    \<open>Metric\<close> (locales \<open>metric\<close>, \<open>resetting_metric\<close>, \<open>cumulative_metric\<close>) and its two instances.
    \<open>Metric_Tasks\<close>, \<open>Metric_Claims\<close>: a metric as a task with any number of mutators and the channel
    between them, and the two throughput metrics of the whole server. \<open>Connection_Metric\<close>: what the
    handlers report to the connections metric as they start and end, and its task.
  \<^item> \<open>Interface\<close>: messages, commands, the codec, and how a framed reader uses it. \<open>Tcp_Adapter\<close>:
    the read and write tasks of a connection, with the three flush strategies.
  \<^item> \<open>Runtime\<close>: the libraries under the server as parameters: records of operations (\<open>dashmap\<close>,
    \<open>broadcast\<close>, \<open>streammap\<close>), predicates with their documented behaviour, and one instance of each.
    \<open>Mpsc\<close>: the bounded channel (\<open>tokio::sync::mpsc\<close>), in the same way, for \<open>Outbox\<close> and \<open>Metric_Tasks\<close>.
    \<open>Topic_Bus\<close>: what a client of the bus relies on (locale \<open>topic_bus\<close>). \<open>Bus\<close>, \<open>Bus_Correct\<close>:
    \<open>TopicData\<close> and \<open>Bus\<close>, operation by operation, and the bus as a topic bus. \<open>Bus_Threads\<close>,
    \<open>Thread_Claims\<close>: \<open>Bus::send\<close> call by call, with any number of threads interleaved.
  \<^item> \<open>Connection\<close>, \<open>Connection_Correct\<close>: \<open>ConnectionHandler\<close>, operation by operation, up to one
    iteration of its \<open>select!\<close> loop. \<open>System\<close>, \<open>System_Correct\<close>, \<open>Server_Claims\<close>: any number of
    handlers on one bus as a step relation, its invariants and the delivery properties.
    \<open>Delivery\<close>: delivery without lag, exactly and eventually. \<open>Provenance\<close>, \<open>Entitlement\<close>: where what a
    handler sends comes from, and that its client asked for it. \<open>Event_Lag\<close>: what follows when a
    handler loses a topic event. \<open>Subscribe_Threads\<close>: \<open>handle_subscribe\<close> call by call, among the threads
    of \<open>Bus_Threads\<close>, listing the topics one shard of the map at a time. \<open>Outbox\<close>, \<open>Outbox_Claims\<close>: the
    bounded channel between a handler and its write task. \<open>Server_Run\<close>: \<open>Server\<close>, the metrics it
    registers, its accept loop.
  \<^item> \<open>Log_Spec\<close>: the abstract specification of the server: one append-only log per topic, and readers
    with a position in each log they follow. \<open>Simulation\<close>: runs of a transition system and forward
    simulation (locale \<open>forward_simulation\<close>). \<open>Log_Refinement\<close>, \<open>Log_Claims\<close>: the server simulates its
    specification, iteration by iteration, and what this gives a subscriber.
  \<^item> \<open>Client\<close>: the client's calls and tasks. \<open>Load_Generator\<close>: \<open>test_client\<close>. \<open>Pipeline\<close>: the way of a
    command from the client's call to its handler, and of a message from a handler to the client's
    \<open>recv\<close>, through both channels, both tasks, the socket and the decoder, at any moment (the
    relations \<open>upstream\<close>, \<open>downstream\<close>). \<open>End_To_End\<close>: clients and server together.
  \<^item> \<open>Glob_Tests\<close>, \<open>Bus_Tests\<close>, \<open>Stream_Tests\<close>, \<open>Codec_Tests\<close>: the repository's own unit tests, run on
    the model.
  \<^item> This theory: the connections metric against the connections that are live.

  \<^bold>\<open>Correspondence.\<close> A struct is a record or a datatype with the source's fields, a method a definition
  of the same name (with a prefix where two structs share one), a loop a recursive function over what
  it iterates over. Every definition takes and returns the state it changes: a handler is passed with
  the bus, and what it sends to its adapter and to the metrics is a list of outputs, which the steps of
  the server carry in full, from the report of its start to that of its end. Errors and panics are
  values. Characters of patterns are Unicode scalar values while the matcher compares bytes, as
  in the code. Counts, sizes and metric values are 64-bit words. An \<open>Arc\<close> is a value, since what it
  points to is either never changed (message bytes, topic names) or shared by all (the bus).

  \<^bold>\<open>What the lemmas show.\<close> Of the tree: \<open>check\<close> is exact for the patterns the tree contains; which
  patterns it contains after any insertions; what a check costs, which can be exponential; when exactly a
  removal undoes an insertion. Of the bus: a send refines an update of a map from topics to last messages,
  reaches each receiver of the topic once, and announces the topic if it created it; concurrent sends are
  wait-free, linearizable while no receiver is full, and what they create is announced; a subscription
  that runs among them misses no topic while its receiver of topic events has room, and no message while
  no receiver is full. Of a handler: which streams it has after each command and event, and that it
  catches up when it polls, if it lost no event. Of the server, for every order of steps: delivery in
  order and at most once, and exactly once while a stream keeps up; within the bounds below no matching
  topic is missed, and each publication reaches every connection that matches; the last message
  of each topic is the one retained, and a client is sent nothing that was not published on a topic it
  asked for; every run without lag is one of the specification in \<open>Log_Spec\<close>, so that what a subscriber
  is sent of a topic is a gapless part of its log. Of the transport: commands and messages cross channel
  and socket in order and unaltered however the bytes are cut, and no channel holds more than its
  capacity; a published message is received by the client at the other end, if the stream keeps up, and
  what a client receives some client published and this one asked for. Of the metrics: the connections
  metric, with the reports still in its channel, is the number of live connections, and the throughput
  metrics lose no update. Several properties record behaviour that departs from the documentation, among
  them patterns that a removal leaves in place, and a write task that never ends.

  \<^bold>\<open>Bounds.\<close> The tree's properties assume that the inserted patterns have fewer than \<open>2 ^ 64\<close>
  characters in total (\<open>2 ^ 63\<close> where each pattern counts twice; predicate \<open>fits\<close>), so no count
  wraps. \<open>within\<close> assumes that no receiver of topic events falls behind by the capacity of the channel,
  100000 events, when the broadcast channel drops the oldest; without it a topic's creation can be
  missed, and \<open>Event_Lag\<close> shows that the topic then stays missed. Delivery in order and at
  most once needs no bound; exact delivery is stated for the stretch of a run on which
  the stream has room (\<open>keeps\<close>), and the refinement of the specification for runs on which every
  stream has (\<open>lossless\<close>). Among threads, \<open>no_lag\<close> and \<open>event_room\<close> say before each call that the
  receivers of messages, and a handler's receiver of topic events, have room. \<open>budgeted\<close> bounds the
  patterns that are inserted, as \<open>fits\<close> does.
  There is no fuel: every function terminates on its own, and the loops of the code that may run for
  ever are functions of the finite list of what happened so far.

  \<^bold>\<open>Not modelled.\<close> Sockets, timers, task scheduling, argument parsing and log output are I/O; the
  results of such calls are inputs. In the step relation of the server one iteration of a handler is one
  step; below that, \<open>Bus_Threads\<close> and \<open>Subscribe_Threads\<close> interleave the single calls on the bus of
  \<open>Bus::send\<close> and of \<open>handle_subscribe\<close>, with the iteration over the map in \<open>list_topics\<close> shard by shard.
  The libraries \<open>dashmap\<close>, \<open>tokio\<close>, \<open>rmp_serde\<close> and \<open>rmpv\<close> are parameters with the laws stated in
  \<open>Runtime\<close>, \<open>Mpsc\<close> and \<open>Interface\<close>. Benchmarks, integration tests (over real sockets) and the Python
  client are left out.
\<close>

section \<open>The connections metric of the whole server\<close>

definition live :: "('m, 'w, 'v, 's, 'h) sys \<Rightarrow> nat set" where
  "live s = {i. sys_conns s i \<noteq> None}"

text \<open>
  C38: the connections metric counts the connections. In every run of the server of fewer than \<open>2 ^ 64\<close>
  reports, let the channel of the metric be given what the handlers report at their start and end, each
  handler's reports in its order and those of different handlers interleaved at will, and let the
  metric's task receive, log and wake up at any time. Then the metric's value and the updates still in
  its channel add up, as integers, to the number of live connections; so the value never wraps, and it
  is the number of live connections whenever the channel is empty.
\<close>
theorem connections_metric_exact:
  assumes run: "reachable R E ok w v acts s" and mq: "mpsc_laws C"
    and metric: "count_run C (connection_count (register_metrics :: unit server_metrics)) mk"
    and sent: "mt_sent mk = List.map snd us" "\<And>i. sent_by i us = count_updates (outputs i acts)"
    and bound: "length us < 2 ^ 64"
  shows "int (unat (c_value (mt_metric mk))) + (\<Sum>u\<leftarrow>mq_contents C (mt_channel mk). sint u) =
    int (card (live s))"
proof -
  have "count_run C (count_new (str ''connections'') (unat M_CONNECTIONS_INTERVAL_S)) mk"
    using metric by (simp add: register_metrics_def)
  from count_task_received [OF mq this] obtain rs where
    rs: "List.map snd us = rs @ mq_contents C (mt_channel mk)" "c_value (mt_metric mk) = (\<Sum>u\<leftarrow>rs. u)"
    unfolding sent(1) by blast
  then obtain xs ys where xs: "us = xs @ ys" "rs = List.map snd xs" "mq_contents C (mt_channel mk) = List.map snd ys"
    by (auto simp: map_eq_append_conv)
  have all: "\<exists>n. sent_by i us = turns n \<and> (odd n \<longleftrightarrow> sys_conns s i \<noteq> None)" for i
    using reachable_turns [OF run, of i] by (simp add: sent(2))
  then have part: "\<exists>n. sent_by i xs = turns n" for i
    using prefix_turns [of "sent_by i xs"] by (metis prefixI sent_by_append xs(1))
  have "odd (length (sent_by i us)) \<longleftrightarrow> sys_conns s i \<noteq> None" for i
    using all [of i] by (auto simp: turns_def)
  then have now: "{i. odd (length (sent_by i us))} = live s" by (simp add: live_def)
  let ?k = "card {i. odd (length (sent_by i xs))}"
  have "?k < 2 ^ 64" using turns_few [of xs] bound by (simp add: xs(1))
  moreover have "c_value (mt_metric mk) = of_nat ?k"
    unfolding rs(2) word_sum_of_int using turns_total [OF part] by (simp add: xs(2) o_def)
  ultimately have "int (unat (c_value (mt_metric mk))) = (\<Sum>p\<leftarrow>xs. sint (snd p))"
    using turns_total [OF part] by (simp add: unat_of_nat)
  moreover have "(\<Sum>p\<leftarrow>us. sint (snd p)) = int (card (live s))"
    using turns_total [of us] all now by metis
  ultimately show ?thesis by (simp add: xs(1,3) o_def)
qed

text \<open>
  The run of two clients, and the first of them leaves. The metric has received that the two connections
  started; that one ended is still in its channel.
\<close>

definition act_8 :: "unit action" where
  "act_8 = Iterate 0 (On_command None) [Connection_subtract 1]"

lemma run_8: "reachable rt0 ext0 (\<lambda>_ _. True) chans_new chans_new (acts_7 @ [act_8])
    (sys_7\<lparr>sys_conns := (sys_conns sys_7)(0 := None)\<rparr>)"
proof (rule reachable.next_step [OF reachable_any [OF run_7] TrueI])
  have "run_iteration rt0 ext0 (On_command None) (conn_a tree_a [(str ''a'', 2)], sys_bus sys_7) =
      (False, [], conn_a tree_a [(str ''a'', 2)], sys_bus sys_7)" by simp
  from sys_step.iterate [OF _ this, of 0]
  show "sys_step rt0 ext0 sys_7 act_8 (sys_7\<lparr>sys_conns := (sys_conns sys_7)(0 := None)\<rparr>)"
    by (simp add: act_8_def sys_7_def)
qed

definition counted :: "u64 \<Rightarrow> i64 list \<Rightarrow> i64 list \<Rightarrow> (count, nat \<times> i64 list, i64, rstring \<times> u64) metric_task" where
  "counted n q us = \<lparr>mt_metric = \<lparr>c_name = str ''connections'', c_value = n,
       c_interval = unat M_CONNECTIONS_INTERVAL_S\<rparr>,
     mt_channel = (CHANNEL_BUFFER_SIZE, q), mt_sent = us, mt_lines = []\<rparr>"

abbreviation crun0 where
  "crun0 \<equiv> count_run list_mpsc (connection_count (register_metrics :: unit server_metrics))"

lemma counted_start: "crun0 (counted 0 [] [])"
  using metric_start [of list_mpsc "\<lambda>_ m. m" count_update count_log_metric
      "connection_count (register_metrics :: unit server_metrics)"]
  by (simp add: metric_task_new_def counted_def register_metrics_def count_new_def list_calls)

lemma counted_mutate:
  assumes "crun0 (counted n q us)" and "length q < CHANNEL_BUFFER_SIZE"
  shows "crun0 (counted n (q @ [u]) (us @ [u]))"
proof (rule metric_next [OF assms(1)])
  show "metric_step list_mpsc (\<lambda>(now :: unit) m. m) count_update count_log_metric (counted n q us)
      (counted n (q @ [u]) (us @ [u]))"
    using mutate [where C = list_mpsc and u = u and s = "counted n q us" and start = "\<lambda>(now :: unit) m. m" and
      update = count_update and logm = count_log_metric] assms(2)
    by (simp add: counted_def list_calls)
qed

lemma counted_receive:
  assumes "crun0 (counted n (u # q) us)"
  shows "crun0 (counted (n + u) q us)"
proof (rule metric_next [OF assms])
  have "count_update u (mt_metric (counted n (u # q) us)) = mt_metric (counted (n + u) q us)"
    by (simp add: counted_def count_update_def count_add_def count_subtract_def)
  then show "metric_step list_mpsc (\<lambda>(now :: unit) m. m) count_update count_log_metric (counted n (u # q) us)
      (counted (n + u) q us)"
    using receive [where C = list_mpsc and s = "counted n (u # q) us" and start = "\<lambda>(now :: unit) m. m" and
      update = count_update and logm = count_log_metric]
    by (simp add: counted_def list_calls)
qed

lemma counted_run: "crun0 (counted 2 [- 1] [1, 1, - 1])"
proof -
  have "crun0 (counted 0 [1, 1] [1, 1])"
    using counted_mutate [OF counted_mutate [OF counted_start, of 1], of 1] by (simp add: CHANNEL_BUFFER_SIZE_def)
  from counted_receive [OF counted_receive [OF this]] have "crun0 (counted 2 [] [1, 1])" by simp
  from counted_mutate [OF this, of "- 1"] show ?thesis by (simp add: CHANNEL_BUFFER_SIZE_def)
qed

theorem connections_metric_exact_witness:
  "int (unat (2 :: u64)) + (\<Sum>u\<leftarrow>[- 1 :: i64]. sint u) =
     int (card (live (sys_7\<lparr>sys_conns := (sys_conns sys_7)(0 := None)\<rparr>)))"
proof -
  have "sent_by i [(0, 1), (1, 1), (0, - 1)] = count_updates (outputs i (acts_7 @ [act_8]))" for i
    by (simp add: sent_by_def act_1_def act_2_def act_3_def act_4_def act_5_def act_7_def act_8_def out_of_def
        run_start_def count_mutator_add_def count_mutator_subtract_def)
  from connections_metric_exact [OF run_8 list_mpsc_laws counted_run _ this]
  show ?thesis by (simp add: counted_def list_calls)
qed

end
